(* ===== verification/Prelude.thy ===== *)
theory Prelude
  imports Main "HOL-Library.Finite_Map" "HOL-Library.Multiset"
begin

section \<open>Shared vocabulary of the dynec model\<close>

text \<open>
  What every component of the model shares: panics as values, the panic monad and its loop
  combinator, \<open>BTreeSet::pop_first\<close>, \<open>Vec\<close> helpers whose out-of-range behaviour is written out,
  and the iteration order of hash containers as an explicit parameter.

  A Rust computation that may panic is a value of \<open>'a res\<close>: \<open>Inl p\<close> is the panic \<open>p\<close>, \<open>Inr x\<close> a
  normal return. One constructor of \<open>panic\<close> stands for one \<open>panic!\<close>, \<open>expect\<close>, \<open>assert!\<close> or
  arithmetic overflow check of the source.
\<close>

text \<open>A node of the schedule, \<open>scheduler::Node\<close>: the cycle report of a panic lists nodes.\<close>

datatype node = SendSystem nat | UnsendSystem nat | Partition nat

datatype panic =
    InvalidNodeIndex           \<comment> \<open>\<open>expect("invalid node index")\<close>\<close>
  | CyclicDependency "node list" \<comment> \<open>topology.rs: cyclic dependency, with the path printed\<close>
  | StackMismatch              \<comment> \<open>topology.rs: \<open>debug_assert_eq!\<close> on the popped node\<close>
  | ExitedTwice                \<comment> \<open>topology.rs: assertion on \<open>exited.insert\<close>\<close>
  | ZeroDependencyCount        \<comment> \<open>topology.rs: \<open>checked_sub(1)\<close> on a dependency count\<close>
  | AccessConflict             \<comment> \<open>builder.rs: conflicting accesses of one system\<close>
  | RunnableNotPending         \<comment> \<open>planner.rs: node of the runnable queue is not Pending\<close>
  | PendingNotInPool           \<comment> \<open>planner.rs: Pending node should be in runnable pool\<close>
  | PartitionExclusive         \<comment> \<open>planner.rs: partitions are not exclusive with other nodes\<close>
  | StartedExclusion           \<comment> \<open>planner.rs: Started node should not be in the runnable pool\<close>
  | CompleteNotStarted         \<comment> \<open>planner.rs: cannot mark a node as completed\<close>
  | AlreadyRunnable            \<comment> \<open>planner.rs: Blocked node is already in runnable pool\<close>
  | NoBlockersExpected         \<comment> \<open>planner.rs: node in a state which should not have blockers\<close>
  | IntegerOverflow            \<comment> \<open>arithmetic overflow or a failed integer conversion\<close>
  | InvalidState               \<comment> \<open>raw.rs: \<open>expect("invalid state")\<close>\<close>
  | IndexOutOfBounds           \<comment> \<open>a \<open>get\<close>/\<open>get_mut\<close> followed by \<open>expect\<close>\<close>
  | BitsMismatch               \<comment> \<open>storage/vec.rs: \<open>expect("bits mismatch")\<close> and its variants\<close>
  | OutsidePartition           \<comment> \<open>storage: entity is not in the partition\<close>
  | DeadlockDetected           \<comment> \<open>executor.rs: all workers and main are waiting for tasks\<close>
  | NotCompleted               \<comment> \<open>executor.rs: node state instead of complete after the cycle\<close>
  | GlobalSyncMismatch         \<comment> \<open>world/builder.rs: global used as both thread-safe and thread-local\<close>
  | ThreadUnsafeRequest        \<comment> \<open>world/builder.rs: thread-safe system requires thread-unsafe resources\<close>
  | StackOverflow              \<comment> \<open>unbounded recursion\<close>
  | DuplicateDependency        \<comment> \<open>comp.rs: initializer depends on one component type twice\<close>
  | DuplicateComponent         \<comment> \<open>comp/any.rs: one simple component inserted twice\<close>
  | ToposortBug                \<comment> \<open>world/typed.rs: dependency storage missing or out of order\<close>
  | StorageLocked              \<comment> \<open>a \<open>try_write\<close> on a storage that is already locked\<close>
  | ChunkIncomplete            \<comment> \<open>access/single.rs: chunk is not completely filled\<close>
  | MissingComponent           \<comment> \<open>required component neither given nor auto-initialized\<close>
  | NoStrongReference          \<comment> \<open>system/spec.rs: no strong references to exempt\<close>
  | ArcShared                  \<comment> \<open>\<open>Arc::get_mut\<close> on an \<open>Arc\<close> that is still shared\<close>
  | UnknownArchetype           \<comment> \<open>an archetype that no system registered\<close>
  | NotFreed                   \<comment> \<open>entity/rctrack.rs: previous entity was not freed correctly\<close>
  | DoubleFree                 \<comment> \<open>entity/rctrack.rs: removal of a reference that is not there\<close>
  | DanglingReference "string list" \<comment> \<open>world.rs: dangling strong reference, with its holders\<close>
  | UninitRead                 \<comment> \<open>an \<open>unsafe\<close> \<open>assume_init\<close> of an uninitialized slot: undefined behaviour\<close>
  | SystemPanicked             \<comment> \<open>a system's own \<open>run\<close> panicked\<close>
  | DuplicateKey               \<comment> \<open>comp/discrim.rs: cannot split isotopes with duplicate key\<close>
  | MissingKey                 \<comment> \<open>comp/discrim.rs: the caller's \<open>on_missing\<close>\<close>
  | DiscrimOutOfRange          \<comment> \<open>comp/discrim.rs: discriminants using ArrayMap must be less than N\<close>
  | InvalidDiscrim             \<comment> \<open>codegen/discrim.rs: invalid discriminant raw value\<close>
  | Unimplemented              \<comment> \<open>storage/isotope.rs: isotope initializers with dependencies\<close>
  | Unreachable                \<comment> \<open>an \<open>unreachable!\<close> that was reached\<close>
  | UnusedResource             \<comment> \<open>world/rw: cannot be used because it is not used in any systems\<close>
  | LockBusy                   \<comment> \<open>world/rw: currently locked by another system, maybe scheduler bug\<close>
  | MutexBlocked               \<comment> \<open>world/rw/isotope: \<open>lock()\<close> on a mutex that another system holds waits for its end\<close>

type_synonym 'a res = "panic + 'a"

named_theorems res_simps "unfolding of the panic monad"

fun bind_res :: "'a res \<Rightarrow> ('a \<Rightarrow> 'b res) \<Rightarrow> 'b res" where
  "bind_res (Inl e) f = Inl e"
| "bind_res (Inr x) f = f x"

fun expect :: "panic \<Rightarrow> 'a option \<Rightarrow> 'a res" where
  "expect p None = Inl p"
| "expect p (Some x) = Inr x"

definition assert_res :: "panic \<Rightarrow> bool \<Rightarrow> unit res" where
  "assert_res p b = (if b then Inr () else Inl p)"

text \<open>A \<open>for\<close> loop over a list whose body updates a state and may panic.\<close>

fun fold_res :: "('a \<Rightarrow> 's \<Rightarrow> 's res) \<Rightarrow> 'a list \<Rightarrow> 's \<Rightarrow> 's res" where
  "fold_res f [] s = Inr s"
| "fold_res f (x # xs) s = bind_res (f x s) (fold_res f xs)"

text \<open>\<open>Iterator::map\<close> with a body that may panic, collected.\<close>

fun map_res :: "('a \<Rightarrow> 'b res) \<Rightarrow> 'a list \<Rightarrow> 'b list res" where
  "map_res f [] = Inr []"
| "map_res f (x # xs) = bind_res (f x) (\<lambda>y. bind_res (map_res f xs) (\<lambda>ys. Inr (y # ys)))"

text \<open>\<open>BTreeSet::pop_first\<close>: the least element and the rest.\<close>

definition bt_pop_first :: "'a::linorder set \<Rightarrow> ('a \<times> 'a set) option" where
  "bt_pop_first S = (if S = {} then None else Some (Min S, S - {Min S}))"

text \<open>\<open>slice.get(i)\<close>.\<close>

definition list_get :: "'a list \<Rightarrow> nat \<Rightarrow> 'a option" where
  "list_get xs i = (if i < length xs then Some (xs ! i) else None)"

text \<open>\<open>Vec::resize(n, x)\<close> when it only grows.\<close>

definition list_grow :: "nat \<Rightarrow> 'a \<Rightarrow> 'a list \<Rightarrow> 'a list" where
  "list_grow n x xs = xs @ replicate (n - length xs) x"

text \<open>
  The order in which \<open>HashMap\<close> and \<open>HashSet\<close> yield their items is not specified: it is a
  parameter \<open>ho\<close> of the definitions that iterate over one, of which only
  \<open>hash_order_ok\<close> is known: it permutes.
\<close>

type_synonym 'a hash_order = "'a list \<Rightarrow> 'a list"

definition hash_order_ok :: "'a hash_order \<Rightarrow> bool" where
  "hash_order_ok ho \<longleftrightarrow> (\<forall>xs. mset (ho xs) = mset xs)"

subsection \<open>The panic monad\<close>

lemma bind_res_eq_Inr [simp]:
  "bind_res m f = Inr y \<longleftrightarrow> (\<exists>x. m = Inr x \<and> f x = Inr y)"
  by (cases m) auto

lemma bind_res_eq_Inl:
  "bind_res m f = Inl e \<longleftrightarrow> m = Inl e \<or> (\<exists>x. m = Inr x \<and> f x = Inl e)"
  by (cases m) auto

lemma expect_eq_Inr [simp]: "expect p m = Inr x \<longleftrightarrow> m = Some x"
  by (cases m) auto

lemma expect_eq_Inl: "expect p m = Inl q \<longleftrightarrow> m = None \<and> p = q"
  by (cases m) auto

lemma assert_res_eq_Inr [simp]: "assert_res p b = Inr u \<longleftrightarrow> b"
  by (simp add: assert_res_def)

lemma assert_res_True [simp]: "assert_res p True = Inr ()"
  by (simp add: assert_res_def)

lemma assert_res_False [simp]: "assert_res p False = Inl p"
  by (simp add: assert_res_def)

lemma bind_res_cong [fundef_cong]:
  assumes "m = m'" and "\<And>x. m' = Inr x \<Longrightarrow> f x = g x"
  shows "bind_res m f = bind_res m' g"
  using assms by (cases m') auto

declare bind_res_eq_Inl [res_simps] expect_eq_Inl [res_simps]

lemma bind_res_assoc: "bind_res (bind_res m f) g = bind_res m (\<lambda>x. bind_res (f x) g)"
  by (cases m) auto

lemma map_res_append:
  "map_res f (xs @ ys) = bind_res (map_res f xs) (\<lambda>as. bind_res (map_res f ys) (\<lambda>bs. Inr (as @ bs)))"
proof (induction xs)
  case Nil
  show ?case by (cases "map_res f ys") auto
next
  case (Cons x xs)
  then show ?case by (cases "f x"; cases "map_res f xs"; cases "map_res f ys") auto
qed

lemma fold_res_append:
  "fold_res f (xs @ ys) s = bind_res (fold_res f xs s) (fold_res f ys)"
proof (induction xs arbitrary: s)
  case (Cons x xs)
  then show ?case by (cases "f x s") simp_all
qed simp

text \<open>
  The loop rule: an invariant indexed by what is left to process, kept by every iteration,
  which also shows that no iteration panics.
\<close>

lemma fold_res_rule:
  assumes "I xs s"
    and "\<And>x xs s. I (x # xs) s \<Longrightarrow> \<exists>s'. f x s = Inr s' \<and> I xs s'"
  shows "\<exists>s'. fold_res f xs s = Inr s' \<and> I [] s'"
  using assms(1)
proof (induction xs arbitrary: s)
  case Nil
  then show ?case by simp
next
  case (Cons x xs)
  from assms(2) [OF Cons.prems] obtain s' where "f x s = Inr s'" and "I xs s'" by blast
  with Cons.IH show ?case by simp
qed

text \<open>The partial-correctness variant: what is kept when the loop returns.\<close>

lemma fold_res_keeps:
  assumes "fold_res f xs s = Inr s'" and "P s"
    and "\<And>x s s'. x \<in> set xs \<Longrightarrow> P s \<Longrightarrow> f x s = Inr s' \<Longrightarrow> P s'"
  shows "P s'"
  using assms
proof (induction xs arbitrary: s)
  case Nil
  then show ?case by simp
next
  case (Cons x xs)
  then obtain s1 where "f x s = Inr s1" and "fold_res f xs s1 = Inr s'" by auto
  with Cons show ?case by (meson list.set_intros)
qed

subsection \<open>Containers\<close>

lemma bt_pop_first_None [simp]: "bt_pop_first S = None \<longleftrightarrow> S = {}"
  by (simp add: bt_pop_first_def)

lemma bt_pop_first_Some:
  assumes "bt_pop_first S = Some (x, T)" and "finite S"
  shows "x \<in> S" and "T = S - {x}" and "\<forall>y \<in> S. x \<le> y"
proof -
  from assms have ne: "S \<noteq> {}" and x: "x = Min S" and T: "T = S - {Min S}"
    by (auto simp: bt_pop_first_def split: if_splits)
  from ne x assms(2) show "x \<in> S" and "\<forall>y \<in> S. x \<le> y" by simp_all
  from x T show "T = S - {x}" by simp
qed

lemma list_get_Some [simp]: "list_get xs i = Some x \<longleftrightarrow> i < length xs \<and> xs ! i = x"
  by (auto simp: list_get_def)

lemma list_get_None [simp]: "list_get xs i = None \<longleftrightarrow> length xs \<le> i"
  by (auto simp: list_get_def)

lemma length_list_grow [simp]: "length (list_grow n x xs) = max n (length xs)"
  by (simp add: list_grow_def)

lemma nth_list_grow:
  "i < max n (length xs) \<Longrightarrow> list_grow n x xs ! i = (if i < length xs then xs ! i else x)"
  by (auto simp: list_grow_def nth_append)

lemma hash_order_ok_id [simp, intro]: "hash_order_ok id"
  by (simp add: hash_order_ok_def)

lemma hash_order_ok_rev [simp, intro]: "hash_order_ok rev"
  by (simp add: hash_order_ok_def)

lemma hash_order_set [simp]: "hash_order_ok ho \<Longrightarrow> set (ho xs) = set xs"
  by (metis hash_order_ok_def set_mset_mset)

lemma hash_order_distinct [simp]: "hash_order_ok ho \<Longrightarrow> distinct (ho xs) \<longleftrightarrow> distinct xs"
  by (metis hash_order_ok_def mset_eq_imp_distinct_iff)

lemma hash_order_length [simp]: "hash_order_ok ho \<Longrightarrow> length (ho xs) = length xs"
  by (metis hash_order_ok_def size_mset)

lemma count_list_mset: "count_list xs x = count (mset xs) x"
  by (induction xs) auto

lemma finite_fmap_keys [simp, intro]: "finite {k. \<exists>v. fmlookup m k = Some v \<and> P k v}"
proof (rule finite_subset)
  show "{k. \<exists>v. fmlookup m k = Some v \<and> P k v} \<subseteq> fmdom' m"
    by (auto simp: fmdom'_alt_def intro: fmdomI)
qed simp

text \<open>The total weight of a finite map, the measure of loops that work one off.\<close>

definition fmap_weight :: "('v \<Rightarrow> nat) \<Rightarrow> ('k, 'v) fmap \<Rightarrow> nat" where
  "fmap_weight w m = (\<Sum>k \<in> fmdom' m. w (the (fmlookup m k)))"

lemma fmap_weight_upd:
  assumes "fmlookup m k = Some v"
  shows "fmap_weight w (fmupd k v' m) + w v = fmap_weight w m + w v'"
proof -
  from assms have k: "k \<in> fmdom' m" by (rule fmdom'I)
  have rest: "(\<Sum>j \<in> fmdom' m - {k}. w (the (fmlookup (fmupd k v' m) j))) =
        (\<Sum>j \<in> fmdom' m - {k}. w (the (fmlookup m j)))"
    by (rule sum.cong) auto
  have "fmap_weight w (fmupd k v' m) = (\<Sum>j \<in> fmdom' m. w (the (fmlookup (fmupd k v' m) j)))"
    using k by (simp add: fmap_weight_def insert_absorb)
  also have "\<dots> = w v' + (\<Sum>j \<in> fmdom' m - {k}. w (the (fmlookup m j)))"
    by (subst sum.remove [OF finite_fmdom' k]) (simp only: rest, simp)
  finally show ?thesis
    using assms by (simp add: fmap_weight_def sum.remove [OF finite_fmdom' k])
qed

lemma fold_res_concat:
  "fold_res (\<lambda>x. fold_res g (f x)) xs s = fold_res g (concat (map f xs)) s"
proof (induction xs arbitrary: s)
  case (Cons x xs)
  then show ?case by (cases "fold_res g (f x) s") (simp_all add: fold_res_append)
qed simp

lemma fold_res_map: "fold_res g (map f xs) s = fold_res (\<lambda>x. g (f x)) xs s"
proof (induction xs arbitrary: s)
  case (Cons x xs)
  then show ?case by (cases "g (f x) s") simp_all
qed simp

lemma fold_res_map_fun: "fold_res g (map f xs) = fold_res (\<lambda>x. g (f x)) xs"
  by (rule ext) (rule fold_res_map)

lemma set_map_filter: "y \<in> set (List.map_filter f xs) \<longleftrightarrow> (\<exists>x \<in> set xs. f x = Some y)"
  by (induction xs) (auto simp: map_filter_simps split: option.splits)

lemma fold_res_pure: "fold_res (\<lambda>x s. Inr (f x s)) xs s = Inr (fold f xs s)"
  by (induction xs arbitrary: s) simp_all

text \<open>A loop whose steps keep a property and only extend the state establishes what each step
  establishes, provided extension keeps it.\<close>

lemma fold_res_extends:
  assumes "fold_res f xs s = Inr s'" and "G s"
    and step: "\<And>x s s'. x \<in> set xs \<Longrightarrow> G s \<Longrightarrow> f x s = Inr s' \<Longrightarrow> G s' \<and> E s s' \<and> Q x s'"
    and refl: "\<And>s. E s s" and trans: "\<And>a b c. E a b \<Longrightarrow> E b c \<Longrightarrow> E a c"
    and stable: "\<And>x a b. Q x a \<Longrightarrow> E a b \<Longrightarrow> Q x b"
  shows "G s' \<and> E s s' \<and> (\<forall>x \<in> set xs. Q x s')"
  using assms(1-3)
proof (induction xs arbitrary: s)
  case Nil
  then show ?case by (simp add: refl)
next
  case (Cons x xs)
  from Cons.prems(1) obtain s1 where s1: "f x s = Inr s1" "fold_res f xs s1 = Inr s'" by auto
  have 1: "G s1" "E s s1" "Q x s1" using Cons.prems(3) [of x s s1] Cons.prems(2) s1(1) by auto
  have 2: "G s' \<and> E s1 s' \<and> (\<forall>x \<in> set xs. Q x s')"
    by (rule Cons.IH [OF s1(2) 1(1)]) (use Cons.prems(3) in auto)
  with 1 trans [of s s1 s'] stable [of x s1 s'] show ?case by simp
qed

subsection \<open>Positions in a list\<close>

text \<open>The first index at which a value occurs, \<open>IndexSet::get_index_of\<close>.\<close>

fun position :: "'a \<Rightarrow> 'a list \<Rightarrow> nat option" where
  "position x [] = None"
| "position x (y # ys) = (if x = y then Some 0 else map_option Suc (position x ys))"

lemma position_None [simp]: "position x xs = None \<longleftrightarrow> x \<notin> set xs"
  by (induction xs) auto

lemma position_Some: "position x xs = Some i \<Longrightarrow> i < length xs \<and> xs ! i = x"
  by (induction xs arbitrary: i) (auto split: if_splits)

lemma position_distinct: "distinct xs \<Longrightarrow> i < length xs \<Longrightarrow> position (xs ! i) xs = Some i"
  by (induction xs arbitrary: i) (auto simp: nth_Cons split: nat.splits)

lemma position_append:
  "position x (xs @ ys) =
     (case position x xs of Some i \<Rightarrow> Some i | None \<Rightarrow> map_option (\<lambda>i. i + length xs) (position x ys))"
  by (induction xs)
    (auto simp: option.map_comp o_def option.map_ident simp del: position_None split: option.splits)

subsection \<open>Counting after an update\<close>

lemma length_filter_update:
  "i < length xs \<Longrightarrow>
     length (filter P (xs[i := x])) + (if P (xs ! i) then 1 else 0) =
     length (filter P xs) + (if P x then 1 else 0)"
proof (induction xs arbitrary: i)
  case (Cons y ys)
  then show ?case by (cases i) auto
qed simp

lemma count_list_filter: "count_list xs y = length (filter (\<lambda>x. y = x) xs)"
  by (induction xs) auto

lemma count_list_update:
  "i < length xs \<Longrightarrow>
     count_list (xs[i := x]) y + (if xs ! i = y then 1 else 0) =
     count_list xs y + (if x = y then 1 else 0)"
  using length_filter_update [of i xs "\<lambda>x. y = x" x] by (simp add: count_list_filter eq_commute)

end
