(* ===== verification/Sched_Types.thy ===== *)
theory Sched_Types
  imports Prelude
begin

section \<open>Scheduler vocabulary\<close>

text \<open>
  The types of \<^verbatim>\<open>src/scheduler.rs\<close>: nodes of the schedule with the order that \<open>derive(Ord)\<close>
  gives them, wakeup states, resource types, resource accesses and their conflict check, and
  the dependency orders between nodes. A \<open>DbgTypeId\<close> is a value of an arbitrary type \<open>'t\<close>:
  the code only compares type ids.
\<close>

datatype wakeup = Blocked nat | Pending | Started | Completed

datatype 't resource_type =
    GlobalRes 't
  | SimpleRes 't 't    \<comment> \<open>archetype, component\<close>
  | IsotopeRes 't 't

record resource_access =
  ra_mutable :: bool
  ra_discrim :: "nat list option"

record sched_order =
  before :: node
  after :: node

fun is_system :: "node \<Rightarrow> bool" where
  "is_system (SendSystem _) = True"
| "is_system (UnsendSystem _) = True"
| "is_system (Partition _) = False"

text \<open>The tick-local state of \<^verbatim>\<open>src/scheduler/planner.rs\<close>; the runnable pools are \<open>BTreeSet\<close>s.\<close>

record planner =
  wakeup_state :: "(node, wakeup) fmap"
  send_runnable :: "nat set"
  unsend_runnable :: "nat set"
  remaining_systems :: nat

text \<open>The order of variants first, then of the index: what the derived \<open>Ord\<close> compares.\<close>

fun node_key :: "node \<Rightarrow> nat \<times> nat" where
  "node_key (SendSystem i) = (0, i)"
| "node_key (UnsendSystem i) = (1, i)"
| "node_key (Partition i) = (2, i)"

instantiation node :: linorder
begin

definition less_eq_node :: "node \<Rightarrow> node \<Rightarrow> bool" where
  "less_eq_node a b \<longleftrightarrow>
     fst (node_key a) < fst (node_key b) \<or>
     fst (node_key a) = fst (node_key b) \<and> snd (node_key a) \<le> snd (node_key b)"

definition less_node :: "node \<Rightarrow> node \<Rightarrow> bool" where
  "less_node a b \<longleftrightarrow>
     fst (node_key a) < fst (node_key b) \<or>
     fst (node_key a) = fst (node_key b) \<and> snd (node_key a) < snd (node_key b)"

instance
proof
  fix a b c :: node
  show "(a < b) = (a \<le> b \<and> \<not> b \<le> a)"
    by (auto simp: less_eq_node_def less_node_def)
  show "a \<le> a" by (simp add: less_eq_node_def)
  show "a \<le> b \<Longrightarrow> b \<le> c \<Longrightarrow> a \<le> c"
    by (auto simp: less_eq_node_def)
  show "a \<le> b \<Longrightarrow> b \<le> a \<Longrightarrow> a = b"
    by (cases a; cases b) (auto simp: less_eq_node_def)
  show "a \<le> b \<or> b \<le> a"
    by (auto simp: less_eq_node_def)
qed

end

text \<open>
  The four error messages of \<open>check_conflicts_with\<close>; the boolean is \<open>that_mut\<close>, which chooses
  between "unique" and "shared" in the message.
\<close>

datatype conflict =
    ConflictDiscrim nat bool
  | ConflictSomeAll "nat list" bool
  | ConflictAllSome bool
  | ConflictAll bool

definition access_new :: "bool \<Rightarrow> resource_access" where
  "access_new m = \<lparr>ra_mutable = m, ra_discrim = None\<rparr>"

definition access_with_discrim :: "bool \<Rightarrow> nat list option \<Rightarrow> resource_access" where
  "access_with_discrim m d = \<lparr>ra_mutable = m, ra_discrim = d\<rparr>"

definition check_conflicts_with ::
    "resource_access \<Rightarrow> resource_access \<Rightarrow> conflict + unit" where
  "check_conflicts_with self other =
     (if \<not> ra_mutable self \<and> \<not> ra_mutable other then Inr ()
      else
        let (this, that, that_mut) =
          (if ra_mutable self then (ra_discrim self, ra_discrim other, ra_mutable other)
           else (ra_discrim other, ra_discrim self, ra_mutable self))
        in case (this, that) of
             (Some this, Some that) \<Rightarrow>
               (case List.find (\<lambda>d. d \<in> set that) this of
                  Some d \<Rightarrow> Inl (ConflictDiscrim d that_mut)
                | None \<Rightarrow> Inr ())
           | (Some this, None) \<Rightarrow> Inl (ConflictSomeAll this that_mut)
           | (None, Some _) \<Rightarrow> Inl (ConflictAllSome that_mut)
           | (None, None) \<Rightarrow> Inl (ConflictAll that_mut))"

text \<open>\<open>check_conflicts_with(..).is_err()\<close>.\<close>

definition conflicts :: "resource_access \<Rightarrow> resource_access \<Rightarrow> bool" where
  "conflicts a b \<longleftrightarrow> (case check_conflicts_with a b of Inl _ \<Rightarrow> True | Inr _ \<Rightarrow> False)"

subsection \<open>What a conflict is\<close>

text \<open>
  The specification: two accesses conflict when at least one is mutable and the sets of
  discriminants they reach overlap, an absent discriminant list meaning all of them.
\<close>

definition reaches :: "resource_access \<Rightarrow> nat \<Rightarrow> bool" where
  "reaches a d \<longleftrightarrow> (case ra_discrim a of None \<Rightarrow> True | Some ds \<Rightarrow> d \<in> set ds)"

definition overlapping :: "resource_access \<Rightarrow> resource_access \<Rightarrow> bool" where
  "overlapping a b \<longleftrightarrow>
     (case (ra_discrim a, ra_discrim b) of
        (Some xs, Some ys) \<Rightarrow> \<exists>d \<in> set xs. d \<in> set ys
      | _ \<Rightarrow> True)"

lemma find_eq_None: "List.find P xs = None \<longleftrightarrow> (\<forall>x \<in> set xs. \<not> P x)"
  by (induction xs) auto

lemma find_eq_SomeD: "List.find P xs = Some x \<Longrightarrow> x \<in> set xs \<and> P x"
  by (induction xs) (auto split: if_splits)

lemma conflicts_iff:
  "conflicts a b \<longleftrightarrow> (ra_mutable a \<or> ra_mutable b) \<and> overlapping a b"
  by (auto simp: conflicts_def check_conflicts_with_def overlapping_def find_eq_None Let_def
      dest!: find_eq_SomeD split: option.splits)

lemma conflicts_sym: "conflicts a b \<longleftrightarrow> conflicts b a"
  by (auto simp: conflicts_iff overlapping_def split: option.splits)

text \<open>Without a conflict the two accesses never reach one discriminant with a writer among them.\<close>

lemma no_conflict_no_race:
  assumes "\<not> conflicts a b" and "reaches a d" and "reaches b d"
  shows "\<not> ra_mutable a \<and> \<not> ra_mutable b"
  using assms by (auto simp: conflicts_iff overlapping_def reaches_def split: option.splits)

end
