(* ===== verification/Topology.thy ===== *)
theory Topology
  imports Sched_Types "HOL-Library.While_Combinator"
begin

section \<open>Schedule topology\<close>

text \<open>
  \<^verbatim>\<open>src/scheduler/topology.rs\<close>: the dependents map, the depth-first cycle scan, the initial planner
  with its dependency counts, and the exclusion map. A \<open>HashMap\<close> keyed by nodes is a finite
  map; where the code iterates over one, the order is the parameter \<open>ho\<close>. The \<open>resources\<close> map
  of the builder is an association list. Proved here: the scan accepts exactly the acyclic
  graphs and reports a real cycle otherwise; the initial counts are the numbers of
  uncompleted dependencies; exclusions are symmetric, irreflexive and exactly the conflicts.
\<close>

record 'p topology =
  dependents :: "(node, node list) fmap"
  initial_planner :: planner
  depless_pars :: "nat list"
  partitions :: "'p list"
  exclusions :: "(node, node list) fmap"

type_synonym 't resources = "('t resource_type \<times> (node \<times> resource_access list) list) list"

definition nodes_iter :: "nat \<Rightarrow> nat \<Rightarrow> nat \<Rightarrow> node list" where
  "nodes_iter ns nu np =
     map SendSystem [0..<ns] @ map UnsendSystem [0..<nu] @ map Partition [0..<np]"

subsection \<open>Dependents\<close>

definition push_dependent ::
    "sched_order \<Rightarrow> (node, node list) fmap \<Rightarrow> (node, node list) fmap res" where
  "push_dependent ord m =
     bind_res (expect InvalidNodeIndex (fmlookup m (before ord)))
       (\<lambda>v. Inr (fmupd (before ord) (v @ [after ord]) m))"

definition build_dependents_map ::
    "node list \<Rightarrow> sched_order list \<Rightarrow> (node, node list) fmap res" where
  "build_dependents_map nodes orders =
     fold_res push_dependent orders (fmap_of_list (map (\<lambda>n. (n, [])) nodes))"

subsection \<open>The cycle scan\<close>

text \<open>
  \<open>scan_cycles_from\<close> on a list of nodes: its own \<open>for\<close> loop over the dependents of a node is the
  recursive call on that list. The state is \<open>remaining\<close>, \<open>exited\<close> and the \<open>stack\<close>.
\<close>

function scan_cycles_from ::
    "(node, node list) fmap \<Rightarrow> node list \<Rightarrow> node set \<Rightarrow> node set \<Rightarrow> node list
      \<Rightarrow> (node set \<times> node set \<times> node list) res" where
  "scan_cycles_from m [] remaining exited stack = Inr (remaining, exited, stack)"
| "scan_cycles_from m (x # xs) remaining exited stack =
     (if x \<in> exited then scan_cycles_from m xs remaining exited stack
      else if x \<notin> remaining then Inl (CyclicDependency (dropWhile (\<lambda>a. a \<noteq> x) stack @ [x]))
      else bind_res (expect InvalidNodeIndex (fmlookup m x)) (\<lambda>ds.
             bind_res (scan_cycles_from m ds (remaining - {x}) exited (stack @ [x]))
               (\<lambda>(remaining', exited', stack').
                  if stack' = [] \<or> last stack' \<noteq> x then Inl StackMismatch
                  else if x \<in> exited' then Inl ExitedTwice
                  else scan_cycles_from m xs remaining' (insert x exited') (butlast stack'))))"
  by pat_completeness auto

lemma scan_remaining_shrinks:
  "scan_cycles_from_dom (m, xs, rem, ex, st) \<Longrightarrow>
     scan_cycles_from m xs rem ex st = Inr (rem', ex', st') \<Longrightarrow> rem' \<subseteq> rem"
  by (induction m xs rem ex st arbitrary: rem' ex' st' rule: scan_cycles_from.pinduct)
    (fastforce simp: scan_cycles_from.psimps split: if_splits prod.splits)+

lemma card_remaining_mono:
  "rem' \<subseteq> rem \<Longrightarrow> card (fmdom' m \<inter> rem') \<le> card (fmdom' m \<inter> rem)"
  by (rule card_mono) auto

lemma card_remaining_less:
  assumes "x \<in> rem" and "fmlookup m x = Some ds"
  shows "card (fmdom' m \<inter> (rem - {x})) < card (fmdom' m \<inter> rem)"
  using assms by (intro psubset_card_mono) (auto intro: fmdom'I)

termination scan_cycles_from
proof (relation "measures [\<lambda>(m, xs, rem, ex, st). card (fmdom' m \<inter> rem), \<lambda>(m, xs, _). length xs]",
    goal_cases)
  case (3 m x xs rem ex st ds)
  then show ?case by (auto intro: card_remaining_less)
next
  case (4 m x xs rem ex st ds r rem' y ex' st')
  then have "rem' \<subseteq> rem - {x}"
    using scan_remaining_shrinks [of m ds "rem - {x}" ex "st @ [x]" rem' ex' st'] by simp
  with card_remaining_mono [of rem' "rem - {x}" m] card_remaining_less [of x rem m ds] 4
  show ?case by simp
qed auto

type_synonym scan_state = "(node set \<times> node set \<times> node list) res"

definition scan_unfinished :: "scan_state \<Rightarrow> bool" where
  "scan_unfinished s = (case s of Inl _ \<Rightarrow> False | Inr (remaining, _, _) \<Rightarrow> remaining \<noteq> {})"

definition scan_step :: "(node, node list) fmap \<Rightarrow> scan_state \<Rightarrow> scan_state" where
  "scan_step m s =
     bind_res s (\<lambda>(remaining, exited, stack).
       scan_cycles_from m [Min remaining] remaining exited stack)"

text \<open>The \<open>while let Some(&node) = remaining.iter().next()\<close> loop.\<close>

definition scan_cycles :: "(node, node list) fmap \<Rightarrow> scan_state option" where
  "scan_cycles m = while_option scan_unfinished (scan_step m) (Inr (fmdom' m, {}, []))"

subsection \<open>The initial planner\<close>

definition inc_dependency :: "sched_order \<Rightarrow> (node, nat) fmap \<Rightarrow> (node, nat) fmap res" where
  "inc_dependency ord m =
     bind_res (expect InvalidNodeIndex (fmlookup m (after ord)))
       (\<lambda>c. Inr (fmupd (after ord) (c + 1) m))"

definition dependency_counts :: "node list \<Rightarrow> sched_order list \<Rightarrow> (node, nat) fmap res" where
  "dependency_counts nodes orders =
     fold_res inc_dependency orders (fmap_of_list (map (\<lambda>n. (n, 0)) nodes))"

text \<open>One dependent of a popped partition: its count goes down by \<open>checked_sub(1)\<close>, and a
  dependent partition is pushed whatever its count is then.\<close>

definition trim_dependent ::
    "node \<Rightarrow> (node, nat) fmap \<times> nat list \<Rightarrow> ((node, nat) fmap \<times> nat list) res" where
  "trim_dependent d s =
     (case s of (counts, pars) \<Rightarrow>
        bind_res (expect InvalidNodeIndex (fmlookup counts d)) (\<lambda>c.
          if c = 0 then Inl ZeroDependencyCount
          else Inr (fmupd d (c - 1) counts,
                    case d of Partition i \<Rightarrow> pars @ [i] | _ \<Rightarrow> pars)))"

lemma trim_dependent_eq_Inr:
  "trim_dependent d (c, p) = Inr s \<longleftrightarrow>
     (\<exists>v. fmlookup c d = Some v \<and> v \<noteq> 0 \<and>
        s = (fmupd d (v - 1) c, case d of Partition i \<Rightarrow> p @ [i] | _ \<Rightarrow> p))"
  by (auto simp: trim_dependent_def)

lemma trim_dependent_fold_weight:
  assumes "fold_res trim_dependent ds (c, p) = Inr (c', p')"
  shows "fmap_weight (\<lambda>v. v) c' + length ds = fmap_weight (\<lambda>v. v) c \<and> length p' \<le> length p + length ds"
  using assms
proof (induction ds arbitrary: c p)
  case (Cons d ds)
  from Cons.prems obtain v where v: "fmlookup c d = Some v" "v \<noteq> 0"
    and r: "fold_res trim_dependent ds
      (fmupd d (v - 1) c, case d of Partition i \<Rightarrow> p @ [i] | _ \<Rightarrow> p) = Inr (c', p')"
    by (auto simp: trim_dependent_eq_Inr)
  have "fmap_weight (\<lambda>v. v) (fmupd d (v - 1) c) + 1 = fmap_weight (\<lambda>v. v) c"
    using fmap_weight_upd [OF v(1), of "\<lambda>v. v" "v - 1"] v(2) by simp
  moreover have "length (case d of Partition i \<Rightarrow> p @ [i] | _ \<Rightarrow> p) \<le> Suc (length p)"
    by (cases d) auto
  ultimately show ?case using Cons.IH [OF r] by auto
qed simp

text \<open>The \<open>while let Some(par) = depless_pars.pop()\<close> loop; the last element is popped.\<close>

function trim_depless ::
    "(node, node list) fmap \<Rightarrow> (node, nat) fmap \<Rightarrow> nat list \<Rightarrow> ((node, nat) fmap \<times> nat list) res" where
  "trim_depless deps counts pars =
     (if pars = [] then Inr (counts, pars)
      else bind_res (expect InvalidNodeIndex (fmlookup deps (Partition (last pars)))) (\<lambda>ds.
             bind_res (fold_res trim_dependent ds (counts, butlast pars)) (\<lambda>(counts', pars').
               trim_depless deps counts' pars')))"
  by pat_completeness auto

termination
proof (relation "measures [\<lambda>(_, counts, _). fmap_weight (\<lambda>v. v) counts, \<lambda>(_, _, pars). length pars]",
    goal_cases)
  case (2 deps counts pars ds r counts' pars')
  then have r: "fold_res trim_dependent ds (counts, butlast pars) = Inr (counts', pars')" by simp
  show ?case
  proof (cases ds)
    case Nil
    with r have "counts' = counts" and "pars' = butlast pars" by auto
    with 2(1) show ?thesis by simp
  next
    case (Cons d ds')
    with trim_dependent_fold_weight [OF r] show ?thesis by auto
  qed
qed simp

declare trim_depless.simps [simp del]

definition initial_wakeup :: "node \<Rightarrow> nat \<Rightarrow> wakeup" where
  "initial_wakeup n c =
     (if 1 \<le> c then Blocked c else if is_system n then Pending else Completed)"

definition zero_partition :: "(node, nat) fmap \<Rightarrow> node \<Rightarrow> nat option" where
  "zero_partition counts n =
     (case n of Partition i \<Rightarrow> if fmlookup counts n = Some 0 then Some i else None | _ \<Rightarrow> None)"

definition zero_send :: "(node, nat) fmap \<Rightarrow> node \<Rightarrow> nat option" where
  "zero_send counts n =
     (case n of SendSystem i \<Rightarrow> if fmlookup counts n = Some 0 then Some i else None | _ \<Rightarrow> None)"

definition zero_unsend :: "(node, nat) fmap \<Rightarrow> node \<Rightarrow> nat option" where
  "zero_unsend counts n =
     (case n of UnsendSystem i \<Rightarrow> if fmlookup counts n = Some 0 then Some i else None | _ \<Rightarrow> None)"

definition build_initials ::
    "node hash_order \<Rightarrow> node list \<Rightarrow> sched_order list \<Rightarrow> (node, node list) fmap
      \<Rightarrow> (planner \<times> nat list) res" where
  "build_initials ho nodes orders deps =
     bind_res (dependency_counts nodes orders) (\<lambda>counts.
     bind_res (trim_depless deps counts (List.map_filter (zero_partition counts) (ho nodes)))
       (\<lambda>(counts', depless).
          Inr (\<lparr>wakeup_state = fmmap_keys initial_wakeup counts',
                send_runnable = set (List.map_filter (zero_send counts') nodes),
                unsend_runnable = set (List.map_filter (zero_unsend counts') nodes),
                remaining_systems = length (filter is_system nodes)\<rparr>,
               depless)))"

subsection \<open>Exclusions\<close>

definition excl_insert ::
    "(node \<times> resource_access list) \<times> (node \<times> resource_access list)
      \<Rightarrow> (node, node set) fmap \<Rightarrow> (node, node set) fmap res" where
  "excl_insert e m =
     (case e of ((node1, accesses1), (node2, accesses2)) \<Rightarrow>
        if node1 = node2 then Inr m
        else if \<exists>a \<in> set accesses1. \<exists>b \<in> set accesses2. conflicts a b
          then bind_res (expect InvalidNodeIndex (fmlookup m node1))
                 (\<lambda>S. Inr (fmupd node1 (insert node2 S) m))
          else Inr m)"

definition build_exclusions ::
    "node hash_order \<Rightarrow> node list \<Rightarrow> 't resources \<Rightarrow> (node, node list) fmap res" where
  "build_exclusions ho nodes resources =
     bind_res
       (fold_res (\<lambda>(_, users). fold_res (\<lambda>e1. fold_res (\<lambda>e2. excl_insert (e1, e2)) users) users)
          resources (fmap_of_list (map (\<lambda>n. (n, {})) nodes)))
       (\<lambda>m. Inr (fmmap (\<lambda>S. ho (sorted_list_of_set S)) m))"

text \<open>
  \<open>Topology::init\<close>; \<open>None\<close> would be a cycle scan that does not end. The partition values are
  filled in by the builder afterwards, as in the code.
\<close>

definition topology_init ::
    "node hash_order \<Rightarrow> nat \<Rightarrow> nat \<Rightarrow> nat \<Rightarrow> sched_order list \<Rightarrow> 't resources
      \<Rightarrow> 'p topology res option" where
  "topology_init ho ns nu np orders resources =
     (let nodes = nodes_iter ns nu np in
      case build_dependents_map nodes orders of
        Inl e \<Rightarrow> Some (Inl e)
      | Inr deps \<Rightarrow>
          map_option (\<lambda>scan. bind_res scan (\<lambda>_.
            bind_res (build_initials ho nodes orders deps) (\<lambda>(pl, depless).
            bind_res (build_exclusions ho nodes resources) (\<lambda>ex.
              Inr \<lparr>dependents = deps, initial_planner = pl, depless_pars = depless,
                   partitions = [], exclusions = ex\<rparr>))))
            (scan_cycles deps))"

definition dependents_of :: "'p topology \<Rightarrow> node \<Rightarrow> node list res" where
  "dependents_of t n = expect InvalidNodeIndex (fmlookup (dependents t) n)"

definition exclusions_of :: "'p topology \<Rightarrow> node \<Rightarrow> node list res" where
  "exclusions_of t n = expect InvalidNodeIndex (fmlookup (exclusions t) n)"

subsection \<open>Correctness of the cycle scan\<close>

definition edges :: "(node, node list) fmap \<Rightarrow> (node \<times> node) set" where
  "edges m = {(a, b). \<exists>ds. fmlookup m a = Some ds \<and> b \<in> set ds}"

definition closed_map :: "(node, node list) fmap \<Rightarrow> bool" where
  "closed_map m \<longleftrightarrow> (\<forall>a b. (a, b) \<in> edges m \<longrightarrow> b \<in> fmdom' m)"

definition cycle_path :: "(node, node list) fmap \<Rightarrow> node list \<Rightarrow> bool" where
  "cycle_path m p \<longleftrightarrow>
     2 \<le> length p \<and> hd p = last p \<and> successively (\<lambda>a b. (a, b) \<in> edges m) p"

text \<open>
  The invariant of the scan: \<open>remaining\<close>, \<open>exited\<close> and the stack partition the nodes, the stack
  is a path, and the exited nodes are closed under edges and free of cycles.
\<close>

definition scan_inv ::
    "(node, node list) fmap \<Rightarrow> node set \<Rightarrow> node set \<Rightarrow> node list \<Rightarrow> bool" where
  "scan_inv m rem ex st \<longleftrightarrow>
     rem \<union> ex \<union> set st = fmdom' m \<and> rem \<inter> ex = {} \<and> rem \<inter> set st = {} \<and> ex \<inter> set st = {} \<and>
     distinct st \<and> successively (\<lambda>a b. (a, b) \<in> edges m) st \<and>
     edges m `` ex \<subseteq> ex \<and> acyclic (edges m \<inter> ex \<times> ex)"

lemma acyclic_add_source:
  assumes "acyclic r" and "r \<subseteq> A \<times> A" and "x \<notin> A"
  shows "acyclic (r \<union> {x} \<times> A)"
proof (rule acyclicI, rule allI, rule notI)
  fix a
  assume cyc: "(a, a) \<in> (r \<union> {x} \<times> A)\<^sup>+"
  have step: "b \<in> A \<and> (a \<in> A \<longrightarrow> (a, b) \<in> r\<^sup>+)" if "(a, b) \<in> (r \<union> {x} \<times> A)\<^sup>+" for b
    using that
  proof (induction rule: trancl_induct)
    case (base b)
    with assms show ?case by auto
  next
    case (step b c)
    with assms(2,3) have "(b, c) \<in> r" by auto
    with step assms(2) show ?case by (auto intro: trancl_into_trancl)
  qed
  from step [OF cyc] have "(a, a) \<in> r\<^sup>+" by simp
  with assms(1) show False by (simp add: acyclic_def)
qed

lemma scan_inv_push:
  assumes "scan_inv m rem ex st" and "x \<in> rem" and "st \<noteq> [] \<Longrightarrow> (last st, x) \<in> edges m"
  shows "scan_inv m (rem - {x}) ex (st @ [x])"
  using assms by (auto simp: scan_inv_def successively_append_iff)

lemma scan_inv_pop:
  assumes "scan_inv m rem ex (st @ [x])" and "edges m `` {x} \<subseteq> ex"
  shows "scan_inv m rem (insert x ex) st"
proof -
  from assms(1) have x: "x \<notin> ex" and closed: "edges m `` ex \<subseteq> ex"
    and ac: "acyclic (edges m \<inter> ex \<times> ex)" by (auto simp: scan_inv_def)
  have "edges m \<inter> insert x ex \<times> insert x ex \<subseteq> (edges m \<inter> ex \<times> ex) \<union> {x} \<times> ex"
    using closed x assms(2) by auto
  moreover have "acyclic ((edges m \<inter> ex \<times> ex) \<union> {x} \<times> ex)"
    by (rule acyclic_add_source [OF ac _ x]) auto
  ultimately have "acyclic (edges m \<inter> insert x ex \<times> insert x ex)"
    by (rule acyclic_subset [rotated])
  with assms show ?thesis by (auto simp: scan_inv_def successively_append_iff)
qed

lemma stack_cycle:
  assumes "successively (\<lambda>a b. (a, b) \<in> edges m) st" and "x \<in> set st"
    and "(last st, x) \<in> edges m"
  shows "cycle_path m (dropWhile (\<lambda>a. a \<noteq> x) st @ [x])"
proof -
  let ?d = "dropWhile (\<lambda>a. a \<noteq> x) st"
  from assms(2) have ne: "?d \<noteq> []" by (auto simp: dropWhile_eq_Nil_conv)
  then have hd: "hd ?d = x" using hd_dropWhile [of "\<lambda>a. a \<noteq> x" st] by simp
  have "successively (\<lambda>a b. (a, b) \<in> edges m) (takeWhile (\<lambda>a. a \<noteq> x) st @ ?d)"
    using assms(1) by simp
  then have "successively (\<lambda>a b. (a, b) \<in> edges m) ?d"
    by (simp only: successively_append_iff)
  moreover have "last ?d = last st"
    by (metis ne last_appendR takeWhile_dropWhile_id)
  ultimately have "successively (\<lambda>a b. (a, b) \<in> edges m) (?d @ [x])"
    using assms(3) by (simp add: successively_append_iff)
  moreover have "2 \<le> length (?d @ [x])" using ne by (cases ?d) auto
  moreover have "hd (?d @ [x]) = last (?d @ [x])" using ne hd by simp
  ultimately show ?thesis unfolding cycle_path_def by blast
qed

definition scan_post ::
    "(node, node list) fmap \<Rightarrow> node list \<Rightarrow> node set \<Rightarrow> node set \<Rightarrow> node list \<Rightarrow> scan_state \<Rightarrow> bool" where
  "scan_post m xs rem ex st r =
     (case r of
        Inl e \<Rightarrow> (\<exists>p. e = CyclicDependency p \<and> cycle_path m p)
      | Inr (rem', ex', st') \<Rightarrow>
          st' = st \<and> scan_inv m rem' ex' st \<and> ex \<subseteq> ex' \<and> set xs \<subseteq> ex' \<and> rem' \<subseteq> rem)"

lemma scan_cycles_from_correct:
  assumes "closed_map m" and "scan_inv m rem ex st" and "set xs \<subseteq> fmdom' m"
    and "\<And>x. st \<noteq> [] \<Longrightarrow> x \<in> set xs \<Longrightarrow> (last st, x) \<in> edges m"
  shows "scan_post m xs rem ex st (scan_cycles_from m xs rem ex st)"
  using assms
proof (induction m xs rem ex st rule: scan_cycles_from.induct)
  case (1 m rem ex st)
  then show ?case by (simp add: scan_post_def)
next
  case (2 m x xs rem ex st)
  consider (black) "x \<in> ex" | (grey) "x \<notin> ex" "x \<notin> rem" | (white) "x \<notin> ex" "x \<in> rem" by blast
  then show ?case
  proof cases
    case black
    with 2 show ?thesis by (fastforce simp: scan_post_def split: sum.splits)
  next
    case grey
    with "2.prems" have x: "x \<in> set st" by (auto simp: scan_inv_def)
    then have "st \<noteq> []" by auto
    then have "(last st, x) \<in> edges m" using "2.prems"(4) by simp
    moreover have "successively (\<lambda>a b. (a, b) \<in> edges m) st"
      using "2.prems"(2) by (simp add: scan_inv_def)
    ultimately have "cycle_path m (dropWhile (\<lambda>a. a \<noteq> x) st @ [x])"
      using x by (intro stack_cycle)
    with grey show ?thesis by (simp add: scan_post_def)
  next
    case white
    from "2.prems"(3) have "x \<in> fmdom' m" by simp
    then obtain ds where ds: "fmlookup m x = Some ds" by (auto simp: fmlookup_dom'_iff)
    then have e: "edges m `` {x} = set ds" by (auto simp: edges_def)
    let ?r = "scan_cycles_from m ds (rem - {x}) ex (st @ [x])"
    have push: "scan_inv m (rem - {x}) ex (st @ [x])"
      using "2.prems" white by (intro scan_inv_push) auto
    have sub: "set ds \<subseteq> fmdom' m" using "2.prems"(1) e by (auto simp: closed_map_def)
    have step: "\<And>y. y \<in> set ds \<Longrightarrow> (last (st @ [x]), y) \<in> edges m" using e by auto
    have post: "scan_post m ds (rem - {x}) ex (st @ [x]) ?r"
      by (rule "2.IH"(2)) (use "2.prems"(1) white ds push sub step in auto)
    show ?thesis
    proof (cases ?r)
      case (Inl p)
      with post white ds show ?thesis by (simp add: scan_post_def)
    next
      case (Inr t)
      obtain rem' ex' st' where t: "t = (rem', ex', st')" by (cases t)
      with post Inr have st': "st' = st @ [x]" and inv': "scan_inv m rem' ex' (st @ [x])"
        and sub': "ex \<subseteq> ex'" "set ds \<subseteq> ex'" "rem' \<subseteq> rem - {x}" by (auto simp: scan_post_def)
      then have xex: "x \<notin> ex'" by (auto simp: scan_inv_def)
      have pop: "scan_inv m rem' (insert x ex') st"
        using scan_inv_pop [OF inv'] e sub' by simp
      have eq: "scan_cycles_from m (x # xs) rem ex st = scan_cycles_from m xs rem' (insert x ex') st"
        using white ds Inr t st' xex by simp
      have "scan_post m xs rem' (insert x ex') st (scan_cycles_from m xs rem' (insert x ex') st)"
        using "2.IH"(3) [of ds t rem' "(ex', st')" ex' st'] white ds Inr t st' xex pop "2.prems"
        by auto
      with eq sub' show ?thesis by (auto simp: scan_post_def split: sum.splits)
    qed
  qed
qed

lemma cycle_path_not_acyclic: "cycle_path m p \<Longrightarrow> \<not> acyclic (edges m)"
proof
  assume cyc: "cycle_path m p" and ac: "acyclic (edges m)"
  have path: "successively (\<lambda>a b. (a, b) \<in> edges m) (a # q) \<Longrightarrow> (a, last (a # q)) \<in> (edges m)\<^sup>*" for a q
  proof (induction q arbitrary: a)
    case (Cons b q)
    then show ?case by (auto intro: converse_rtrancl_into_rtrancl)
  qed simp
  from cyc obtain a b q where p: "p = a # b # q"
    by (cases p rule: remdups_adj.cases) (auto simp: cycle_path_def)
  with cyc have "(a, b) \<in> edges m" and "(b, a) \<in> (edges m)\<^sup>*"
    using path [of b q] by (auto simp: cycle_path_def)
  then have "(a, a) \<in> (edges m)\<^sup>+" by (rule rtrancl_into_trancl2)
  with ac show False by (simp add: acyclic_def)
qed

definition scan_loop_inv :: "(node, node list) fmap \<Rightarrow> scan_state \<Rightarrow> bool" where
  "scan_loop_inv m s =
     (case s of
        Inl e \<Rightarrow> (\<exists>p. e = CyclicDependency p \<and> cycle_path m p)
      | Inr (rem, ex, st) \<Rightarrow> st = [] \<and> scan_inv m rem ex [])"

definition scan_measure :: "scan_state \<Rightarrow> nat" where
  "scan_measure s = (case s of Inl _ \<Rightarrow> 0 | Inr (rem, ex, st) \<Rightarrow> card rem)"

lemma scan_step_progress:
  assumes "closed_map m" and "scan_loop_inv m s" and "scan_unfinished s"
  shows "scan_loop_inv m (scan_step m s) \<and> scan_measure (scan_step m s) < scan_measure s"
proof -
  from assms(2,3) obtain rem ex where s: "s = Inr (rem, ex, [])" and inv: "scan_inv m rem ex []"
    and ne: "rem \<noteq> {}"
    by (auto simp: scan_loop_inv_def scan_unfinished_def split: sum.splits prod.splits)
  from inv have fin: "finite rem" and sub: "rem \<subseteq> fmdom' m"
    by (auto simp: scan_inv_def intro: finite_subset [OF _ finite_fmdom'])
  let ?x = "Min rem"
  have x: "?x \<in> rem" using fin ne by simp
  have post: "scan_post m [?x] rem ex [] (scan_cycles_from m [?x] rem ex [])"
    by (rule scan_cycles_from_correct [OF assms(1) inv]) (use x sub in auto)
  show ?thesis
  proof (cases "scan_cycles_from m [?x] rem ex []")
    case (Inl e)
    moreover have "0 < card rem" using fin ne by (simp add: card_gt_0_iff)
    ultimately show ?thesis using post s
      by (simp add: scan_step_def scan_loop_inv_def scan_measure_def scan_post_def)
  next
    case (Inr t)
    obtain rem' ex' st' where t: "t = (rem', ex', st')" by (cases t)
    with post Inr have *: "st' = []" "scan_inv m rem' ex' []" "?x \<in> ex'" "rem' \<subseteq> rem"
      by (auto simp: scan_post_def)
    then have "?x \<notin> rem'" by (auto simp: scan_inv_def)
    with * x have "rem' \<subset> rem" by auto
    then have "card rem' < card rem" using fin by (rule psubset_card_mono [rotated])
    with s Inr t * show ?thesis
      by (simp add: scan_step_def scan_loop_inv_def scan_measure_def)
  qed
qed

text \<open>The scan ends, and its outcome decides whether the dependencies have a cycle.\<close>

lemma scan_cycles_outcome:
  assumes "closed_map m"
  shows "(acyclic (edges m) \<and> (\<exists>s. scan_cycles m = Some (Inr s))) \<or>
    (\<exists>p. scan_cycles m = Some (Inl (CyclicDependency p)) \<and> cycle_path m p)"
proof -
  have init: "scan_loop_inv m (Inr (fmdom' m, {}, []))"
    by (simp add: scan_loop_inv_def scan_inv_def acyclic_def)
  have "\<exists>t. scan_cycles m = Some t"
    unfolding scan_cycles_def
    by (rule measure_while_option_Some [where P = "scan_loop_inv m" and f = scan_measure])
      (use scan_step_progress [OF assms] init in auto)
  then obtain t where t: "scan_cycles m = Some t" by blast
  have inv: "scan_loop_inv m t"
    using scan_step_progress [OF assms] init t unfolding scan_cycles_def
    by (intro while_option_rule [where P = "scan_loop_inv m" and t = t]) auto
  have stop: "\<not> scan_unfinished t"
    using t unfolding scan_cycles_def by (rule while_option_stop)
  show ?thesis
  proof (cases t)
    case (Inl e)
    with inv t show ?thesis by (auto simp: scan_loop_inv_def)
  next
    case (Inr r)
    with inv stop obtain ex where r: "r = ({}, ex, [])" and i: "scan_inv m {} ex []"
      by (cases r) (auto simp: scan_loop_inv_def scan_unfinished_def)
    from i have "ex = fmdom' m" and "acyclic (edges m \<inter> ex \<times> ex)" by (auto simp: scan_inv_def)
    moreover have "edges m \<subseteq> fmdom' m \<times> fmdom' m"
      using assms by (auto simp: closed_map_def edges_def intro: fmdom'I)
    ultimately have "acyclic (edges m)" by (simp add: Int_absorb2)
    with t Inr show ?thesis by blast
  qed
qed

subsection \<open>The dependents map and the dependency counts\<close>

definition succs :: "(node, node list) fmap \<Rightarrow> node \<Rightarrow> node list" where
  "succs m n = (case fmlookup m n of None \<Rightarrow> [] | Some ds \<Rightarrow> ds)"

definition out_list :: "sched_order list \<Rightarrow> node \<Rightarrow> node list" where
  "out_list orders n = map after (filter (\<lambda>ord. before ord = n) orders)"

definition in_degree :: "sched_order list \<Rightarrow> node \<Rightarrow> nat" where
  "in_degree orders n = length (filter (\<lambda>ord. after ord = n) orders)"

text \<open>Orders as the builder makes them: between known nodes, one a system and one a partition.\<close>

definition valid_orders :: "node list \<Rightarrow> sched_order list \<Rightarrow> bool" where
  "valid_orders nodes orders \<longleftrightarrow>
     (\<forall>ord \<in> set orders. before ord \<in> set nodes \<and> after ord \<in> set nodes \<and>
        is_system (before ord) \<noteq> is_system (after ord))"

lemma succs_fmupd [simp]: "succs (fmupd k v m) n = (if n = k then v else succs m n)"
  by (simp add: succs_def)

lemma succs_dom: "m \<in> set (succs f n) \<Longrightarrow> n \<in> fmdom' f"
  by (cases "fmlookup f n") (auto simp: succs_def intro: fmdom'I)

lemma edges_succs: "edges m = {(a, b). b \<in> set (succs m a)}"
proof (rule set_eqI, clarify)
  fix a b
  show "(a, b) \<in> edges m \<longleftrightarrow> (a, b) \<in> {(a, b). b \<in> set (succs m a)}"
    by (cases "fmlookup m a") (auto simp: edges_def succs_def)
qed

lemma push_dependent_fold:
  assumes "\<forall>ord \<in> set orders. before ord \<in> fmdom' m"
  shows "\<exists>m'. fold_res push_dependent orders m = Inr m' \<and> fmdom' m' = fmdom' m \<and>
    (\<forall>n. succs m' n = succs m n @ out_list orders n)"
  using assms
proof (induction orders arbitrary: m)
  case Nil
  then show ?case by (simp add: out_list_def)
next
  case (Cons ord orders)
  then obtain v where v: "fmlookup m (before ord) = Some v" by (auto simp: fmlookup_dom'_iff)
  let ?m = "fmupd (before ord) (v @ [after ord]) m"
  have dom: "fmdom' ?m = fmdom' m" using v by (auto intro: fmdom'I)
  with Cons.prems have "\<forall>ord \<in> set orders. before ord \<in> fmdom' ?m" by simp
  then obtain m' where m': "fold_res push_dependent orders ?m = Inr m'" "fmdom' m' = fmdom' m"
    "\<forall>n. succs m' n = succs ?m n @ out_list orders n"
    using Cons.IH [of ?m] unfolding dom by blast
  have step: "push_dependent ord m = Inr ?m" by (simp add: push_dependent_def v)
  have s: "succs m' n = succs m n @ out_list (ord # orders) n" for n
    using m'(3) v by (auto simp: out_list_def succs_def)
  show ?case by (intro exI [of _ m']) (simp add: step m'(1,2) s)
qed

lemma build_dependents_map_ok:
  assumes "\<forall>ord \<in> set orders. before ord \<in> set nodes"
  shows "\<exists>m. build_dependents_map nodes orders = Inr m \<and> fmdom' m = set nodes \<and>
    succs m = out_list orders"
proof -
  let ?m0 = "fmap_of_list (map (\<lambda>n. (n, [])) nodes) :: (node, node list) fmap"
  have dom: "fmdom' ?m0 = set nodes" by (simp add: fmdom'_alt_def fset_of_list.rep_eq o_def)
  have nil: "succs ?m0 n = []" for n
    by (auto simp: succs_def fmlookup_of_list map_of_map_restrict restrict_map_def)
  from push_dependent_fold [of orders ?m0] assms show ?thesis
    unfolding build_dependents_map_def dom nil by (auto simp: fun_eq_iff)
qed

lemma inc_dependency_fold:
  assumes "\<forall>ord \<in> set orders. after ord \<in> fmdom' c"
  shows "\<exists>c'. fold_res inc_dependency orders c = Inr c' \<and>
    (\<forall>n. fmlookup c' n = map_option (\<lambda>v. v + in_degree orders n) (fmlookup c n))"
  using assms
proof (induction orders arbitrary: c)
  case Nil
  then show ?case by (simp add: in_degree_def option.map_ident)
next
  case (Cons ord orders)
  then obtain v where v: "fmlookup c (after ord) = Some v" by (auto simp: fmlookup_dom'_iff)
  let ?c = "fmupd (after ord) (v + 1) c"
  have step: "inc_dependency ord c = Inr ?c" by (simp add: inc_dependency_def v)
  have "\<forall>ord \<in> set orders. after ord \<in> fmdom' ?c" using Cons.prems by auto
  with Cons.IH obtain c' where c': "fold_res inc_dependency orders ?c = Inr c'"
    "\<forall>n. fmlookup c' n = map_option (\<lambda>v. v + in_degree orders n) (fmlookup ?c n)" by blast
  then show ?case
    by (intro exI [of _ c'])
      (auto simp: step v in_degree_def option.map_comp o_def split: option.splits)
qed

lemma dependency_counts_ok:
  assumes "\<forall>ord \<in> set orders. after ord \<in> set nodes"
  shows "\<exists>c. dependency_counts nodes orders = Inr c \<and>
    (\<forall>n. fmlookup c n = (if n \<in> set nodes then Some (in_degree orders n) else None))"
proof -
  let ?c0 = "fmap_of_list (map (\<lambda>n. (n, 0)) nodes) :: (node, nat) fmap"
  have dom: "fmdom' ?c0 = set nodes" by (simp add: fmdom'_alt_def fset_of_list.rep_eq o_def)
  have zero: "fmlookup ?c0 n = (if n \<in> set nodes then Some 0 else None)" for n
    by (auto simp: fmlookup_of_list map_of_map_restrict)
  from inc_dependency_fold [of orders ?c0] assms show ?thesis
    unfolding dependency_counts_def dom zero by fastforce
qed

lemma in_degree_sum:
  assumes "finite A" and "\<forall>ord \<in> set orders. before ord \<in> A"
  shows "in_degree orders n = (\<Sum>m \<in> A. count_list (out_list orders m) n)"
  using assms(2)
proof (induction orders)
  case Nil
  then show ?case by (simp add: in_degree_def out_list_def)
next
  case (Cons ord orders)
  have "(\<Sum>m \<in> A. count_list (out_list (ord # orders) m) n) =
        (\<Sum>m \<in> A. (if m = before ord then (if after ord = n then 1 else 0) else 0) +
           count_list (out_list orders m) n)"
    by (rule sum.cong) (auto simp: out_list_def)
  also have "\<dots> = (if after ord = n then 1 else 0) + in_degree orders n"
    using Cons assms(1) by (simp add: sum.distrib)
  finally show ?case by (simp add: in_degree_def)
qed

subsection \<open>Trimming the partitions without dependencies\<close>

lemma trim_depless_returns_empty: "trim_depless deps c p = Inr (c', p') \<Longrightarrow> p' = []"
proof (induction deps c p rule: trim_depless.induct)
  case (1 deps c p)
  from "1.prems" show ?case
    by (subst (asm) trim_depless.simps) (auto split: if_splits dest: "1.IH")
qed

lemma trim_dependent_fold:
  assumes "\<forall>d \<in> set ds. is_system d" and "\<forall>d \<in> set ds. d \<in> fmdom' c"
    and "\<forall>n v. fmlookup c n = Some v \<longrightarrow> count_list ds n \<le> v"
  shows "\<exists>c'. fold_res trim_dependent ds (c, p) = Inr (c', p) \<and>
    (\<forall>n. fmlookup c' n = map_option (\<lambda>v. v - count_list ds n) (fmlookup c n))"
  using assms
proof (induction ds arbitrary: c)
  case Nil
  then show ?case by (simp add: option.map_ident)
next
  case (Cons d ds)
  then obtain v where v: "fmlookup c d = Some v" by (auto simp: fmlookup_dom'_iff)
  with Cons.prems(3) have pos: "Suc (count_list ds d) \<le> v" by fastforce
  let ?c = "fmupd d (v - 1) c"
  have sys: "(case d of Partition i \<Rightarrow> p @ [i] | _ \<Rightarrow> p) = p"
    using Cons.prems(1) by (cases d) auto
  have step: "trim_dependent d (c, p) = Inr (?c, p)"
    using v pos sys by (simp add: trim_dependent_def)
  have "\<forall>n w. fmlookup ?c n = Some w \<longrightarrow> count_list ds n \<le> w"
    using Cons.prems(3) pos by (fastforce split: if_splits)
  moreover have "\<forall>d \<in> set ds. d \<in> fmdom' ?c" using Cons.prems(2) by auto
  ultimately obtain c' where c': "fold_res trim_dependent ds (?c, p) = Inr (c', p)"
    "\<forall>n. fmlookup c' n = map_option (\<lambda>v. v - count_list ds n) (fmlookup ?c n)"
    using Cons.IH [of ?c] Cons.prems(1) by auto
  then show ?case
    by (intro exI [of _ c']) (auto simp: step v split: option.splits)
qed

definition par_weight :: "(node, node list) fmap \<Rightarrow> nat list \<Rightarrow> node \<Rightarrow> nat" where
  "par_weight deps pars n = (\<Sum>p \<leftarrow> pars. count_list (succs deps (Partition p)) n)"

lemma trim_depless_ok:
  assumes "\<forall>p \<in> set pars. Partition p \<in> fmdom' deps"
    and "\<forall>p \<in> set pars. \<forall>d \<in> set (succs deps (Partition p)). is_system d \<and> d \<in> fmdom' c"
    and "\<forall>n v. fmlookup c n = Some v \<longrightarrow> par_weight deps pars n \<le> v"
  shows "\<exists>c'. trim_depless deps c pars = Inr (c', []) \<and>
    (\<forall>n. fmlookup c' n = map_option (\<lambda>v. v - par_weight deps pars n) (fmlookup c n))"
  using assms
proof (induction pars arbitrary: c rule: rev_induct)
  case Nil
  then show ?case by (simp add: trim_depless.simps par_weight_def option.map_ident)
next
  case (snoc p pars)
  obtain ds where ds: "fmlookup deps (Partition p) = Some ds"
    using snoc.prems(1) by (auto simp: fmlookup_dom'_iff)
  then have s: "succs deps (Partition p) = ds" by (simp add: succs_def)
  have w: "par_weight deps (pars @ [p]) n = par_weight deps pars n + count_list ds n" for n
    by (simp add: par_weight_def s)
  have le: "\<forall>n v. fmlookup c n = Some v \<longrightarrow> count_list ds n \<le> v"
    using snoc.prems(3) w by fastforce
  obtain c1 where c1: "fold_res trim_dependent ds (c, pars) = Inr (c1, pars)"
    and l1: "\<And>n. fmlookup c1 n = map_option (\<lambda>v. v - count_list ds n) (fmlookup c n)"
    using trim_dependent_fold [of ds c pars] snoc.prems(2) s le by auto
  have dom: "fmdom' c1 = fmdom' c" using l1 by (auto simp: fmlookup_dom'_iff)
  have "\<forall>n v. fmlookup c1 n = Some v \<longrightarrow> par_weight deps pars n \<le> v"
    using snoc.prems(3) l1 w by fastforce
  with snoc.IH [of c1] snoc.prems(1,2) dom obtain c' where
    c': "trim_depless deps c1 pars = Inr (c', [])"
    "\<forall>n. fmlookup c' n = map_option (\<lambda>v. v - par_weight deps pars n) (fmlookup c1 n)" by auto
  have "trim_depless deps c (pars @ [p]) = Inr (c', [])"
    using ds c1 c'(1) by (subst trim_depless.simps) simp
  with c'(2) show ?case
    by (intro exI [of _ c']) (auto simp: l1 w option.map_comp o_def add.commute)
qed

lemma zero_partition_eq [simp]:
  "zero_partition c n = Some i \<longleftrightarrow> n = Partition i \<and> fmlookup c (Partition i) = Some 0"
  by (auto simp: zero_partition_def split: node.splits)

lemma zero_send_eq [simp]:
  "zero_send c n = Some i \<longleftrightarrow> n = SendSystem i \<and> fmlookup c (SendSystem i) = Some 0"
  by (auto simp: zero_send_def split: node.splits)

lemma zero_unsend_eq [simp]:
  "zero_unsend c n = Some i \<longleftrightarrow> n = UnsendSystem i \<and> fmlookup c (UnsendSystem i) = Some 0"
  by (auto simp: zero_unsend_def split: node.splits)

lemma distinct_zero_partition:
  "distinct xs \<Longrightarrow> distinct (List.map_filter (zero_partition c) xs)"
  by (induction xs) (auto simp: map_filter_simps set_map_filter split: option.splits)

lemma zero_partition_list:
  assumes "hash_order_ok ho" and "distinct nodes"
  shows "distinct (List.map_filter (zero_partition c) (ho nodes))"
    and "set (List.map_filter (zero_partition c) (ho nodes)) =
      {i. Partition i \<in> set nodes \<and> fmlookup c (Partition i) = Some 0}"
  using assms by (auto simp: set_map_filter intro: distinct_zero_partition)

lemma set_zero_send:
  "set (List.map_filter (zero_send c) nodes) =
     {i. SendSystem i \<in> set nodes \<and> fmlookup c (SendSystem i) = Some 0}"
  by (auto simp: set_map_filter)

lemma set_zero_unsend:
  "set (List.map_filter (zero_unsend c) nodes) =
     {i. UnsendSystem i \<in> set nodes \<and> fmlookup c (UnsendSystem i) = Some 0}"
  by (auto simp: set_map_filter)

text \<open>
  The number of unfinished dependencies a node starts with: every order into it counts, except
  those from the partitions that start out completed.
\<close>

definition depless :: "node list \<Rightarrow> sched_order list \<Rightarrow> node set" where
  "depless nodes orders = {n \<in> set nodes. \<not> is_system n \<and> in_degree orders n = 0}"

definition initial_count :: "node list \<Rightarrow> sched_order list \<Rightarrow> node \<Rightarrow> nat" where
  "initial_count nodes orders n =
     (\<Sum>m \<in> set nodes - depless nodes orders. count_list (out_list orders m) n)"

lemma depless_split:
  assumes "valid_orders nodes orders"
  shows "in_degree orders n =
    initial_count nodes orders n + (\<Sum>m \<in> depless nodes orders. count_list (out_list orders m) n)"
proof -
  have "in_degree orders n = (\<Sum>m \<in> set nodes. count_list (out_list orders m) n)"
    using assms by (intro in_degree_sum) (auto simp: valid_orders_def)
  also have "\<dots> = initial_count nodes orders n + (\<Sum>m \<in> depless nodes orders. count_list (out_list orders m) n)"
    unfolding initial_count_def by (rule sum.subset_diff) (auto simp: depless_def)
  finally show ?thesis .
qed

lemma par_weight_depless:
  assumes "distinct pars" and "Partition ` set pars = depless nodes orders"
    and "succs deps = out_list orders"
  shows "par_weight deps pars n = (\<Sum>m \<in> depless nodes orders. count_list (out_list orders m) n)"
proof -
  have inj: "inj_on Partition (set pars)" by (simp add: inj_on_def)
  show ?thesis
    unfolding par_weight_def assms(2) [symmetric] sum.reindex [OF inj]
    using assms(1,3) by (simp add: sum_list_distinct_conv_sum_set o_def)
qed

lemma build_initials_ok:
  assumes "valid_orders nodes orders" and "distinct nodes" and "hash_order_ok ho"
    and deps: "fmdom' deps = set nodes" "succs deps = out_list orders"
  shows "\<exists>pl. build_initials ho nodes orders deps = Inr (pl, []) \<and>
    (\<forall>n. fmlookup (wakeup_state pl) n =
       (if n \<in> set nodes then Some (initial_wakeup n (initial_count nodes orders n)) else None)) \<and>
    send_runnable pl = {i. SendSystem i \<in> set nodes \<and> initial_count nodes orders (SendSystem i) = 0} \<and>
    unsend_runnable pl = {i. UnsendSystem i \<in> set nodes \<and> initial_count nodes orders (UnsendSystem i) = 0} \<and>
    remaining_systems pl = length (filter is_system nodes)"
proof -
  obtain c where c: "dependency_counts nodes orders = Inr c"
    and lk: "\<And>n. fmlookup c n = (if n \<in> set nodes then Some (in_degree orders n) else None)"
    using dependency_counts_ok [of orders nodes] assms(1) by (auto simp: valid_orders_def)
  define pars where "pars = List.map_filter (zero_partition c) (ho nodes)"
  have pars: "distinct pars" "set pars = {i. Partition i \<in> set nodes \<and> in_degree orders (Partition i) = 0}"
    using zero_partition_list [OF assms(3,2), of c] lk by (auto simp: pars_def)
  have img: "Partition ` set pars = depless nodes orders"
  proof (rule set_eqI)
    fix n
    show "n \<in> Partition ` set pars \<longleftrightarrow> n \<in> depless nodes orders"
      using pars(2) by (cases n) (auto simp: depless_def)
  qed
  note pw = par_weight_depless [OF pars(1) img deps(2)]
  have split: "in_degree orders n = initial_count nodes orders n + par_weight deps pars n" for n
    using depless_split [OF assms(1)] pw by simp
  have dom: "d \<in> fmdom' c \<longleftrightarrow> d \<in> set nodes" for d by (simp add: fmlookup_dom'_iff lk)
  obtain c' where c': "trim_depless deps c pars = Inr (c', [])"
    "\<And>n. fmlookup c' n = map_option (\<lambda>v. v - par_weight deps pars n) (fmlookup c n)"
  proof -
    have 1: "\<forall>p \<in> set pars. Partition p \<in> fmdom' deps" using deps(1) pars(2) by auto
    have 2: "\<forall>p \<in> set pars. \<forall>d \<in> set (succs deps (Partition p)). is_system d \<and> d \<in> fmdom' c"
      using assms(1) by (fastforce simp: deps(2) out_list_def valid_orders_def dom)
    have 3: "\<forall>n v. fmlookup c n = Some v \<longrightarrow> par_weight deps pars n \<le> v"
      using split lk by auto
    from trim_depless_ok [OF 1 2 3] that show thesis by blast
  qed
  have lk': "fmlookup c' n = (if n \<in> set nodes then Some (initial_count nodes orders n) else None)" for n
    using c'(2) lk split by simp
  show ?thesis
    using c c'(1) pars_def
    by (intro exI [of _ "\<lparr>wakeup_state = fmmap_keys initial_wakeup c',
          send_runnable = set (List.map_filter (zero_send c') nodes),
          unsend_runnable = set (List.map_filter (zero_unsend c') nodes),
          remaining_systems = length (filter is_system nodes)\<rparr>"])
      (auto simp: build_initials_def set_zero_send set_zero_unsend lk')
qed

lemma build_initials_depless_pars:
  "build_initials ho nodes orders deps = Inr (pl, pars) \<Longrightarrow> pars = []"
  by (auto simp: build_initials_def dest: trim_depless_returns_empty)

text \<open>A partition starts out completed exactly when no order leads into it.\<close>

lemma initial_count_partition:
  assumes "valid_orders nodes orders" and "\<not> is_system n"
  shows "initial_count nodes orders n = in_degree orders n"
proof -
  have "count_list (out_list orders m) n = 0" if "m \<in> depless nodes orders" for m
    using that assms by (auto simp: depless_def out_list_def valid_orders_def count_list_0_iff)
  then have "(\<Sum>m \<in> depless nodes orders. count_list (out_list orders m) n) = 0"
    by (intro sum.neutral) blast
  with depless_split [OF assms(1), of n] show ?thesis by linarith
qed

subsection \<open>Exclusions are the conflicts\<close>

definition users_conflict :: "'t resources \<Rightarrow> node \<Rightarrow> node \<Rightarrow> bool" where
  "users_conflict resources n1 n2 \<longleftrightarrow>
     n1 \<noteq> n2 \<and>
     (\<exists>(ty, users) \<in> set resources. \<exists>as1 as2. (n1, as1) \<in> set users \<and> (n2, as2) \<in> set users \<and>
        (\<exists>a \<in> set as1. \<exists>b \<in> set as2. conflicts a b))"

definition resource_pairs ::
    "'t resources \<Rightarrow> ((node \<times> resource_access list) \<times> (node \<times> resource_access list)) list" where
  "resource_pairs resources = concat (map (\<lambda>(_, users). List.product users users) resources)"

definition pair_conflict ::
    "(node \<times> resource_access list) \<times> (node \<times> resource_access list) \<Rightarrow> node \<Rightarrow> node \<Rightarrow> bool" where
  "pair_conflict e n1 n2 \<longleftrightarrow>
     fst (fst e) = n1 \<and> fst (snd e) = n2 \<and> n1 \<noteq> n2 \<and>
     (\<exists>a \<in> set (snd (fst e)). \<exists>b \<in> set (snd (snd e)). conflicts a b)"

lemma users_conflict_sym: "users_conflict r a b \<longleftrightarrow> users_conflict r b a"
  unfolding users_conflict_def by (fastforce simp: conflicts_sym)

lemma users_conflict_pairs:
  "users_conflict r n1 n2 \<longleftrightarrow> (\<exists>e \<in> set (resource_pairs r). pair_conflict e n1 n2)"
  unfolding users_conflict_def resource_pairs_def pair_conflict_def by fastforce

lemma excl_insert_fold:
  assumes "\<forall>e \<in> set es. fst (fst e) \<in> fmdom' m"
  shows "\<exists>m'. fold_res excl_insert es m = Inr m' \<and>
    (\<forall>n. fmlookup m' n =
       map_option (\<lambda>S. S \<union> {n2. \<exists>e \<in> set es. pair_conflict e n n2}) (fmlookup m n))"
  using assms
proof (induction es arbitrary: m)
  case Nil
  then show ?case by (simp add: option.map_ident)
next
  case (Cons e es)
  obtain n1 as1 n2 as2 where e: "e = ((n1, as1), (n2, as2))" by (cases e) auto
  with Cons.prems obtain S where S: "fmlookup m n1 = Some S" by (auto simp: fmlookup_dom'_iff)
  define m1 where "m1 = (if pair_conflict e n1 n2 then fmupd n1 (insert n2 S) m else m)"
  have step: "excl_insert e m = Inr m1"
    by (auto simp: excl_insert_def e S m1_def pair_conflict_def)
  have "\<forall>e \<in> set es. fst (fst e) \<in> fmdom' m1" using Cons.prems by (auto simp: m1_def)
  with Cons.IH obtain m' where m': "fold_res excl_insert es m1 = Inr m'"
    "\<forall>n. fmlookup m' n = map_option (\<lambda>S. S \<union> {n2. \<exists>e \<in> set es. pair_conflict e n n2}) (fmlookup m1 n)"
    by blast
  have lk: "fmlookup m1 n = map_option (\<lambda>S. S \<union> {n2. pair_conflict e n n2}) (fmlookup m n)" for n
    using S by (auto simp: m1_def e pair_conflict_def option.map_ident split: option.splits)
  show ?case
    by (intro exI [of _ m'])
      (auto simp: step m' lk option.map_comp o_def Un_assoc Collect_disj_eq)
qed

lemma finite_pair_conflict: "finite {n2. \<exists>e \<in> set es. pair_conflict e n n2}"
  by (rule finite_subset [of _ "(\<lambda>e. fst (snd e)) ` set es"]) (auto simp: pair_conflict_def)

lemma build_exclusions_ok:
  assumes "\<forall>(ty, users) \<in> set resources. \<forall>(n, as) \<in> set users. n \<in> set nodes"
    and "hash_order_ok ho"
  shows "\<exists>ex. build_exclusions ho nodes resources = Inr ex \<and> fmdom' ex = set nodes \<and>
    (\<forall>n \<in> set nodes. set (succs ex n) = {n2. users_conflict resources n n2} \<and> distinct (succs ex n))"
proof -
  let ?m0 = "fmap_of_list (map (\<lambda>n. (n, {})) nodes) :: (node, node set) fmap"
  let ?C = "\<lambda>n. {n2. users_conflict resources n n2}"
  have nested: "fold_res (\<lambda>(_, users). fold_res (\<lambda>e1. fold_res (\<lambda>e2. excl_insert (e1, e2)) users) users)
      resources ?m0 = fold_res excl_insert (resource_pairs resources) ?m0"
    unfolding resource_pairs_def fold_res_concat [symmetric]
    by (rule arg_cong2 [where f = "\<lambda>f. fold_res f resources"])
      (auto simp: fun_eq_iff product_concat_map fold_res_concat [symmetric] fold_res_map_fun)
  have m0: "fmlookup ?m0 n = (if n \<in> set nodes then Some {} else None)" for n
    by (auto simp: fmlookup_of_list map_of_map_restrict)
  have "\<forall>e \<in> set (resource_pairs resources). fst (fst e) \<in> fmdom' ?m0"
    using assms(1) by (fastforce simp: resource_pairs_def fmlookup_dom'_iff m0)
  moreover have uc: "{n2. \<exists>e \<in> set (resource_pairs resources). pair_conflict e n n2} = ?C n" for n
    by (simp add: users_conflict_pairs)
  ultimately obtain m where m1: "fold_res excl_insert (resource_pairs resources) ?m0 = Inr m"
    and m2: "\<forall>n. fmlookup m n = map_option (\<lambda>S. S \<union> ?C n) (fmlookup ?m0 n)"
    using excl_insert_fold [of "resource_pairs resources" ?m0] unfolding uc by blast
  have m: "fmlookup m n = (if n \<in> set nodes then Some (?C n) else None)" for n
    using m2 by (simp add: m0)
  have fin: "finite (?C n)" for n
    unfolding users_conflict_pairs by (rule finite_pair_conflict)
  let ?ex = "fmmap (\<lambda>S. ho (sorted_list_of_set S)) m"
  have "build_exclusions ho nodes resources = Inr ?ex"
    by (simp add: build_exclusions_def nested m1)
  moreover have "fmdom' ?ex = set nodes" by (auto simp: fmlookup_dom'_iff m split: if_splits)
  moreover have "set (succs ?ex n) = ?C n \<and> distinct (succs ?ex n)" if "n \<in> set nodes" for n
    using that assms(2) fin by (simp add: succs_def m)
  ultimately show ?thesis by blast
qed

subsection \<open>The whole construction\<close>

lemma set_nodes_iter:
  "set (nodes_iter ns nu np) =
     SendSystem ` {..<ns} \<union> UnsendSystem ` {..<nu} \<union> Partition ` {..<np}"
  by (auto simp: nodes_iter_def)

lemma distinct_nodes_iter: "distinct (nodes_iter ns nu np)"
  by (auto simp: nodes_iter_def distinct_map inj_on_def)

lemma systems_nodes_iter: "length (filter is_system (nodes_iter ns nu np)) = ns + nu"
  by (simp add: nodes_iter_def filter_map o_def)

text \<open>What a topology guarantees to the planner; \<open>orders\<close> and \<open>resources\<close> are what it was built from.\<close>

definition topology_for ::
    "node list \<Rightarrow> sched_order list \<Rightarrow> 't resources \<Rightarrow> 'p topology \<Rightarrow> bool" where
  "topology_for nodes orders resources t \<longleftrightarrow>
     fmdom' (dependents t) = set nodes \<and> succs (dependents t) = out_list orders \<and>
     acyclic (edges (dependents t)) \<and>
     fmdom' (exclusions t) = set nodes \<and>
     (\<forall>n \<in> set nodes. set (succs (exclusions t) n) = {m. users_conflict resources n m} \<and>
        distinct (succs (exclusions t) n)) \<and>
     (\<forall>n. fmlookup (wakeup_state (initial_planner t)) n =
        (if n \<in> set nodes then Some (initial_wakeup n (initial_count nodes orders n)) else None)) \<and>
     send_runnable (initial_planner t) =
       {i. SendSystem i \<in> set nodes \<and> initial_count nodes orders (SendSystem i) = 0} \<and>
     unsend_runnable (initial_planner t) =
       {i. UnsendSystem i \<in> set nodes \<and> initial_count nodes orders (UnsendSystem i) = 0} \<and>
     remaining_systems (initial_planner t) = length (filter is_system nodes) \<and>
     depless_pars t = []"

text \<open>Whatever valid orders it gets, \<open>Topology::init\<close> returns a correct topology or panics with a cycle.\<close>

lemma topology_init_outcome:
  fixes resources :: "'t resources"
  assumes orders: "valid_orders (nodes_iter ns nu np) orders"
    and users: "\<forall>(ty, users) \<in> set resources. \<forall>(n, as) \<in> set users. n \<in> set (nodes_iter ns nu np)"
    and ho: "hash_order_ok ho"
  shows "(\<exists>t :: 'p topology. topology_init ho ns nu np orders resources = Some (Inr t) \<and>
            topology_for (nodes_iter ns nu np) orders resources t) \<or>
         (\<exists>p. (topology_init ho ns nu np orders resources :: 'p topology res option) =
               Some (Inl (CyclicDependency p)) \<and>
            2 \<le> length p \<and> hd p = last p \<and> successively (\<lambda>a b. b \<in> set (out_list orders a)) p)"
proof -
  let ?nodes = "nodes_iter ns nu np"
  from orders have *: "\<forall>ord \<in> set orders. before ord \<in> set ?nodes"
    by (simp add: valid_orders_def)
  obtain deps where deps: "build_dependents_map ?nodes orders = Inr deps"
    and dom: "fmdom' deps = set ?nodes" and su: "succs deps = out_list orders"
    using build_dependents_map_ok [OF *] by blast
  have closed: "closed_map deps"
    using orders by (auto simp: closed_map_def edges_succs su dom out_list_def valid_orders_def)
  obtain pl where pl: "build_initials ho ?nodes orders deps = Inr (pl, [])"
    "\<forall>n. fmlookup (wakeup_state pl) n =
       (if n \<in> set ?nodes then Some (initial_wakeup n (initial_count ?nodes orders n)) else None)"
    "send_runnable pl = {i. SendSystem i \<in> set ?nodes \<and> initial_count ?nodes orders (SendSystem i) = 0}"
    "unsend_runnable pl = {i. UnsendSystem i \<in> set ?nodes \<and> initial_count ?nodes orders (UnsendSystem i) = 0}"
    "remaining_systems pl = length (filter is_system ?nodes)"
    using build_initials_ok [OF orders distinct_nodes_iter ho dom su] by blast
  obtain ex where ex: "build_exclusions ho ?nodes resources = Inr ex" "fmdom' ex = set ?nodes"
    "\<forall>n \<in> set ?nodes. set (succs ex n) = {m. users_conflict resources n m} \<and> distinct (succs ex n)"
    using build_exclusions_ok [OF users ho] by blast
  from scan_cycles_outcome [OF closed] show ?thesis
  proof (elim disjE conjE exE)
    fix s
    assume "acyclic (edges deps)" and "scan_cycles deps = Some (Inr s)"
    with deps dom su pl ex show ?thesis
      by (intro disjI1) (simp add: topology_init_def topology_for_def Let_def)
  next
    fix p
    assume "scan_cycles deps = Some (Inl (CyclicDependency p))" and "cycle_path deps p"
    with deps show ?thesis
      by (intro disjI2) (simp add: topology_init_def Let_def cycle_path_def edges_succs su)
  qed
qed

end
