(* ===== verification/Planner.thy ===== *)
theory Planner
  imports Topology
begin

section \<open>The planner\<close>

text \<open>
  \<^verbatim>\<open>src/scheduler/planner.rs\<close>: stealing a runnable system, which blocks the systems exclusive with
  it, and completing one, which unblocks its dependents (through partitions, with a worklist)
  and the systems exclusive with it. The invariant ties every block count to the number of
  unfinished dependencies and of running exclusive systems. From it follow: no operation
  panics, running systems never exclude each other, a system starts only after everything it
  depends on, and something is runnable as long as nothing runs and systems remain.

  Block counts are natural numbers: a count never exceeds the number of orders and exclusions
  held in memory, so the \<open>usize\<close> of the code cannot overflow first. Calls of the tracer are
  observation only and are left out.
\<close>

datatype steal_result = StealReady nat | StealPending | StealCycleComplete

definition set_state :: "node \<Rightarrow> wakeup \<Rightarrow> planner \<Rightarrow> planner" where
  "set_state n w p = p\<lparr>wakeup_state := fmupd n w (wakeup_state p)\<rparr>"

definition state_of :: "planner \<Rightarrow> node \<Rightarrow> wakeup option" where
  "state_of p n = fmlookup (wakeup_state p) n"

subsection \<open>Stealing\<close>

text \<open>The body of the loop over \<open>topology.exclusions_of(node)\<close>.\<close>

definition block_exclusive :: "node \<Rightarrow> planner \<Rightarrow> planner res" where
  "block_exclusive excl p =
     bind_res (expect InvalidNodeIndex (state_of p excl)) (\<lambda>state.
       case state of
         Pending \<Rightarrow>
           (let p1 = set_state excl (Blocked 1) p in
            case excl of
              SendSystem i \<Rightarrow>
                if i \<in> send_runnable p1 then Inr (p1\<lparr>send_runnable := send_runnable p1 - {i}\<rparr>)
                else Inl PendingNotInPool
            | UnsendSystem i \<Rightarrow>
                if i \<in> unsend_runnable p1 then Inr (p1\<lparr>unsend_runnable := unsend_runnable p1 - {i}\<rparr>)
                else Inl PendingNotInPool
            | Partition _ \<Rightarrow> Inl PartitionExclusive)
       | Blocked c \<Rightarrow> Inr (set_state excl (Blocked (c + 1)) p)
       | Started \<Rightarrow> Inl StartedExclusion
       | Completed \<Rightarrow> Inr p)"

definition steal ::
    "(planner \<Rightarrow> nat set) \<Rightarrow> (nat set \<Rightarrow> planner \<Rightarrow> planner) \<Rightarrow> (nat \<Rightarrow> node)
      \<Rightarrow> 'p topology \<Rightarrow> planner \<Rightarrow> (steal_result \<times> planner) res" where
  "steal pool set_pool to_node t p =
     (if remaining_systems p = 0 then Inr (StealCycleComplete, p)
      else case bt_pop_first (pool p) of
             None \<Rightarrow> Inr (StealPending, p)
           | Some (index, rest) \<Rightarrow>
               (let p1 = set_pool rest p; node = to_node index in
                bind_res (expect InvalidNodeIndex (state_of p1 node)) (\<lambda>state.
                  if state = Pending then
                    bind_res (exclusions_of t node) (\<lambda>excls.
                    bind_res (fold_res block_exclusive excls (set_state node Started p1)) (\<lambda>p2.
                      Inr (StealReady index, p2)))
                  else Inl RunnableNotPending)))"

definition steal_send :: "'p topology \<Rightarrow> planner \<Rightarrow> (steal_result \<times> planner) res" where
  "steal_send = steal send_runnable (\<lambda>s p. p\<lparr>send_runnable := s\<rparr>) SendSystem"

definition steal_unsend :: "'p topology \<Rightarrow> planner \<Rightarrow> (steal_result \<times> planner) res" where
  "steal_unsend = steal unsend_runnable (\<lambda>s p. p\<lparr>unsend_runnable := s\<rparr>) UnsendSystem"

subsection \<open>Completing\<close>

text \<open>
  \<open>remove_one_block_no_recursion\<close> returns the planner and the grown worklist. A count of 0 is no
  value of the code's \<open>NonZeroUsize\<close>; the model sends it to the panicking branch.
\<close>

definition remove_one_block_no_recursion ::
    "'p topology \<Rightarrow> node \<Rightarrow> planner \<Rightarrow> node list \<Rightarrow> (planner \<times> node list) res" where
  "remove_one_block_no_recursion t node p queue =
     bind_res (expect InvalidNodeIndex (state_of p node)) (\<lambda>state.
       case state of
         Blocked c \<Rightarrow>
           if c > 1 then Inr (set_state node (Blocked (c - 1)) p, queue)
           else if c = 1 then
             (let p1 = set_state node Pending p in
              case node of
                SendSystem i \<Rightarrow>
                  if i \<notin> send_runnable p1
                  then Inr (p1\<lparr>send_runnable := insert i (send_runnable p1)\<rparr>, queue)
                  else Inl AlreadyRunnable
              | UnsendSystem i \<Rightarrow>
                  if i \<notin> unsend_runnable p1
                  then Inr (p1\<lparr>unsend_runnable := insert i (unsend_runnable p1)\<rparr>, queue)
                  else Inl AlreadyRunnable
              | Partition i \<Rightarrow>
                  (let p2 = set_state node Completed p1 in
                   bind_res (expect InvalidNodeIndex (list_get (partitions t) i)) (\<lambda>_.
                   bind_res (dependents_of t node) (\<lambda>ds. Inr (p2, queue @ ds)))))
           else Inl NoBlockersExpected
       | Completed \<Rightarrow> Inr (p, queue)
       | _ \<Rightarrow> Inl NoBlockersExpected)"

definition block_weight :: "wakeup \<Rightarrow> nat" where
  "block_weight w = (case w of Blocked c \<Rightarrow> c | _ \<Rightarrow> 0)"

lemma remove_one_block_weight:
  assumes "remove_one_block_no_recursion t n p q = Inr (p', q')"
  shows "fmap_weight block_weight (wakeup_state p') < fmap_weight block_weight (wakeup_state p) \<or>
    p' = p \<and> q' = q"
proof (cases "state_of p n")
  case None
  with assms show ?thesis by (simp add: remove_one_block_no_recursion_def)
next
  case (Some w)
  note lk = Some [unfolded state_of_def]
  have dec: "fmap_weight block_weight (fmupd n w' (wakeup_state p)) < fmap_weight block_weight (wakeup_state p)"
    if "block_weight w' < block_weight w" for w'
    using fmap_weight_upd [OF lk, of block_weight w'] that by simp
  from assms Some dec show ?thesis
    by (auto simp: remove_one_block_no_recursion_def set_state_def block_weight_def Let_def
        split: wakeup.splits node.splits if_splits)
qed

text \<open>The \<open>while let Some(node) = queue.pop()\<close> loop.\<close>

function remove_one_block :: "'p topology \<Rightarrow> planner \<Rightarrow> node list \<Rightarrow> planner res" where
  "remove_one_block t p queue =
     (if queue = [] then Inr p
      else bind_res (remove_one_block_no_recursion t (last queue) p (butlast queue))
             (\<lambda>(p', queue'). remove_one_block t p' queue'))"
  by pat_completeness auto

termination
  by (relation "measures [\<lambda>(t, p, q). fmap_weight block_weight (wakeup_state p), \<lambda>(t, p, q). length q]")
    (auto dest!: remove_one_block_weight)

declare remove_one_block.simps [simp del]

definition complete :: "'p topology \<Rightarrow> node \<Rightarrow> planner \<Rightarrow> planner res" where
  "complete t node p =
     bind_res (expect InvalidNodeIndex (state_of p node)) (\<lambda>state.
       if state = Started then
         bind_res (dependents_of t node) (\<lambda>ds.
         bind_res (remove_one_block t (set_state node Completed p) ds) (\<lambda>p1.
         bind_res (exclusions_of t node) (\<lambda>es.
         bind_res (remove_one_block t p1 es) (\<lambda>p2.
           if remaining_systems p2 = 0 then Inl IntegerOverflow
           else Inr (p2\<lparr>remaining_systems := remaining_systems p2 - 1\<rparr>)))))
       else Inl CompleteNotStarted)"

subsection \<open>The invariant\<close>

text \<open>
  A sum over the nodes of the schedule of a weight that depends on each node's state; it moves
  by the difference of the two weights when one state changes.
\<close>

definition tally :: "node set \<Rightarrow> (node \<Rightarrow> wakeup option \<Rightarrow> nat) \<Rightarrow> planner \<Rightarrow> nat" where
  "tally A g p = (\<Sum>m \<in> A. g m (state_of p m))"

lemma state_of_set_state [simp]:
  "state_of (set_state n w p) m = (if m = n then Some w else state_of p m)"
  by (simp add: state_of_def set_state_def)

lemma state_of_pools [simp]:
  "state_of (p\<lparr>send_runnable := a\<rparr>) m = state_of p m"
  "state_of (p\<lparr>unsend_runnable := a\<rparr>) m = state_of p m"
  "state_of (p\<lparr>remaining_systems := k\<rparr>) m = state_of p m"
  by (simp_all add: state_of_def)

lemma set_state_sel [simp]:
  "send_runnable (set_state n w p) = send_runnable p"
  "unsend_runnable (set_state n w p) = unsend_runnable p"
  "remaining_systems (set_state n w p) = remaining_systems p"
  by (simp_all add: set_state_def)

lemma tally_cong:
  "(\<And>m. m \<in> A \<Longrightarrow> g m (state_of p m) = g m (state_of p' m)) \<Longrightarrow> tally A g p = tally A g p'"
  by (simp add: tally_def)

lemma tally_upd:
  assumes "finite A" and "n \<in> A" and "\<And>m. state_of p' m = (if m = n then Some w else state_of p m)"
  shows "tally A g p' + g n (state_of p n) = tally A g p + g n (Some w)"
  by (simp add: tally_def sum.remove [OF assms(1,2)] assms(3))

definition unfinished :: "'p topology \<Rightarrow> node \<Rightarrow> planner \<Rightarrow> nat" where
  "unfinished t n =
     tally (fmdom' (dependents t))
       (\<lambda>m w. if w = Some Completed then 0 else count_list (succs (dependents t) m) n)"

definition excluders :: "'p topology \<Rightarrow> node \<Rightarrow> planner \<Rightarrow> nat" where
  "excluders t n =
     tally (fmdom' (dependents t))
       (\<lambda>m w. if w = Some Started then count_list (succs (exclusions t) m) n else 0)"

definition open_systems :: "'p topology \<Rightarrow> planner \<Rightarrow> nat" where
  "open_systems t =
     tally (fmdom' (dependents t)) (\<lambda>m w. if is_system m \<and> w \<noteq> Some Completed then 1 else 0)"

text \<open>
  The invariant during an operation: \<open>Q\<close> holds the nodes from which a block is still to be
  removed, \<open>R\<close> those to which one is still to be added.
\<close>

definition node_ok :: "'p topology \<Rightarrow> planner \<Rightarrow> node list \<Rightarrow> node list \<Rightarrow> node \<Rightarrow> wakeup \<Rightarrow> bool" where
  "node_ok t p Q R n w =
     (case w of
        Blocked c \<Rightarrow> 0 < c \<and>
          c + count_list R n = unfinished t n p + excluders t n p + count_list Q n
      | Pending \<Rightarrow> is_system n \<and>
          count_list R n = unfinished t n p + excluders t n p + count_list Q n
      | Started \<Rightarrow> is_system n \<and> unfinished t n p = 0 \<and> excluders t n p = 0 \<and>
          n \<notin> set Q \<and> n \<notin> set R
      | Completed \<Rightarrow> unfinished t n p = 0)"

definition planner_mid :: "'p topology \<Rightarrow> planner \<Rightarrow> node list \<Rightarrow> node list \<Rightarrow> bool" where
  "planner_mid t p Q R \<longleftrightarrow>
     (\<forall>n. state_of p n \<noteq> None \<longleftrightarrow> n \<in> fmdom' (dependents t)) \<and>
     (\<forall>n w. state_of p n = Some w \<longrightarrow> node_ok t p Q R n w) \<and>
     send_runnable p = {i. state_of p (SendSystem i) = Some Pending} \<and>
     unsend_runnable p = {i. state_of p (UnsendSystem i) = Some Pending}"

text \<open>The invariant between operations.\<close>

definition planner_inv :: "'p topology \<Rightarrow> planner \<Rightarrow> bool" where
  "planner_inv t p \<longleftrightarrow> planner_mid t p [] [] \<and> remaining_systems p = open_systems t p"

text \<open>What unblocking and blocking leave alone: which systems run and which are done.\<close>

definition same_progress :: "planner \<Rightarrow> planner \<Rightarrow> bool" where
  "same_progress p p' \<longleftrightarrow>
     remaining_systems p' = remaining_systems p \<and>
     (\<forall>m. is_system m \<longrightarrow> (state_of p' m = Some Started \<longleftrightarrow> state_of p m = Some Started) \<and>
        (state_of p' m = Some Completed \<longleftrightarrow> state_of p m = Some Completed))"

lemma same_progress_refl [simp]: "same_progress p p"
  by (simp add: same_progress_def)

lemma same_progress_trans: "same_progress p q \<Longrightarrow> same_progress q r \<Longrightarrow> same_progress p r"
  by (simp add: same_progress_def)

lemma same_progress_open_systems: "same_progress p p' \<Longrightarrow> open_systems t p' = open_systems t p"
  unfolding open_systems_def by (rule tally_cong) (auto simp: same_progress_def)

lemma count_list_zero: "count_list xs x = 0 \<longleftrightarrow> x \<notin> set xs"
  by (induction xs) auto

lemma planner_mid_perm: "mset Q = mset Q' \<Longrightarrow> planner_mid t p Q R = planner_mid t p Q' R"
proof -
  assume "mset Q = mset Q'"
  then have "count_list Q = count_list Q'" and "set Q = set Q'"
    by (auto simp: count_list_mset fun_eq_iff dest: mset_eq_setD)
  then have "node_ok t p Q R = node_ok t p Q' R"
    by (simp add: fun_eq_iff node_ok_def split: wakeup.splits)
  then show ?thesis by (simp add: planner_mid_def)
qed

subsection \<open>The abstract schedule\<close>

text \<open>
  The specification the planner implements: a set of running and a set of finished systems. A
  system can start when every system it depends on, directly or through partitions, is finished
  and no running system excludes it.
\<close>

definition running :: "planner \<Rightarrow> node set" where
  "running p = {n. state_of p n = Some Started}"

definition finished :: "planner \<Rightarrow> node set" where
  "finished p = {n. is_system n \<and> state_of p n = Some Completed}"

definition can_start :: "'p topology \<Rightarrow> node set \<Rightarrow> node set \<Rightarrow> node \<Rightarrow> bool" where
  "can_start t R F n \<longleftrightarrow>
     is_system n \<and> n \<in> fmdom' (dependents t) \<and> n \<notin> R \<and> n \<notin> F \<and>
     (\<forall>m. is_system m \<and> (m, n) \<in> (edges (dependents t))\<^sup>+ \<longrightarrow> m \<in> F) \<and>
     (\<forall>m \<in> R. n \<notin> set (succs (exclusions t) m))"

text \<open>What stealing from one pool promises: the least system of that kind that can start.\<close>

definition steal_spec ::
    "'p topology \<Rightarrow> (nat \<Rightarrow> node) \<Rightarrow> planner \<Rightarrow> steal_result \<Rightarrow> planner \<Rightarrow> bool" where
  "steal_spec t to_node p r p' \<longleftrightarrow>
     (case r of
        StealCycleComplete \<Rightarrow> p' = p \<and>
          (\<forall>n. is_system n \<and> n \<in> fmdom' (dependents t) \<longrightarrow> n \<in> finished p)
      | StealPending \<Rightarrow> p' = p \<and>
          (\<exists>n. is_system n \<and> n \<in> fmdom' (dependents t) \<and> n \<notin> finished p) \<and>
          (\<forall>i. \<not> can_start t (running p) (finished p) (to_node i))
      | StealReady i \<Rightarrow>
          can_start t (running p) (finished p) (to_node i) \<and>
          (\<forall>j < i. \<not> can_start t (running p) (finished p) (to_node j)) \<and>
          running p' = insert (to_node i) (running p) \<and> finished p' = finished p)"

subsection \<open>The contract between a topology and the planner\<close>

locale schedule_graph =
  fixes t :: "'p topology"
  assumes excl_dom: "fmdom' (exclusions t) = fmdom' (dependents t)"
    and deps_closed: "closed_map (dependents t)"
    and deps_acyclic: "acyclic (edges (dependents t))"
    and excl_ok: "m \<in> set (succs (exclusions t) n) \<Longrightarrow>
      is_system m \<and> is_system n \<and> m \<noteq> n \<and> m \<in> fmdom' (dependents t) \<and>
      n \<in> set (succs (exclusions t) m)"
    and partitions_known: "Partition i \<in> fmdom' (dependents t) \<Longrightarrow> i < length (partitions t)"

locale schedule = schedule_graph +
  assumes init_inv: "planner_inv t (initial_planner t)"
    and init_idle: "state_of (initial_planner t) n \<noteq> Some Started"

context schedule_graph
begin

lemma dependents_of_eq: "n \<in> fmdom' (dependents t) \<Longrightarrow> dependents_of t n = Inr (succs (dependents t) n)"
  by (auto simp: dependents_of_def succs_def fmlookup_dom'_iff)

lemma exclusions_of_eq: "n \<in> fmdom' (dependents t) \<Longrightarrow> exclusions_of t n = Inr (succs (exclusions t) n)"
  by (auto simp: exclusions_of_def succs_def fmlookup_dom'_iff excl_dom [symmetric])

lemma unfinished_upd:
  assumes "n \<in> fmdom' (dependents t)" and "\<And>m. state_of p' m = (if m = n then Some w else state_of p m)"
  shows "unfinished t x p' + (if state_of p n = Some Completed then 0 else count_list (succs (dependents t) n) x) =
    unfinished t x p + (if w = Completed then 0 else count_list (succs (dependents t) n) x)"
  unfolding unfinished_def
  using tally_upd [OF finite_fmdom' assms, of "\<lambda>m w. if w = Some Completed then 0 else count_list (succs (dependents t) m) x"]
  by simp

lemma excluders_upd:
  assumes "n \<in> fmdom' (dependents t)" and "\<And>m. state_of p' m = (if m = n then Some w else state_of p m)"
  shows "excluders t x p' + (if state_of p n = Some Started then count_list (succs (exclusions t) n) x else 0) =
    excluders t x p + (if w = Started then count_list (succs (exclusions t) n) x else 0)"
  unfolding excluders_def
  using tally_upd [OF finite_fmdom' assms, of "\<lambda>m w. if w = Some Started then count_list (succs (exclusions t) m) x else 0"]
  by simp

lemma open_systems_upd:
  assumes "n \<in> fmdom' (dependents t)" and "\<And>m. state_of p' m = (if m = n then Some w else state_of p m)"
  shows "open_systems t p' + (if is_system n \<and> state_of p n \<noteq> Some Completed then 1 else 0) =
    open_systems t p + (if is_system n \<and> w \<noteq> Completed then 1 else 0)"
  unfolding open_systems_def
  using tally_upd [OF finite_fmdom' assms, of "\<lambda>m w. if is_system m \<and> w \<noteq> Some Completed then 1 else 0"]
  by simp

text \<open>One node changes, to or from neither \<open>Started\<close> nor \<open>Completed\<close>: all counts stay.\<close>

lemma counts_upd_idle:
  assumes "n \<in> fmdom' (dependents t)" and "\<And>m. state_of p' m = (if m = n then Some w else state_of p m)"
    and "w \<noteq> Started" "w \<noteq> Completed" "state_of p n \<noteq> Some Started" "state_of p n \<noteq> Some Completed"
  shows "unfinished t x p' = unfinished t x p" "excluders t x p' = excluders t x p"
    "open_systems t p' = open_systems t p"
  using unfinished_upd [OF assms(1,2), of x] excluders_upd [OF assms(1,2), of x]
    open_systems_upd [OF assms(1,2)] assms(3-) by simp_all

lemma mid_dom: "planner_mid t p Q R \<Longrightarrow> state_of p n = Some w \<Longrightarrow> n \<in> fmdom' (dependents t)"
  by (auto simp: planner_mid_def)

lemma mid_node: "planner_mid t p Q R \<Longrightarrow> state_of p n = Some w \<Longrightarrow> node_ok t p Q R n w"
  by (simp add: planner_mid_def)

text \<open>The shape of every step: one state changes, and the pools follow.\<close>

lemma mid_updI:
  assumes mid: "planner_mid t p Q R" and n: "n \<in> fmdom' (dependents t)"
    and st: "\<And>m. state_of p' m = (if m = n then Some w else state_of p m)"
    and "node_ok t p' Q' R' n w"
    and "\<And>m w. m \<noteq> n \<Longrightarrow> state_of p m = Some w \<Longrightarrow> node_ok t p Q R m w \<Longrightarrow> node_ok t p' Q' R' m w"
    and "send_runnable p' = {i. state_of p' (SendSystem i) = Some Pending}"
    and "unsend_runnable p' = {i. state_of p' (UnsendSystem i) = Some Pending}"
  shows "planner_mid t p' Q' R'"
  unfolding planner_mid_def
proof (intro conjI allI impI)
  fix m
  show "(state_of p' m \<noteq> None) = (m \<in> fmdom' (dependents t))"
    using mid n by (auto simp: st planner_mid_def)
next
  fix m v
  assume "state_of p' m = Some v"
  with assms(4,5) mid show "node_ok t p' Q' R' m v"
    by (auto simp: st planner_mid_def split: if_splits)
qed (use assms(6,7) in simp_all)

lemma mid_updI_idle:
  assumes mid: "planner_mid t p Q R" and n: "n \<in> fmdom' (dependents t)"
    and st: "\<And>m. state_of p' m = (if m = n then Some w else state_of p m)"
    and idle: "w \<noteq> Started" "w \<noteq> Completed" "state_of p n \<noteq> Some Started" "state_of p n \<noteq> Some Completed"
    and "node_ok t p Q' R' n w"
    and QR: "\<And>m. m \<noteq> n \<Longrightarrow> count_list Q' m = count_list Q m \<and> count_list R' m = count_list R m"
    and "send_runnable p' = {i. state_of p' (SendSystem i) = Some Pending}"
    and "unsend_runnable p' = {i. state_of p' (UnsendSystem i) = Some Pending}"
  shows "planner_mid t p' Q' R'"
proof (rule mid_updI [OF mid n st])
  note eq = counts_upd_idle [OF n st idle]
  show "node_ok t p' Q' R' n w" using assms(8) by (simp add: node_ok_def eq cong: wakeup.case_cong)
  show "node_ok t p' Q' R' m v" if "m \<noteq> n" and "node_ok t p Q R m v" for m v
    using that QR [OF that(1)]
    by (simp add: node_ok_def eq count_list_zero [symmetric] cong: wakeup.case_cong)
qed (use assms in simp_all)

lemma remove_step_blocked:
  assumes mid: "planner_mid t p (n # Q) []" and st: "state_of p n = Some (Blocked c)" and "c > 1"
  shows "planner_mid t (set_state n (Blocked (c - 1)) p) Q []"
proof (rule mid_updI_idle [OF mid mid_dom [OF mid st]])
  show "node_ok t p Q [] n (Blocked (c - 1))"
    using mid_node [OF mid st] assms(3) by (simp add: node_ok_def)
  show "send_runnable (set_state n (Blocked (c - 1)) p) =
      {i. state_of (set_state n (Blocked (c - 1)) p) (SendSystem i) = Some Pending}"
    and "unsend_runnable (set_state n (Blocked (c - 1)) p) =
      {i. state_of (set_state n (Blocked (c - 1)) p) (UnsendSystem i) = Some Pending}"
    using mid st by (auto simp: planner_mid_def)
qed (use st in auto)

lemma remove_step_pending:
  assumes mid: "planner_mid t p (n # Q) []" and st: "state_of p n = Some (Blocked 1)"
    and sys: "is_system n"
    and p': "\<And>m. state_of p' m = (if m = n then Some Pending else state_of p m)"
    and pools: "send_runnable p' = send_runnable p \<union> {i. SendSystem i = n}"
      "unsend_runnable p' = unsend_runnable p \<union> {i. UnsendSystem i = n}"
  shows "planner_mid t p' Q []"
proof (rule mid_updI_idle [OF mid mid_dom [OF mid st] p'])
  show "node_ok t p Q [] n Pending"
    using mid_node [OF mid st] sys by (simp add: node_ok_def)
  show "send_runnable p' = {i. state_of p' (SendSystem i) = Some Pending}"
    and "unsend_runnable p' = {i. state_of p' (UnsendSystem i) = Some Pending}"
    using mid pools by (auto simp: p' planner_mid_def)
qed (use st in auto)

lemma remove_step_partition:
  assumes mid: "planner_mid t p (n # Q) []" and st: "state_of p n = Some (Blocked 1)"
    and par: "n = Partition i"
  shows "planner_mid t (set_state n Completed p) (succs (dependents t) n @ Q) []"
proof -
  let ?p = "set_state n Completed p" and ?ds = "succs (dependents t) n"
  note dom = mid_dom [OF mid st]
  have upd: "state_of ?p m = (if m = n then Some Completed else state_of p m)" for m by simp
  have un: "unfinished t x p = unfinished t x ?p + count_list ?ds x" for x
    using unfinished_upd [OF dom upd, of x] st by simp
  have ex: "excluders t x ?p = excluders t x p" for x
    using excluders_upd [OF dom upd, of x] st by simp
  show ?thesis
  proof (rule mid_updI [OF mid dom upd])
    show "node_ok t ?p (?ds @ Q) [] n Completed"
      using mid_node [OF mid st] un [of n] by (simp add: node_ok_def)
    show "node_ok t ?p (?ds @ Q) [] m v"
      if "m \<noteq> n" and "node_ok t p (n # Q) [] m v" for m v
      using that un [of m] ex [of m]
      by (auto simp: node_ok_def count_list_zero [symmetric] split: wakeup.splits)
  qed (use mid par in \<open>auto simp: planner_mid_def\<close>)
qed

lemma remove_step:
  assumes mid: "planner_mid t p (n # Q) []" and n: "n \<in> fmdom' (dependents t)"
  shows "\<exists>p' ds. remove_one_block_no_recursion t n p q = Inr (p', q @ ds) \<and>
    planner_mid t p' (ds @ Q) [] \<and> set ds \<subseteq> fmdom' (dependents t) \<and> same_progress p p'"
proof -
  obtain w where st: "state_of p n = Some w" using mid n unfolding planner_mid_def by blast
  note ok = mid_node [OF mid st]
  have pools: "state_of p (SendSystem i) \<noteq> Some Pending \<Longrightarrow> i \<notin> send_runnable p"
    "state_of p (UnsendSystem i) \<noteq> Some Pending \<Longrightarrow> i \<notin> unsend_runnable p" for i
    using mid by (auto simp: planner_mid_def)
  show ?thesis
  proof (cases w)
    case (Blocked c)
    with ok have "0 < c" by (simp add: node_ok_def)
    then consider "c > 1" | "c = 1" by linarith
    then show ?thesis
    proof cases
      case 1
      with remove_step_blocked [OF mid _ 1] st Blocked show ?thesis
        by (auto simp: remove_one_block_no_recursion_def same_progress_def)
    next
      case 2
      with st Blocked have st1: "state_of p n = Some (Blocked 1)" by simp
      show ?thesis
      proof (cases n)
        case (SendSystem i)
        let ?p = "(set_state n Pending p)\<lparr>send_runnable := insert i (send_runnable p)\<rparr>"
        have "planner_mid t ?p Q []"
          by (rule remove_step_pending [OF mid st1]) (auto simp: SendSystem)
        with SendSystem st1 pools show ?thesis
          by (intro exI [of _ ?p] exI [of _ "[]"])
            (auto simp: remove_one_block_no_recursion_def same_progress_def)
      next
        case (UnsendSystem i)
        let ?p = "(set_state n Pending p)\<lparr>unsend_runnable := insert i (unsend_runnable p)\<rparr>"
        have "planner_mid t ?p Q []"
          by (rule remove_step_pending [OF mid st1]) (auto simp: UnsendSystem)
        with UnsendSystem st1 pools show ?thesis
          by (intro exI [of _ ?p] exI [of _ "[]"])
            (auto simp: remove_one_block_no_recursion_def same_progress_def)
      next
        case (Partition i)
        have eq: "set_state n Completed (set_state n Pending p) = set_state n Completed p"
          by (simp add: set_state_def)
        have "remove_one_block_no_recursion t n p q =
            Inr (set_state n Completed p, q @ succs (dependents t) n)"
          using st1 Partition partitions_known [of i] n eq dependents_of_eq [OF n]
          by (simp add: remove_one_block_no_recursion_def list_get_def)
        moreover have "set (succs (dependents t) n) \<subseteq> fmdom' (dependents t)"
          using deps_closed by (auto simp: closed_map_def edges_succs)
        ultimately show ?thesis
          using remove_step_partition [OF mid st1 Partition] Partition
          by (auto simp: same_progress_def)
      qed
    qed
  next
    case Completed
    have "planner_mid t p Q []"
      using mid Completed st unfolding planner_mid_def
      by (fastforce simp: node_ok_def split: wakeup.splits if_splits)
    with Completed st show ?thesis
      by (intro exI [of _ p] exI [of _ "[]"]) (simp add: remove_one_block_no_recursion_def)
  qed (use ok in \<open>simp_all add: node_ok_def\<close>)
qed

lemma remove_one_block_ok:
  assumes "t' = t" and "planner_mid t p (q @ E) []" and "set q \<subseteq> fmdom' (dependents t)"
  shows "\<exists>p'. remove_one_block t' p q = Inr p' \<and> planner_mid t p' E [] \<and> same_progress p p'"
  using assms
proof (induction t' p q rule: remove_one_block.induct)
  case (1 t' p q)
  show ?case
  proof (cases "q = []")
    case True
    with "1.prems" show ?thesis by (simp add: remove_one_block.simps)
  next
    case False
    then have q: "q = butlast q @ [last q]" by simp
    have "mset (q @ E) = mset (last q # butlast q @ E)"
      by (subst q) simp
    then have mid: "planner_mid t p (last q # butlast q @ E) []"
      using "1.prems"(2) planner_mid_perm by blast
    have last: "last q \<in> fmdom' (dependents t)" using "1.prems"(3) False by auto
    obtain p1 ds where step: "remove_one_block_no_recursion t (last q) p (butlast q) = Inr (p1, butlast q @ ds)"
      and p1: "planner_mid t p1 (ds @ butlast q @ E) []" "set ds \<subseteq> fmdom' (dependents t)" "same_progress p p1"
      using remove_step [OF mid last] by blast
    have mid1: "planner_mid t p1 ((butlast q @ ds) @ E) []"
      using p1(1) planner_mid_perm [of "(butlast q @ ds) @ E" "ds @ butlast q @ E" t p1 "[]"] by (simp add: ac_simps)
    have sub: "set (butlast q @ ds) \<subseteq> fmdom' (dependents t)"
      using p1(2) "1.prems"(3) by (auto dest: in_set_butlastD)
    obtain p' where p': "remove_one_block t p1 (butlast q @ ds) = Inr p'" "planner_mid t p' E []"
      "same_progress p1 p'"
      using "1.IH" [OF False, of "(p1, butlast q @ ds)" p1 "butlast q @ ds"] step mid1 sub "1.prems"(1) by auto
    have "remove_one_block t p q = Inr p'"
      using False step p'(1) by (subst remove_one_block.simps) simp
    with p' p1(3) "1.prems"(1) show ?thesis by (blast intro: same_progress_trans)
  qed
qed

text \<open>Completing a running system: its blocks are removed and nothing else starts or ends.\<close>

lemma complete_ok:
  assumes inv: "planner_inv t p" and st: "state_of p n = Some Started"
  shows "\<exists>p'. complete t n p = Inr p' \<and> planner_inv t p' \<and>
    remaining_systems p' + 1 = remaining_systems p \<and>
    (\<forall>m. is_system m \<longrightarrow> (state_of p' m = Some Started \<longleftrightarrow> m \<noteq> n \<and> state_of p m = Some Started) \<and>
       (state_of p' m = Some Completed \<longleftrightarrow> m = n \<or> state_of p m = Some Completed))"
proof -
  from inv have mid: "planner_mid t p [] []" by (simp add: planner_inv_def)
  note dom = mid_dom [OF mid st]
  have sys: "is_system n" using mid_node [OF mid st] by (simp add: node_ok_def)
  let ?p = "set_state n Completed p" and ?ds = "succs (dependents t) n" and ?es = "succs (exclusions t) n"
  have upd: "state_of ?p m = (if m = n then Some Completed else state_of p m)" for m by simp
  have un: "unfinished t x p = unfinished t x ?p + count_list ?ds x" for x
    using unfinished_upd [OF dom upd, of x] st by simp
  have ex: "excluders t x p = excluders t x ?p + count_list ?es x" for x
    using excluders_upd [OF dom upd, of x] st by simp
  have op: "open_systems t p = Suc (open_systems t ?p)"
    using open_systems_upd [OF dom upd] st sys by simp
  have "planner_mid t ?p (?ds @ ?es) []"
  proof (rule mid_updI [OF mid dom upd])
    show "node_ok t ?p (?ds @ ?es) [] n Completed"
      using mid_node [OF mid st] un [of n] by (simp add: node_ok_def)
    show "node_ok t ?p (?ds @ ?es) [] m v" if "m \<noteq> n" and "node_ok t p [] [] m v" for m v
      using that un [of m] ex [of m]
      by (auto simp: node_ok_def count_list_zero [symmetric] split: wakeup.splits)
  qed (use mid st in \<open>auto simp: planner_mid_def\<close>)
  moreover have "set ?ds \<subseteq> fmdom' (dependents t)"
    using deps_closed by (auto simp: closed_map_def edges_succs)
  ultimately obtain p1 where p1: "remove_one_block t ?p ?ds = Inr p1" "planner_mid t p1 ?es []"
    "same_progress ?p p1"
    using remove_one_block_ok [OF refl, of ?p ?ds ?es] by blast
  moreover have "set ?es \<subseteq> fmdom' (dependents t)" using excl_ok by blast
  ultimately obtain p2 where p2: "remove_one_block t p1 ?es = Inr p2" "planner_mid t p2 [] []"
    "same_progress p1 p2"
    using remove_one_block_ok [OF refl, of p1 ?es "[]"] by auto
  have prog: "same_progress ?p p2" using p1(3) p2(3) by (rule same_progress_trans)
  let ?p' = "p2\<lparr>remaining_systems := remaining_systems p2 - 1\<rparr>"
  have rem: "remaining_systems p2 = Suc (open_systems t p2)"
    using prog inv op same_progress_open_systems [OF prog, of t]
    by (simp add: planner_inv_def same_progress_def)
  have "complete t n p = Inr ?p'"
    using st p1(1) p2(1) rem dependents_of_eq [OF dom] exclusions_of_eq [OF dom]
    by (simp add: complete_def)
  moreover have "planner_inv t ?p'"
    using p2(2) rem
    by (simp add: planner_inv_def planner_mid_def node_ok_def unfinished_def excluders_def
        open_systems_def tally_def cong: wakeup.case_cong)
  ultimately show ?thesis
    using prog rem sys st by (auto simp: same_progress_def)
qed

text \<open>Blocking one exclusive node.\<close>

lemma block_step_upd:
  assumes mid: "planner_mid t p [] (n # R)" and st: "state_of p n = Some w"
    and w: "w = Pending \<and> c = 1 \<or> w = Blocked d \<and> c = d + 1"
    and p': "\<And>m. state_of p' m = (if m = n then Some (Blocked c) else state_of p m)"
    and pools: "send_runnable p' = send_runnable p - {i. SendSystem i = n}"
      "unsend_runnable p' = unsend_runnable p - {i. UnsendSystem i = n}"
  shows "planner_mid t p' [] R"
proof (rule mid_updI_idle [OF mid mid_dom [OF mid st] p'])
  show "node_ok t p [] R n (Blocked c)"
    using mid_node [OF mid st] w by (auto simp: node_ok_def)
  show "send_runnable p' = {i. state_of p' (SendSystem i) = Some Pending}"
    and "unsend_runnable p' = {i. state_of p' (UnsendSystem i) = Some Pending}"
    using mid pools st by (auto simp: p' planner_mid_def)
qed (use st w in auto)

lemma block_step:
  assumes mid: "planner_mid t p [] (n # R)" and n: "n \<in> fmdom' (dependents t)" "is_system n"
  shows "\<exists>p'. block_exclusive n p = Inr p' \<and> planner_mid t p' [] R \<and> same_progress p p'"
proof -
  obtain w where st: "state_of p n = Some w" using mid n unfolding planner_mid_def by blast
  note ok = mid_node [OF mid st]
  have pools: "state_of p (SendSystem i) = Some Pending \<Longrightarrow> i \<in> send_runnable p"
    "state_of p (UnsendSystem i) = Some Pending \<Longrightarrow> i \<in> unsend_runnable p"
    "state_of p (SendSystem i) = Some (Blocked c) \<Longrightarrow> i \<notin> send_runnable p"
    "state_of p (UnsendSystem i) = Some (Blocked c) \<Longrightarrow> i \<notin> unsend_runnable p" for i c
    using mid by (auto simp: planner_mid_def)
  show ?thesis
  proof (cases w)
    case (Blocked c)
    let ?p = "set_state n (Blocked (c + 1)) p"
    have "planner_mid t ?p [] R"
      by (rule block_step_upd [OF mid st]) (use Blocked st pools in auto)
    then show ?thesis
      using Blocked st by (auto simp: block_exclusive_def same_progress_def)
  next
    case Pending
    show ?thesis
    proof (cases n)
      case (SendSystem i)
      let ?p = "(set_state n (Blocked 1) p)\<lparr>send_runnable := send_runnable p - {i}\<rparr>"
      have "planner_mid t ?p [] R"
        by (rule block_step_upd [OF mid st]) (use Pending SendSystem in auto)
      then show ?thesis
        using Pending SendSystem st pools by (auto simp: block_exclusive_def same_progress_def)
    next
      case (UnsendSystem i)
      let ?p = "(set_state n (Blocked 1) p)\<lparr>unsend_runnable := unsend_runnable p - {i}\<rparr>"
      have "planner_mid t ?p [] R"
        by (rule block_step_upd [OF mid st]) (use Pending UnsendSystem in auto)
      then show ?thesis
        using Pending UnsendSystem st pools by (auto simp: block_exclusive_def same_progress_def)
    qed (use n in simp)
  next
    case Completed
    have "planner_mid t p [] R"
      using mid Completed st unfolding planner_mid_def
      by (fastforce simp: node_ok_def split: wakeup.splits if_splits)
    with Completed st show ?thesis by (simp add: block_exclusive_def)
  qed (use ok in \<open>simp_all add: node_ok_def\<close>)
qed

lemma block_exclusive_ok:
  assumes "planner_mid t p [] R" and "\<forall>n \<in> set R. n \<in> fmdom' (dependents t) \<and> is_system n"
  shows "\<exists>p'. fold_res block_exclusive R p = Inr p' \<and> planner_mid t p' [] [] \<and> same_progress p p'"
proof -
  let ?I = "\<lambda>R p1. planner_mid t p1 [] R \<and> same_progress p p1 \<and>
    (\<forall>n \<in> set R. n \<in> fmdom' (dependents t) \<and> is_system n)"
  have "\<exists>p'. fold_res block_exclusive R p = Inr p' \<and> ?I [] p'"
  proof (rule fold_res_rule [where I = ?I])
    fix n R p1
    assume I: "?I (n # R) p1"
    then obtain p2 where "block_exclusive n p1 = Inr p2" "planner_mid t p2 [] R" "same_progress p1 p2"
      using block_step [of p1 n R] by auto
    with I show "\<exists>p2. block_exclusive n p1 = Inr p2 \<and> ?I R p2"
      by (auto intro: same_progress_trans)
  qed (use assms in simp)
  then show ?thesis by auto
qed

text \<open>Starting a pending system.\<close>

lemma start_ok:
  assumes inv: "planner_inv t p" and st: "state_of p n = Some Pending"
    and p1: "\<And>m. state_of p1 m = state_of p m" "remaining_systems p1 = remaining_systems p"
      "send_runnable p1 = send_runnable p - {i. SendSystem i = n}"
      "unsend_runnable p1 = unsend_runnable p - {i. UnsendSystem i = n}"
  shows "\<exists>p'. fold_res block_exclusive (succs (exclusions t) n) (set_state n Started p1) = Inr p' \<and>
    planner_inv t p' \<and> remaining_systems p' = remaining_systems p \<and>
    (\<forall>m. is_system m \<longrightarrow> (state_of p' m = Some Started \<longleftrightarrow> m = n \<or> state_of p m = Some Started) \<and>
       (state_of p' m = Some Completed \<longleftrightarrow> state_of p m = Some Completed))"
proof -
  from inv have mid: "planner_mid t p [] []" by (simp add: planner_inv_def)
  note dom = mid_dom [OF mid st] and ok = mid_node [OF mid st]
  have sys: "is_system n" using ok by (simp add: node_ok_def)
  let ?p = "set_state n Started p1" and ?es = "succs (exclusions t) n"
  have upd: "state_of ?p m = (if m = n then Some Started else state_of p m)" for m by (simp add: p1)
  have un: "unfinished t x ?p = unfinished t x p" for x
    using unfinished_upd [OF dom upd, of x] st by simp
  have ex: "excluders t x ?p = excluders t x p + count_list ?es x" for x
    using excluders_upd [OF dom upd, of x] st by simp
  have op: "open_systems t ?p = open_systems t p"
    using open_systems_upd [OF dom upd] st sys by simp
  have self: "n \<notin> set ?es" using excl_ok by blast
  have other: "m \<notin> set ?es" if "state_of p m = Some Started" for m
  proof
    assume m: "m \<in> set ?es"
    have "m \<in> fmdom' (dependents t)" by (rule mid_dom [OF mid that])
    then have "count_list (succs (exclusions t) m) n \<le> excluders t n p"
      unfolding excluders_def tally_def
      using member_le_sum [of m "fmdom' (dependents t)"
          "\<lambda>m. if state_of p m = Some Started then count_list (succs (exclusions t) m) n else 0"] that
      by simp
    moreover have "n \<in> set (succs (exclusions t) m)" using excl_ok [OF m] by simp
    ultimately show False using ok by (simp add: node_ok_def count_list_zero)
  qed
  have "planner_mid t ?p [] ?es"
  proof (rule mid_updI [OF mid dom upd])
    show "node_ok t ?p [] ?es n Started"
      using ok un [of n] ex [of n] self by (simp add: node_ok_def count_list_zero)
    show "node_ok t ?p [] ?es m v"
      if "m \<noteq> n" and "state_of p m = Some v" and "node_ok t p [] [] m v" for m v
      using that un [of m] ex [of m] other [of m]
      by (auto simp: node_ok_def count_list_zero split: wakeup.splits)
  qed (use mid in \<open>auto simp: planner_mid_def p1\<close>)
  then obtain p' where p': "fold_res block_exclusive ?es ?p = Inr p'" "planner_mid t p' [] []"
    "same_progress ?p p'"
    using block_exclusive_ok [of ?p ?es] excl_ok by blast
  have "planner_inv t p'"
    using p'(2,3) inv op same_progress_open_systems [OF p'(3), of t]
    by (simp add: planner_inv_def same_progress_def p1)
  with p' st show ?thesis by (auto simp: same_progress_def p1)
qed

subsection \<open>The planner implements the abstract schedule\<close>

lemma inv_node: "planner_inv t p \<Longrightarrow> state_of p n = Some w \<Longrightarrow> node_ok t p [] [] n w"
  by (simp add: planner_inv_def mid_node)

lemma unfinished_zero:
  assumes "unfinished t n p = 0" and "(m, n) \<in> edges (dependents t)"
  shows "state_of p m = Some Completed"
proof -
  from assms(2) have m: "m \<in> fmdom' (dependents t)" and s: "n \<in> set (succs (dependents t) m)"
    by (auto simp: edges_def succs_def intro: fmdom'I)
  with assms(1) show ?thesis
    by (auto simp: unfinished_def tally_def count_list_zero split: if_splits)
qed

lemma unfinished_zeroI:
  assumes "\<And>m. (m, n) \<in> edges (dependents t) \<Longrightarrow> state_of p m = Some Completed"
  shows "unfinished t n p = 0"
  using assms by (auto simp: unfinished_def tally_def count_list_zero edges_succs)

lemma excluders_zero:
  assumes "planner_inv t p"
  shows "excluders t n p = 0 \<longleftrightarrow> (\<forall>m \<in> running p. n \<notin> set (succs (exclusions t) m))"
proof -
  have "running p \<subseteq> fmdom' (dependents t)"
    using assms mid_dom by (auto simp: running_def planner_inv_def)
  then show ?thesis
    by (auto simp: excluders_def tally_def running_def count_list_zero split: if_splits)
qed

text \<open>Everything before a completed node is completed.\<close>

lemma completed_ancestors:
  assumes inv: "planner_inv t p" and "unfinished t n p = 0" and "(m, n) \<in> (edges (dependents t))\<^sup>+"
  shows "state_of p m = Some Completed"
  using assms(3)
proof (induction rule: converse_trancl_induct)
  case (base m)
  then show ?case using unfinished_zero [OF assms(2)] by blast
next
  case (step m k)
  then have "unfinished t k p = 0"
    using inv_node [OF inv] by (fastforce simp: node_ok_def)
  then show ?case using unfinished_zero step.hyps(1) by blast
qed

text \<open>A node whose system ancestors are all finished has nothing unfinished before it.\<close>

lemma ancestors_finished:
  assumes inv: "planner_inv t p" and "n \<in> fmdom' (dependents t)"
    and "\<And>m. is_system m \<Longrightarrow> (m, n) \<in> (edges (dependents t))\<^sup>+ \<Longrightarrow> m \<in> finished p"
  shows "unfinished t n p = 0"
proof -
  have fin: "finite (edges (dependents t))"
    by (rule finite_subset [of _ "fmdom' (dependents t) \<times> fmdom' (dependents t)"])
      (use deps_closed in \<open>auto simp: closed_map_def edges_def intro: fmdom'I\<close>)
  have "wf (edges (dependents t))" using fin deps_acyclic by (rule finite_acyclic_wf)
  then show ?thesis
    using assms(2,3)
  proof (induction n rule: wf_induct_rule)
    case (less n)
    show ?case
    proof (rule unfinished_zeroI)
      fix m
      assume e: "(m, n) \<in> edges (dependents t)"
      then have m: "m \<in> fmdom' (dependents t)" by (auto simp: edges_def intro: fmdom'I)
      show "state_of p m = Some Completed"
      proof (cases "is_system m")
        case True
        with e less.prems(2) show ?thesis by (auto simp: finished_def)
      next
        case False
        have "unfinished t m p = 0"
          using less.IH [OF e m] less.prems(2) e by (meson trancl.trancl_into_trancl)
        moreover have "excluders t m p = 0"
          unfolding excluders_zero [OF inv] using excl_ok False by blast
        moreover obtain w where "state_of p m = Some w" "node_ok t p [] [] m w"
          using inv m unfolding planner_inv_def planner_mid_def by blast
        ultimately show ?thesis using False by (auto simp: node_ok_def split: wakeup.splits)
      qed
    qed
  qed
qed

lemma pending_iff:
  assumes inv: "planner_inv t p"
  shows "state_of p n = Some Pending \<longleftrightarrow> can_start t (running p) (finished p) n"
proof
  assume st: "state_of p n = Some Pending"
  from inv have mid: "planner_mid t p [] []" by (simp add: planner_inv_def)
  from mid_node [OF mid st] have ok: "is_system n" "unfinished t n p = 0" "excluders t n p = 0"
    by (auto simp: node_ok_def)
  then show "can_start t (running p) (finished p) n"
    using mid_dom [OF mid st] st completed_ancestors [OF inv ok(2)] excluders_zero [OF inv]
    by (simp add: can_start_def) (auto simp: running_def finished_def)
next
  assume cs: "can_start t (running p) (finished p) n"
  then have "unfinished t n p = 0"
    by (intro ancestors_finished [OF inv]) (auto simp: can_start_def)
  moreover have "excluders t n p = 0" using cs excluders_zero [OF inv] by (simp add: can_start_def)
  moreover obtain w where "state_of p n = Some w" "node_ok t p [] [] n w"
    using inv cs unfolding planner_inv_def planner_mid_def can_start_def by blast
  ultimately show "state_of p n = Some Pending"
    using cs by (auto simp: node_ok_def can_start_def running_def finished_def split: wakeup.splits)
qed

lemma remaining_zero:
  assumes "planner_inv t p"
  shows "remaining_systems p = 0 \<longleftrightarrow>
    (\<forall>n. is_system n \<and> n \<in> fmdom' (dependents t) \<longrightarrow> n \<in> finished p)"
  using assms
  by (auto simp: planner_inv_def open_systems_def tally_def finished_def split: if_splits)

lemma steal_ok:
  assumes inv: "planner_inv t p"
    and pool: "pool p = {i. state_of p (to_node i) = Some Pending}"
    and fin: "finite (pool p)"
    and put: "\<And>i m. state_of (set_pool (pool p - {i}) p) m = state_of p m"
      "\<And>i. remaining_systems (set_pool (pool p - {i}) p) = remaining_systems p"
      "\<And>i. send_runnable (set_pool (pool p - {i}) p) = send_runnable p - {j. SendSystem j = to_node i}"
      "\<And>i. unsend_runnable (set_pool (pool p - {i}) p) = unsend_runnable p - {j. UnsendSystem j = to_node i}"
  shows "\<exists>r p'. steal pool set_pool to_node t p = Inr (r, p') \<and> planner_inv t p' \<and>
    steal_spec t to_node p r p' \<and> remaining_systems p' = remaining_systems p"
proof (cases "remaining_systems p = 0")
  case True
  then show ?thesis
    using inv remaining_zero [OF inv] by (simp add: steal_def steal_spec_def)
next
  case rem: False
  show ?thesis
  proof (cases "bt_pop_first (pool p)")
    case None
    then have "state_of p (to_node i) \<noteq> Some Pending" for i using pool by auto
    then have "steal_spec t to_node p StealPending p"
      using rem remaining_zero [OF inv] by (simp add: steal_spec_def pending_iff [OF inv])
    moreover have "steal pool set_pool to_node t p = Inr (StealPending, p)"
      using None rem by (simp add: steal_def bt_pop_first_def)
    ultimately show ?thesis using inv by blast
  next
    case (Some a)
    obtain i rest where a: "a = (i, rest)" by (cases a)
    note pop = bt_pop_first_Some [OF Some [unfolded a] fin]
    let ?n = "to_node i" and ?p1 = "set_pool (pool p - {i}) p"
    from pop(1) pool have st: "state_of p ?n = Some Pending" by simp
    have sys: "is_system ?n"
      using inv_node [OF inv st] by (simp add: node_ok_def)
    have dom: "?n \<in> fmdom' (dependents t)"
      using inv st mid_dom by (auto simp: planner_inv_def)
    obtain p' where p': "fold_res block_exclusive (succs (exclusions t) ?n) (set_state ?n Started ?p1) = Inr p'"
      "planner_inv t p'" "remaining_systems p' = remaining_systems p"
      "\<forall>m. is_system m \<longrightarrow> (state_of p' m = Some Started \<longleftrightarrow> m = ?n \<or> state_of p m = Some Started) \<and>
         (state_of p' m = Some Completed \<longleftrightarrow> state_of p m = Some Completed)"
      using start_ok [OF inv st, of ?p1] put by blast
    have sysS: "state_of q m = Some Started \<Longrightarrow> is_system m" if "planner_inv t q" for q m
      using inv_node [OF that] by (fastforce simp: node_ok_def)
    have run: "running p' = insert ?n (running p)" and fi: "finished p' = finished p"
      using p'(4) sys sysS [OF inv] sysS [OF p'(2)] by (auto simp: running_def finished_def)
    have least: "state_of p (to_node j) \<noteq> Some Pending" if "j < i" for j
      using pop(3) pool that by auto
    have "steal pool set_pool to_node t p = Inr (StealReady i, p')"
      using rem Some a pop(2) put(1) st p'(1) exclusions_of_eq [OF dom] by (simp add: steal_def)
    moreover have "steal_spec t to_node p (StealReady i) p'"
      using st least run fi by (simp add: steal_spec_def pending_iff [OF inv])
    ultimately show ?thesis using p' by blast
  qed
qed

lemma finite_pools:
  assumes "planner_inv t p"
  shows "finite (send_runnable p)" "finite (unsend_runnable p)"
proof -
  have "SendSystem ` send_runnable p \<union> UnsendSystem ` unsend_runnable p \<subseteq> fmdom' (dependents t)"
    using assms by (auto simp: planner_inv_def planner_mid_def)
  then have "finite (SendSystem ` send_runnable p \<union> UnsendSystem ` unsend_runnable p)"
    by (rule finite_subset) simp
  then show "finite (send_runnable p)" "finite (unsend_runnable p)"
    by (auto dest: finite_imageD simp: inj_on_def)
qed

lemma steal_send_ok:
  assumes "planner_inv t p"
  shows "\<exists>r p'. steal_send t p = Inr (r, p') \<and> planner_inv t p' \<and> steal_spec t SendSystem p r p' \<and>
    remaining_systems p' = remaining_systems p"
  unfolding steal_send_def
  by (rule steal_ok [OF assms]) (use assms finite_pools [OF assms] in \<open>auto simp: planner_inv_def planner_mid_def\<close>)

lemma steal_unsend_ok:
  assumes "planner_inv t p"
  shows "\<exists>r p'. steal_unsend t p = Inr (r, p') \<and> planner_inv t p' \<and> steal_spec t UnsendSystem p r p' \<and>
    remaining_systems p' = remaining_systems p"
  unfolding steal_unsend_def
  by (rule steal_ok [OF assms]) (use assms finite_pools [OF assms] in \<open>auto simp: planner_inv_def planner_mid_def\<close>)

text \<open>Running systems do not exclude each other.\<close>

lemma running_independent:
  assumes inv: "planner_inv t p" and "m \<in> running p" and "n \<in> running p"
  shows "n \<notin> set (succs (exclusions t) m)"
proof -
  have "excluders t n p = 0"
    using inv_node [OF inv] assms(3) by (fastforce simp: running_def node_ok_def)
  with excluders_zero [OF inv] assms(2) show ?thesis by blast
qed

text \<open>What a started or completed node depends on is completed.\<close>

lemma dependencies_completed:
  assumes inv: "planner_inv t p" and "state_of p n = Some Started \<or> state_of p n = Some Completed"
    and "(m, n) \<in> (edges (dependents t))\<^sup>+"
  shows "state_of p m = Some Completed"
proof (rule completed_ancestors [OF inv _ assms(3)])
  show "unfinished t n p = 0"
    using inv_node [OF inv] assms(2) by (fastforce simp: node_ok_def)
qed

text \<open>With every system finished, every node is completed.\<close>

lemma all_completed:
  assumes inv: "planner_inv t p" and "remaining_systems p = 0" and n: "n \<in> fmdom' (dependents t)"
  shows "state_of p n = Some Completed"
proof (cases "is_system n")
  case True
  with assms show ?thesis by (auto simp: remaining_zero finished_def)
next
  case False
  have "unfinished t n p = 0"
  proof (rule ancestors_finished [OF inv n])
    fix m
    assume "is_system m" and mn: "(m, n) \<in> (edges (dependents t))\<^sup>+"
    have "m \<in> fmdom' (dependents t)"
      using mn by (induction rule: converse_trancl_induct) (auto simp: edges_def intro: fmdom'I)
    with assms(2) \<open>is_system m\<close> show "m \<in> finished p" by (simp add: remaining_zero [OF inv])
  qed
  moreover have "excluders t n p = 0"
    unfolding excluders_zero [OF inv] using excl_ok False by blast
  moreover obtain w where "state_of p n = Some w" "node_ok t p [] [] n w"
    using inv n unfolding planner_inv_def planner_mid_def by blast
  ultimately show ?thesis using False by (auto simp: node_ok_def split: wakeup.splits)
qed

text \<open>Progress: with nothing running and systems left, some system can start.\<close>

lemma something_runnable:
  assumes inv: "planner_inv t p" and "remaining_systems p \<noteq> 0" and idle: "running p = {}"
  shows "send_runnable p \<noteq> {} \<or> unsend_runnable p \<noteq> {}"
proof -
  let ?S = "{n. is_system n \<and> n \<in> fmdom' (dependents t) \<and> n \<notin> finished p}"
  have fin: "finite (edges (dependents t))"
    by (rule finite_subset [of _ "fmdom' (dependents t) \<times> fmdom' (dependents t)"])
      (use deps_closed in \<open>auto simp: closed_map_def edges_def intro: fmdom'I\<close>)
  have "acyclic ((edges (dependents t))\<^sup>+)" using deps_acyclic by (simp add: acyclic_def)
  moreover have "finite ((edges (dependents t))\<^sup>+)" using fin by simp
  ultimately have wf: "wf ((edges (dependents t))\<^sup>+)" by (simp add: finite_acyclic_wf)
  have "?S \<noteq> {}" using assms(2) by (auto simp: remaining_zero [OF inv])
  then obtain n where n: "n \<in> ?S" and min: "\<And>m. (m, n) \<in> (edges (dependents t))\<^sup>+ \<Longrightarrow> m \<notin> ?S"
    using wf by (metis (no_types, lifting) wf_eq_minimal ex_in_conv)
  have "can_start t (running p) (finished p) n"
    unfolding can_start_def idle
  proof (intro conjI allI impI)
    fix m
    assume m: "is_system m \<and> (m, n) \<in> (edges (dependents t))\<^sup>+"
    then have "m \<in> fmdom' (dependents t)"
      by (auto elim: converse_tranclE simp: edges_def intro: fmdom'I)
    with min m show "m \<in> finished p" by blast
  qed (use n in auto)
  then have "state_of p n = Some Pending" by (simp add: pending_iff [OF inv])
  with n inv show ?thesis by (cases n) (auto simp: planner_inv_def planner_mid_def)
qed

end

subsection \<open>Reachable planner states\<close>

text \<open>
  Within a cycle the planner is only touched under its mutex: threads steal systems in any order
  and complete those that run, in any order. These interleavings are the steps below.
\<close>

inductive planner_reach :: "'p topology \<Rightarrow> planner \<Rightarrow> bool" for t where
  init: "planner_reach t (initial_planner t)"
| steal_send: "planner_reach t p \<Longrightarrow> steal_send t p = Inr (r, p') \<Longrightarrow> planner_reach t p'"
| steal_unsend: "planner_reach t p \<Longrightarrow> steal_unsend t p = Inr (r, p') \<Longrightarrow> planner_reach t p'"
| complete: "planner_reach t p \<Longrightarrow> n \<in> running p \<Longrightarrow> complete t n p = Inr p' \<Longrightarrow> planner_reach t p'"

text \<open>A concrete interleaving, as a list of planner calls.\<close>

datatype planner_op = OpStealSend | OpStealUnsend | OpComplete node

fun planner_exec :: "'p topology \<Rightarrow> planner_op \<Rightarrow> planner \<Rightarrow> planner res" where
  "planner_exec t OpStealSend p = bind_res (steal_send t p) (\<lambda>(r, p'). Inr p')"
| "planner_exec t OpStealUnsend p = bind_res (steal_unsend t p) (\<lambda>(r, p'). Inr p')"
| "planner_exec t (OpComplete n) p = complete t n p"

definition planner_run :: "'p topology \<Rightarrow> planner_op list \<Rightarrow> planner res" where
  "planner_run t ops = fold_res (planner_exec t) ops (initial_planner t)"

lemma complete_needs_running: "complete t n p = Inr p' \<Longrightarrow> n \<in> running p"
  by (auto simp: complete_def running_def split: if_splits)

lemma planner_run_reach: "planner_run t ops = Inr p \<Longrightarrow> planner_reach t p"
proof -
  assume r: "planner_run t ops = Inr p"
  have step: "planner_exec t op q = Inr q' \<Longrightarrow> planner_reach t q \<Longrightarrow> planner_reach t q'" for op q q'
    by (cases op) (auto intro: planner_reach.intros dest: complete_needs_running)
  show ?thesis
    using fold_res_keeps [OF r [unfolded planner_run_def], of "planner_reach t"] step
    by (blast intro: planner_reach.init)
qed

context schedule
begin

lemma reach_inv: "planner_reach t p \<Longrightarrow> planner_inv t p"
proof (induction rule: planner_reach.induct)
  case init
  show ?case by (rule init_inv)
next
  case (steal_send p r p')
  with steal_send_ok [of p] show ?case by auto
next
  case (steal_unsend p r p')
  with steal_unsend_ok [of p] show ?case by auto
next
  case (complete p n p')
  with complete_ok [of p n] show ?case by (auto simp: running_def)
qed

lemma steal_pending_empty:
  assumes "planner_inv t p" and "remaining_systems p \<noteq> 0"
  shows "send_runnable p \<noteq> {} \<Longrightarrow> \<exists>i p'. steal_send t p = Inr (StealReady i, p') \<and> planner_inv t p' \<and>
      SendSystem i \<in> running p' \<and> remaining_systems p' = remaining_systems p"
    and "unsend_runnable p \<noteq> {} \<Longrightarrow> \<exists>i p'. steal_unsend t p = Inr (StealReady i, p') \<and> planner_inv t p' \<and>
      UnsendSystem i \<in> running p' \<and> remaining_systems p' = remaining_systems p"
proof -
  have pools: "send_runnable p = {i. state_of p (SendSystem i) = Some Pending}"
    "unsend_runnable p = {i. state_of p (UnsendSystem i) = Some Pending}"
    using assms(1) by (simp_all add: planner_inv_def planner_mid_def)
  have open_sys: "\<not> (\<forall>n. is_system n \<and> n \<in> fmdom' (dependents t) \<longrightarrow> n \<in> finished p)"
    using assms by (simp add: remaining_zero)
  {
    assume "send_runnable p \<noteq> {}"
    then obtain i where "can_start t (running p) (finished p) (SendSystem i)"
      using pools pending_iff [OF assms(1)] by auto
    with open_sys steal_send_ok [OF assms(1)]
    show "\<exists>i p'. steal_send t p = Inr (StealReady i, p') \<and> planner_inv t p' \<and>
      SendSystem i \<in> running p' \<and> remaining_systems p' = remaining_systems p"
      by (fastforce simp: steal_spec_def split: steal_result.splits)
  }
  {
    assume "unsend_runnable p \<noteq> {}"
    then obtain i where "can_start t (running p) (finished p) (UnsendSystem i)"
      using pools pending_iff [OF assms(1)] by auto
    with open_sys steal_unsend_ok [OF assms(1)]
    show "\<exists>i p'. steal_unsend t p = Inr (StealReady i, p') \<and> planner_inv t p' \<and>
      UnsendSystem i \<in> running p' \<and> remaining_systems p' = remaining_systems p"
      by (fastforce simp: steal_spec_def split: steal_result.splits)
  }
qed

text \<open>From every state some interleaving finishes the cycle.\<close>

lemma can_finish:
  assumes "planner_inv t p"
  shows "\<exists>ops p'. fold_res (planner_exec t) ops p = Inr p' \<and> planner_inv t p' \<and> remaining_systems p' = 0"
  using assms
proof (induction "remaining_systems p" arbitrary: p)
  case 0
  then show ?case by (intro exI [of _ "[]"]) simp
next
  case (Suc k)
  obtain ops1 p1 n where 1: "fold_res (planner_exec t) ops1 p = Inr p1" "planner_inv t p1"
    "remaining_systems p1 = Suc k" "n \<in> running p1"
  proof (cases "running p = {}")
    case True
    with something_runnable [OF Suc.prems] Suc.hyps(2)
    consider "send_runnable p \<noteq> {}" | "unsend_runnable p \<noteq> {}" by auto
    then show thesis
    proof cases
      case 1
      with steal_pending_empty(1) [OF Suc.prems] Suc.hyps(2) that [of "[OpStealSend]"] show thesis by fastforce
    next
      case 2
      with steal_pending_empty(2) [OF Suc.prems] Suc.hyps(2) that [of "[OpStealUnsend]"] show thesis by fastforce
    qed
  next
    case False
    with that [of "[]" p] Suc show thesis by auto
  qed
  from complete_ok [OF 1(2), of n] 1(4) obtain p2 where
    2: "complete t n p1 = Inr p2" "planner_inv t p2" "remaining_systems p2 + 1 = remaining_systems p1"
    by (auto simp: running_def)
  with 1(3) Suc.hyps(1) [of p2] obtain ops3 p3 where
    3: "fold_res (planner_exec t) ops3 p2 = Inr p3" "planner_inv t p3" "remaining_systems p3 = 0" by auto
  have "fold_res (planner_exec t) (ops1 @ OpComplete n # ops3) p = Inr p3"
    using 1(1) 2(1) 3(1) by (simp add: fold_res_append)
  with 3 show ?case by blast
qed

end

end
