(* ===== verification/Sched_Builder.thy ===== *)
theory Sched_Builder
  imports Planner "HOL-Library.AList"
begin

section \<open>The schedule builder\<close>

text \<open>
  \<^verbatim>\<open>src/scheduler/builder.rs\<close>: systems and partitions are pushed, resources and dependencies are
  recorded, and \<open>build\<close> makes the topology and the first planner. The \<open>IndexSet\<close> of partitions
  is a distinct list, the nested \<open>HashMap\<close> of resources an association list of association
  lists, and a system is represented by its debug name. Proved here: every builder that only
  used its own nodes builds a topology that meets the planner's contract, or panics with a
  dependency cycle; and the exclusions of that topology are exactly the conflicts between the
  recorded accesses.
\<close>

record ('t, 'p) builder =
  concurrency :: nat
  send_systems :: "string list"
  unsend_systems :: "string list"
  builder_partitions :: "'p list"
  resources :: "'t resources"
  orders :: "sched_order list"

datatype 'p dependency = Before 'p | After 'p

record 'p scheduler =
  sched_topology :: "'p topology"
  sched_planner :: planner
  sched_concurrency :: nat
  sync_state :: "string list"
  unsync_state :: "string list"

definition builder_new :: "nat \<Rightarrow> ('t, 'p) builder" where
  "builder_new n =
     \<lparr>concurrency = n, send_systems = [], unsend_systems = [], builder_partitions = [],
      resources = [], orders = []\<rparr>"

definition push_send_system :: "string \<Rightarrow> ('t, 'p) builder \<Rightarrow> node \<times> ('t, 'p) builder" where
  "push_send_system name b =
     (SendSystem (length (send_systems b)), b\<lparr>send_systems := send_systems b @ [name]\<rparr>)"

definition push_unsend_system :: "string \<Rightarrow> ('t, 'p) builder \<Rightarrow> node \<times> ('t, 'p) builder" where
  "push_unsend_system name b =
     (UnsendSystem (length (unsend_systems b)), b\<lparr>unsend_systems := unsend_systems b @ [name]\<rparr>)"

text \<open>\<open>IndexSet::insert_full\<close>: the index of an equal value, or of a new last one.\<close>

definition push_partition :: "'p \<Rightarrow> ('t, 'p) builder \<Rightarrow> node \<times> ('t, 'p) builder" where
  "push_partition par b =
     (case position par (builder_partitions b) of
        Some i \<Rightarrow> (Partition i, b)
      | None \<Rightarrow> (Partition (length (builder_partitions b)),
                 b\<lparr>builder_partitions := builder_partitions b @ [par]\<rparr>))"

definition use_resource ::
    "node \<Rightarrow> 't resource_type \<Rightarrow> resource_access \<Rightarrow> ('t, 'p) builder \<Rightarrow> ('t, 'p) builder res" where
  "use_resource node ty access b =
     (let users = (case map_of (resources b) ty of None \<Rightarrow> [] | Some users \<Rightarrow> users) in
      case map_of users node of
        None \<Rightarrow>
          Inr (b\<lparr>resources := AList.update ty (AList.update node [access] users) (resources b)\<rparr>)
      | Some others \<Rightarrow>
          if \<exists>other \<in> set others. conflicts access other then Inl AccessConflict
          else Inr (b\<lparr>resources :=
            AList.update ty (AList.update node (others @ [access]) users) (resources b)\<rparr>))"

definition add_dependency :: "node \<Rightarrow> node \<Rightarrow> ('t, 'p) builder \<Rightarrow> ('t, 'p) builder" where
  "add_dependency bef aft b = b\<lparr>orders := orders b @ [\<lparr>before = bef, after = aft\<rparr>]\<rparr>"

fun add_dependencies ::
    "'p dependency list \<Rightarrow> node \<Rightarrow> ('t, 'p) builder \<Rightarrow> ('t, 'p) builder" where
  "add_dependencies [] system_node b = b"
| "add_dependencies (Before par # deps) system_node b =
     (case push_partition par b of (par_node, b1) \<Rightarrow>
        add_dependencies deps system_node (add_dependency system_node par_node b1))"
| "add_dependencies (After par # deps) system_node b =
     (case push_partition par b of (par_node, b1) \<Rightarrow>
        add_dependencies deps system_node (add_dependency par_node system_node b1))"

definition build :: "node hash_order \<Rightarrow> ('t, 'p) builder \<Rightarrow> 'p scheduler res option" where
  "build ho b =
     map_option (\<lambda>r. bind_res r (\<lambda>t0.
       let t = t0\<lparr>partitions := builder_partitions b\<rparr> in
       Inr \<lparr>sched_topology = t, sched_planner = initial_planner t,
            sched_concurrency = concurrency b, sync_state = send_systems b,
            unsync_state = unsend_systems b\<rparr>))
       (topology_init ho (length (send_systems b)) (length (unsend_systems b))
          (length (builder_partitions b)) (orders b) (resources b))"

subsection \<open>The builder's invariant\<close>

definition builder_nodes :: "('t, 'p) builder \<Rightarrow> node list" where
  "builder_nodes b =
     nodes_iter (length (send_systems b)) (length (unsend_systems b)) (length (builder_partitions b))"

definition builder_system :: "('t, 'p) builder \<Rightarrow> node \<Rightarrow> bool" where
  "builder_system b n \<longleftrightarrow> is_system n \<and> n \<in> set (builder_nodes b)"

definition accesses_of :: "('t, 'p) builder \<Rightarrow> 't resource_type \<Rightarrow> node \<Rightarrow> resource_access list" where
  "accesses_of b ty n =
     (case map_of (resources b) ty of
        None \<Rightarrow> []
      | Some users \<Rightarrow> (case map_of users n of None \<Rightarrow> [] | Some as \<Rightarrow> as))"

definition builder_wf :: "('t, 'p) builder \<Rightarrow> bool" where
  "builder_wf b \<longleftrightarrow>
     valid_orders (builder_nodes b) (orders b) \<and> distinct (builder_partitions b) \<and>
     distinct (map fst (resources b)) \<and>
     (\<forall>(ty, users) \<in> set (resources b). distinct (map fst users) \<and>
        (\<forall>(n, as) \<in> set users. builder_system b n))"

lemma builder_system_iff:
  "builder_system b n \<longleftrightarrow>
     (case n of SendSystem i \<Rightarrow> i < length (send_systems b)
      | UnsendSystem i \<Rightarrow> i < length (unsend_systems b) | Partition _ \<Rightarrow> False)"
  by (auto simp: builder_system_def builder_nodes_def set_nodes_iter split: node.splits)

lemma in_builder_nodes:
  "n \<in> set (builder_nodes b) \<longleftrightarrow>
     (case n of SendSystem i \<Rightarrow> i < length (send_systems b)
      | UnsendSystem i \<Rightarrow> i < length (unsend_systems b)
      | Partition i \<Rightarrow> i < length (builder_partitions b))"
  by (auto simp: builder_nodes_def set_nodes_iter split: node.splits)

lemma builder_wf_new: "builder_wf (builder_new n)"
  by (simp add: builder_wf_def builder_new_def valid_orders_def)

text \<open>Growing the lists of systems or partitions keeps every node known.\<close>

lemma builder_wf_grow:
  assumes "builder_wf b" and "set (builder_nodes b) \<subseteq> set (builder_nodes b')"
    and "orders b' = orders b" "resources b' = resources b" "distinct (builder_partitions b')"
  shows "builder_wf b'"
  using assms unfolding builder_wf_def valid_orders_def builder_system_def
  by (simp add: split_beta) blast

lemma push_send_system_wf:
  assumes "builder_wf b" and "push_send_system name b = (n, b')"
  shows "builder_wf b' \<and> builder_system b' n \<and> set (builder_nodes b) \<subseteq> set (builder_nodes b')"
proof -
  have b': "b' = b\<lparr>send_systems := send_systems b @ [name]\<rparr>" and n: "n = SendSystem (length (send_systems b))"
    using assms(2) by (auto simp: push_send_system_def)
  have sub: "set (builder_nodes b) \<subseteq> set (builder_nodes b')"
    by (auto simp: in_builder_nodes b' split: node.splits)
  then have "builder_wf b'"
    by (rule builder_wf_grow [OF assms(1)]) (use assms(1) in \<open>auto simp: b' builder_wf_def\<close>)
  with sub show ?thesis by (simp add: builder_system_iff n b')
qed

lemma push_unsend_system_wf:
  assumes "builder_wf b" and "push_unsend_system name b = (n, b')"
  shows "builder_wf b' \<and> builder_system b' n \<and> set (builder_nodes b) \<subseteq> set (builder_nodes b')"
proof -
  have b': "b' = b\<lparr>unsend_systems := unsend_systems b @ [name]\<rparr>" and n: "n = UnsendSystem (length (unsend_systems b))"
    using assms(2) by (auto simp: push_unsend_system_def)
  have sub: "set (builder_nodes b) \<subseteq> set (builder_nodes b')"
    by (auto simp: in_builder_nodes b' split: node.splits)
  then have "builder_wf b'"
    by (rule builder_wf_grow [OF assms(1)]) (use assms(1) in \<open>auto simp: b' builder_wf_def\<close>)
  with sub show ?thesis by (simp add: builder_system_iff n b')
qed

lemma push_partition_wf:
  assumes "builder_wf b" and "push_partition par b = (n, b')"
  shows "builder_wf b'" and "set (builder_nodes b) \<subseteq> set (builder_nodes b')"
    and "\<exists>i. n = Partition i \<and> i < length (builder_partitions b') \<and> builder_partitions b' ! i = par"
    and "resources b' = resources b" "orders b' = orders b" "send_systems b' = send_systems b"
    "unsend_systems b' = unsend_systems b" "\<exists>ps. builder_partitions b' = builder_partitions b @ ps"
proof -
  show sub: "set (builder_nodes b) \<subseteq> set (builder_nodes b')"
    using assms(2) by (auto simp: push_partition_def in_builder_nodes split: option.splits node.splits)
  show "\<exists>i. n = Partition i \<and> i < length (builder_partitions b') \<and> builder_partitions b' ! i = par"
    using assms(2) by (auto simp: push_partition_def dest: position_Some split: option.splits)
  show same: "resources b' = resources b" "orders b' = orders b" "send_systems b' = send_systems b"
    "unsend_systems b' = unsend_systems b" "\<exists>ps. builder_partitions b' = builder_partitions b @ ps"
    using assms(2) by (auto simp: push_partition_def split: option.splits)
  have "distinct (builder_partitions b')"
    using assms by (auto simp: push_partition_def builder_wf_def split: option.splits)
  with sub same show "builder_wf b'" by (intro builder_wf_grow [OF assms(1)])
qed

lemma distinct_map_of_all:
  "distinct (map fst al) \<Longrightarrow> (\<forall>(k, v) \<in> set al. P k v) \<longleftrightarrow> (\<forall>k v. map_of al k = Some v \<longrightarrow> P k v)"
  by (fastforce simp: map_of_eq_Some_iff)

lemma builder_wf_alt:
  "builder_wf b \<longleftrightarrow>
     valid_orders (builder_nodes b) (orders b) \<and> distinct (builder_partitions b) \<and>
     distinct (map fst (resources b)) \<and>
     (\<forall>ty users. map_of (resources b) ty = Some users \<longrightarrow> distinct (map fst users) \<and>
        (\<forall>n as. map_of users n = Some as \<longrightarrow> builder_system b n))"
proof -
  have "(\<forall>(ty, users) \<in> set (resources b). distinct (map fst users) \<and>
          (\<forall>(n, as) \<in> set users. builder_system b n)) \<longleftrightarrow>
        (\<forall>(ty, users) \<in> set (resources b). distinct (map fst users) \<and>
          (\<forall>n as. map_of users n = Some as \<longrightarrow> builder_system b n))"
    by (rule ball_cong [OF refl], clarify, rule conj_cong [OF refl],
        rule distinct_map_of_all [where P = "\<lambda>n as. builder_system b n"])
  then show ?thesis unfolding builder_wf_def by (auto simp: distinct_map_of_all)
qed

lemma use_resource_ok:
  assumes wf: "builder_wf b" and n: "builder_system b n"
  shows "if \<exists>other \<in> set (accesses_of b ty n). conflicts access other
    then use_resource n ty access b = Inl AccessConflict
    else \<exists>b'. use_resource n ty access b = Inr b' \<and> builder_wf b' \<and>
      (\<forall>ty' n'. accesses_of b' ty' n' =
         (if ty' = ty \<and> n' = n then accesses_of b ty n @ [access] else accesses_of b ty' n')) \<and>
      orders b' = orders b \<and> send_systems b' = send_systems b \<and>
      unsend_systems b' = unsend_systems b \<and> builder_partitions b' = builder_partitions b"
proof -
  let ?users = "case map_of (resources b) ty of None \<Rightarrow> [] | Some users \<Rightarrow> users"
  let ?as = "accesses_of b ty n @ [access]"
  let ?b' = "b\<lparr>resources := AList.update ty (AList.update n ?as ?users) (resources b)\<rparr>"
  have acc: "accesses_of b ty n' = (case map_of ?users n' of None \<Rightarrow> [] | Some as \<Rightarrow> as)" for n'
    by (simp add: accesses_of_def split: option.splits)
  have eq: "use_resource n ty access b =
      (if \<exists>other \<in> set (accesses_of b ty n). conflicts access other then Inl AccessConflict else Inr ?b')"
    unfolding acc by (auto simp: use_resource_def Let_def split: option.splits)
  have d: "distinct (map fst (AList.update ty (AList.update n ?as ?users) (resources b)))"
    using wf by (intro distinct_update) (simp add: builder_wf_def)
  have u: "distinct (map fst ?users) \<and> (\<forall>n as. map_of ?users n = Some as \<longrightarrow> builder_system b n)"
    using wf by (auto simp: builder_wf_alt split: option.splits)
  have nodes: "builder_nodes ?b' = builder_nodes b" by (simp add: builder_nodes_def)
  then have sys: "builder_system ?b' m = builder_system b m" for m by (simp add: builder_system_def)
  have wf': "builder_wf ?b'"
    using wf d u n unfolding builder_wf_alt nodes sys
    by (simp add: update_conv' distinct_update)
  have acc': "accesses_of ?b' ty' n' = (if ty' = ty \<and> n' = n then ?as else accesses_of b ty' n')" for ty' n'
  proof (cases "ty' = ty")
    case True
    then have "accesses_of ?b' ty' n' = (case map_of (AList.update n ?as ?users) n' of None \<Rightarrow> [] | Some as \<Rightarrow> as)"
      by (simp add: accesses_of_def update_conv')
    with True acc [of n'] show ?thesis by (simp add: update_conv')
  next
    case False
    then show ?thesis by (simp add: accesses_of_def update_conv')
  qed
  show ?thesis
    unfolding eq using wf' acc' by auto
qed

text \<open>Conflicts between users, read off the recorded accesses.\<close>

lemma users_conflict_accesses:
  assumes "builder_wf b"
  shows "users_conflict (resources b) n1 n2 \<longleftrightarrow>
    n1 \<noteq> n2 \<and> (\<exists>ty. \<exists>a1 \<in> set (accesses_of b ty n1). \<exists>a2 \<in> set (accesses_of b ty n2). conflicts a1 a2)"
proof -
  have r: "(ty, users) \<in> set (resources b) \<longleftrightarrow> map_of (resources b) ty = Some users" for ty users
    using assms by (auto simp: builder_wf_def map_of_eq_Some_iff)
  have u: "(n, as) \<in> set users \<longleftrightarrow> map_of users n = Some as"
    if "map_of (resources b) ty = Some users" for ty users n as
    using assms that by (auto simp: builder_wf_alt map_of_eq_Some_iff)
  have "(\<exists>(ty, users) \<in> set (resources b). \<exists>as1 as2. (n1, as1) \<in> set users \<and> (n2, as2) \<in> set users \<and>
          (\<exists>a \<in> set as1. \<exists>b \<in> set as2. conflicts a b)) \<longleftrightarrow>
        (\<exists>ty. \<exists>a1 \<in> set (accesses_of b ty n1). \<exists>a2 \<in> set (accesses_of b ty n2). conflicts a1 a2)"
    (is "?L \<longleftrightarrow> ?R")
  proof
    assume ?L
    then obtain ty users as1 as2 where *: "map_of (resources b) ty = Some users"
      "map_of users n1 = Some as1" "map_of users n2 = Some as2" "\<exists>a \<in> set as1. \<exists>b \<in> set as2. conflicts a b"
      using r u by fastforce
    then have "accesses_of b ty n1 = as1" "accesses_of b ty n2 = as2" by (simp_all add: accesses_of_def)
    with * show ?R by blast
  next
    assume ?R
    then obtain ty a1 a2 where a: "a1 \<in> set (accesses_of b ty n1)" "a2 \<in> set (accesses_of b ty n2)"
      "conflicts a1 a2" by blast
    then obtain users where us: "map_of (resources b) ty = Some users"
      by (cases "map_of (resources b) ty") (auto simp: accesses_of_def)
    with a(1) obtain as1 where "map_of users n1 = Some as1" "a1 \<in> set as1"
      by (cases "map_of users n1") (auto simp: accesses_of_def)
    moreover from us a(2) obtain as2 where "map_of users n2 = Some as2" "a2 \<in> set as2"
      by (cases "map_of users n2") (auto simp: accesses_of_def)
    ultimately show ?L using r u us a(3) by blast
  qed
  then show ?thesis by (simp add: users_conflict_def)
qed

text \<open>The orders that a list of dependencies asks for, with partitions named by value.\<close>

definition par_node :: "('t, 'p) builder \<Rightarrow> 'p \<Rightarrow> node \<Rightarrow> bool" where
  "par_node b par n \<longleftrightarrow>
     (\<exists>i < length (builder_partitions b). builder_partitions b ! i = par \<and> n = Partition i)"

definition has_order :: "('t, 'p) builder \<Rightarrow> node \<Rightarrow> 'p dependency \<Rightarrow> bool" where
  "has_order b n dep \<longleftrightarrow>
     (case dep of
        Before par \<Rightarrow> \<exists>k. par_node b par k \<and> \<lparr>before = n, after = k\<rparr> \<in> set (orders b)
      | After par \<Rightarrow> \<exists>k. par_node b par k \<and> \<lparr>before = k, after = n\<rparr> \<in> set (orders b))"

definition builder_extends :: "('t, 'p) builder \<Rightarrow> ('t, 'p) builder \<Rightarrow> bool" where
  "builder_extends b b' \<longleftrightarrow>
     (\<exists>xs. send_systems b' = send_systems b @ xs) \<and>
     (\<exists>xs. unsend_systems b' = unsend_systems b @ xs) \<and>
     (\<exists>xs. builder_partitions b' = builder_partitions b @ xs) \<and>
     (\<exists>xs. orders b' = orders b @ xs) \<and>
     (\<forall>ty n. set (accesses_of b ty n) \<subseteq> set (accesses_of b' ty n))"

lemma builder_extends_refl [simp]: "builder_extends b b"
  by (simp add: builder_extends_def)

lemma builder_extends_trans:
  "builder_extends a b \<Longrightarrow> builder_extends b c \<Longrightarrow> builder_extends a c"
  unfolding builder_extends_def by (elim conjE exE) (simp, blast)

lemma par_node_extends: "builder_extends b b' \<Longrightarrow> par_node b par n \<Longrightarrow> par_node b' par n"
  by (fastforce simp: par_node_def builder_extends_def nth_append)

lemma has_order_extends: "builder_extends b b' \<Longrightarrow> has_order b n dep \<Longrightarrow> has_order b' n dep"
  using par_node_extends [of b b']
  by (cases dep) (fastforce simp: has_order_def builder_extends_def)+

lemma builder_system_extends: "builder_extends b b' \<Longrightarrow> builder_system b n \<Longrightarrow> builder_system b' n"
  by (auto simp: builder_extends_def builder_system_iff split: node.splits)

lemma add_order_wf:
  assumes "builder_wf b" and "builder_system b n" and "par_node b par k"
    and "b' = add_dependency n k b \<or> b' = add_dependency k n b"
  shows "builder_wf b' \<and> builder_extends b b'"
proof -
  have nodes: "builder_nodes b' = builder_nodes b" and sys: "builder_system b' = builder_system b"
    using assms(4) by (auto simp: add_dependency_def builder_nodes_def builder_system_def fun_eq_iff)
  have k: "k \<in> set (builder_nodes b)" "\<not> is_system k"
    using assms(3) by (auto simp: par_node_def in_builder_nodes)
  have n: "n \<in> set (builder_nodes b)" "is_system n" using assms(2) by (auto simp: builder_system_def)
  have same: "resources b' = resources b" "builder_partitions b' = builder_partitions b"
    "send_systems b' = send_systems b" "unsend_systems b' = unsend_systems b" "\<exists>x. orders b' = orders b @ [x]"
    using assms(4) by (auto simp: add_dependency_def)
  have "valid_orders (builder_nodes b) (orders b')"
    using assms(1,4) k n by (auto simp: builder_wf_def valid_orders_def add_dependency_def)
  then have "builder_wf b'" using assms(1) same by (simp add: builder_wf_def nodes sys)
  with same show ?thesis by (auto simp: builder_extends_def accesses_of_def)
qed

lemma push_partition_ok:
  assumes "builder_wf b" and "push_partition par b = (k, b')"
  shows "builder_wf b' \<and> builder_extends b b' \<and> par_node b' par k"
  using push_partition_wf [OF assms]
  by (auto simp: builder_extends_def par_node_def accesses_of_def)

lemma add_dependencies_ok:
  assumes "builder_wf b" and "builder_system b n"
  shows "builder_wf (add_dependencies deps n b) \<and> builder_extends b (add_dependencies deps n b) \<and>
    (\<forall>dep \<in> set deps. has_order (add_dependencies deps n b) n dep)"
  using assms
proof (induction deps n b rule: add_dependencies.induct)
  case (1 n b)
  then show ?case by simp
next
  case (2 par deps n b)
  obtain k b1 where pp: "push_partition par b = (k, b1)" by (cases "push_partition par b")
  note p1 = push_partition_ok [OF "2.prems"(1) pp]
  let ?b2 = "add_dependency n k b1"
  have n1: "builder_system b1 n"
    by (rule builder_system_extends [OF _ "2.prems"(2)]) (use p1 in simp)
  have b2: "builder_wf ?b2" "builder_extends b1 ?b2"
    using add_order_wf [of b1 n par k ?b2] p1 n1 by auto
  have "par_node ?b2 par k" by (rule par_node_extends [OF b2(2)]) (use p1 in simp)
  then have ord: "has_order ?b2 n (Before par)" by (auto simp: has_order_def add_dependency_def)
  have n2: "builder_system ?b2 n" by (rule builder_system_extends [OF b2(2) n1])
  note IH = "2.IH" [OF pp [symmetric] b2(1) n2]
  have ext: "builder_extends b ?b2" by (rule builder_extends_trans [OF _ b2(2)]) (use p1 in simp)
  have eq: "add_dependencies (Before par # deps) n b = add_dependencies deps n ?b2" using pp by simp
  have e: "builder_extends ?b2 (add_dependencies deps n ?b2)" using IH by blast
  show ?case
    unfolding eq using IH has_order_extends [OF e ord] builder_extends_trans [OF ext e] by simp
next
  case (3 par deps n b)
  obtain k b1 where pp: "push_partition par b = (k, b1)" by (cases "push_partition par b")
  note p1 = push_partition_ok [OF "3.prems"(1) pp]
  let ?b2 = "add_dependency k n b1"
  have n1: "builder_system b1 n"
    by (rule builder_system_extends [OF _ "3.prems"(2)]) (use p1 in simp)
  have b2: "builder_wf ?b2" "builder_extends b1 ?b2"
    using add_order_wf [of b1 n par k ?b2] p1 n1 by auto
  have "par_node ?b2 par k" by (rule par_node_extends [OF b2(2)]) (use p1 in simp)
  then have ord: "has_order ?b2 n (After par)" by (auto simp: has_order_def add_dependency_def)
  have n2: "builder_system ?b2 n" by (rule builder_system_extends [OF b2(2) n1])
  note IH = "3.IH" [OF pp [symmetric] b2(1) n2]
  have ext: "builder_extends b ?b2" by (rule builder_extends_trans [OF _ b2(2)]) (use p1 in simp)
  have eq: "add_dependencies (After par # deps) n b = add_dependencies deps n ?b2" using pp by simp
  have e: "builder_extends ?b2 (add_dependencies deps n ?b2)" using IH by blast
  show ?case
    unfolding eq using IH has_order_extends [OF e ord] builder_extends_trans [OF ext e] by simp
qed

subsection \<open>A built topology meets the planner's contract\<close>

lemma topology_for_schedule_graph:
  assumes wf: "builder_wf b" and t: "topology_for (builder_nodes b) (orders b) (resources b) t"
    and par: "partitions t = builder_partitions b"
  shows "schedule_graph t"
proof
  from t have dom: "fmdom' (dependents t) = set (builder_nodes b)"
    and su: "succs (dependents t) = out_list (orders b)"
    by (simp_all add: topology_for_def)
  show "fmdom' (exclusions t) = fmdom' (dependents t)" "acyclic (edges (dependents t))"
    using t by (simp_all add: topology_for_def)
  show "closed_map (dependents t)"
    using wf by (auto simp: closed_map_def edges_succs su dom out_list_def builder_wf_def valid_orders_def)
  show "i < length (partitions t)" if "Partition i \<in> fmdom' (dependents t)" for i
    using that by (simp add: dom in_builder_nodes par)
  fix m n
  assume mn: "m \<in> set (succs (exclusions t) n)"
  have n: "n \<in> set (builder_nodes b)"
    using succs_dom [OF mn] t by (simp add: topology_for_def)
  with mn t have uc: "users_conflict (resources b) n m" by (auto simp: topology_for_def)
  then have sys: "builder_system b n" "builder_system b m"
    using wf by (fastforce simp: users_conflict_def builder_wf_def)+
  then have "n \<in> set (succs (exclusions t) m)"
    using t uc users_conflict_sym by (auto simp: topology_for_def builder_system_def)
  with sys uc show "is_system m \<and> is_system n \<and> m \<noteq> n \<and> m \<in> fmdom' (dependents t) \<and>
      n \<in> set (succs (exclusions t) m)"
    by (auto simp: builder_system_def dom users_conflict_def)
qed

lemma initial_state:
  assumes "topology_for nodes ords rs t"
  shows "state_of (initial_planner t) n =
    (if n \<in> set nodes then Some (initial_wakeup n (initial_count nodes ords n)) else None)"
  using assms by (simp add: topology_for_def state_of_def)

text \<open>The initial counts are the numbers of unfinished dependencies of the initial planner.\<close>

lemma initial_unfinished:
  assumes t: "topology_for nodes ords rs t" and ords: "valid_orders nodes ords"
  shows "unfinished t n (initial_planner t) = initial_count nodes ords n"
proof -
  have comp: "state_of (initial_planner t) m = Some Completed \<longleftrightarrow> m \<in> depless nodes ords" if "m \<in> set nodes" for m
    using that initial_count_partition [OF ords]
    by (auto simp: initial_state [OF t] initial_wakeup_def depless_def)
  have "unfinished t n (initial_planner t) =
      (\<Sum>m \<in> set nodes. if m \<in> depless nodes ords then 0 else count_list (out_list ords m) n)"
    unfolding unfinished_def tally_def
    by (rule sum.cong) (use t comp in \<open>auto simp: topology_for_def\<close>)
  also have "\<dots> = (\<Sum>m \<in> set nodes - depless nodes ords. count_list (out_list ords m) n)"
    by (rule sum.mono_neutral_cong_right) auto
  finally show ?thesis by (simp add: initial_count_def)
qed

lemma initial_excluders:
  assumes t: "topology_for nodes ords rs t"
  shows "excluders t n (initial_planner t) = 0"
  unfolding excluders_def tally_def
  by (auto simp: initial_state [OF t] initial_wakeup_def split: if_splits)

lemma initial_open_systems:
  assumes t: "topology_for nodes ords rs t" and "distinct nodes"
  shows "open_systems t (initial_planner t) = length (filter is_system nodes)"
proof -
  have "open_systems t (initial_planner t) = (\<Sum>m \<in> set nodes. if is_system m then 1 else 0)"
    unfolding open_systems_def tally_def
    by (rule sum.cong) (use t in \<open>auto simp: initial_state [OF t] initial_wakeup_def topology_for_def\<close>)
  also have "\<dots> = card (set (filter is_system nodes))"
    by (simp add: sum.If_cases Collect_conj_eq Int_commute)
  finally show ?thesis using assms(2) by (simp add: distinct_card del: set_filter)
qed

lemma initial_planner_inv:
  assumes t: "topology_for nodes ords rs t" and ords: "valid_orders nodes ords" and "distinct nodes"
  shows "planner_inv t (initial_planner t)"
proof -
  have dom: "fmdom' (dependents t) = set nodes" using t by (simp add: topology_for_def)
  have ok: "node_ok t (initial_planner t) [] [] n w" if "state_of (initial_planner t) n = Some w" for n w
    using that
    by (auto simp: node_ok_def initial_state [OF t] initial_wakeup_def initial_unfinished [OF t ords]
        initial_excluders [OF t] split: if_splits)
  have pools: "send_runnable (initial_planner t) = {i. state_of (initial_planner t) (SendSystem i) = Some Pending}"
    "unsend_runnable (initial_planner t) = {i. state_of (initial_planner t) (UnsendSystem i) = Some Pending}"
    using t by (auto simp: topology_for_def state_of_def initial_wakeup_def)
  have "remaining_systems (initial_planner t) = open_systems t (initial_planner t)"
    using t initial_open_systems [OF t assms(3)] by (simp add: topology_for_def)
  with ok pools show ?thesis
    by (auto simp: planner_inv_def planner_mid_def dom initial_state [OF t] split: if_splits)
qed

lemma topology_for_partitions:
  "topology_for nodes ords rs (t\<lparr>partitions := ps\<rparr>) = topology_for nodes ords rs t"
  by (simp add: topology_for_def)

lemma build_outcome:
  fixes b :: "('a, 'b) builder"
  assumes wf: "builder_wf b" and ho: "hash_order_ok ho"
  shows "(\<exists>s. build ho b = Some (Inr s) \<and>
            topology_for (builder_nodes b) (orders b) (resources b) (sched_topology s) \<and>
            partitions (sched_topology s) = builder_partitions b \<and>
            sched_planner s = initial_planner (sched_topology s) \<and> sched_concurrency s = concurrency b) \<or>
         (\<exists>p. build ho b = Some (Inl (CyclicDependency p)) \<and>
            2 \<le> length p \<and> hd p = last p \<and> successively (\<lambda>a c. c \<in> set (out_list (orders b) a)) p)"
proof -
  let ?ns = "length (send_systems b)" and ?nu = "length (unsend_systems b)"
    and ?np = "length (builder_partitions b)"
  have o: "valid_orders (nodes_iter ?ns ?nu ?np) (orders b)"
    using wf by (simp add: builder_wf_def builder_nodes_def)
  have u: "\<forall>(ty, users) \<in> set (resources b). \<forall>(n, as) \<in> set users. n \<in> set (nodes_iter ?ns ?nu ?np)"
    using wf by (fastforce simp: builder_wf_def builder_system_def builder_nodes_def)
  from topology_init_outcome [OF o u ho, where ?'p = 'b] show ?thesis
  proof (elim disjE exE conjE)
    fix t :: "'b topology"
    assume "topology_init ho ?ns ?nu ?np (orders b) (resources b) = Some (Inr t)"
      and "topology_for (nodes_iter ?ns ?nu ?np) (orders b) (resources b) t"
    then show ?thesis
      by (intro disjI1) (simp add: build_def Let_def topology_for_partitions builder_nodes_def)
  next
    fix p
    assume "(topology_init ho ?ns ?nu ?np (orders b) (resources b) :: 'b topology res option) =
        Some (Inl (CyclicDependency p))"
      and "2 \<le> length p" "hd p = last p" "successively (\<lambda>a c. c \<in> set (out_list (orders b) a)) p"
    then show ?thesis by (intro disjI2) (simp add: build_def)
  qed
qed

lemma build_schedule:
  assumes wf: "builder_wf b" and ho: "hash_order_ok ho" and b: "build ho b = Some (Inr s)"
  shows "schedule (sched_topology s)"
proof -
  have t: "topology_for (builder_nodes b) (orders b) (resources b) (sched_topology s)"
    "partitions (sched_topology s) = builder_partitions b"
    using build_outcome [OF wf ho] b by auto
  have "planner_inv (sched_topology s) (initial_planner (sched_topology s))"
    by (rule initial_planner_inv [OF t(1)])
      (use wf distinct_nodes_iter in \<open>auto simp: builder_wf_def builder_nodes_def\<close>)
  moreover have "state_of (initial_planner (sched_topology s)) n \<noteq> Some Started" for n
    by (simp add: initial_state [OF t(1)] initial_wakeup_def)
  ultimately show ?thesis
    using topology_for_schedule_graph [OF wf t] by (simp add: schedule_def schedule_axioms_def)
qed

text \<open>
  The topology a builder ends up with, total: a builder that used foreign nodes or whose
  dependencies are cyclic has none and gets the empty one, on which no system ever runs.
\<close>

definition empty_topology :: "'p topology" where
  "empty_topology =
     \<lparr>dependents = fmempty,
      initial_planner = \<lparr>wakeup_state = fmempty, send_runnable = {}, unsend_runnable = {},
        remaining_systems = 0\<rparr>,
      depless_pars = [], partitions = [], exclusions = fmempty\<rparr>"

definition built_topology :: "node hash_order \<Rightarrow> ('t, 'p) builder \<Rightarrow> 'p topology" where
  "built_topology ho b =
     (if builder_wf b \<and> hash_order_ok ho
      then case build ho b of Some (Inr s) \<Rightarrow> sched_topology s | _ \<Rightarrow> empty_topology
      else empty_topology)"

lemma schedule_empty_topology: "schedule empty_topology"
  by unfold_locales
    (auto simp: empty_topology_def closed_map_def edges_def acyclic_def succs_def planner_inv_def
      planner_mid_def open_systems_def tally_def state_of_def)

interpretation built: schedule "built_topology ho b" for ho :: "node hash_order" and b :: "('t, 'p) builder"
  using build_schedule [of b ho] schedule_empty_topology
  by (auto simp: built_topology_def split: option.splits sum.splits)

lemma built_topology_eq:
  "builder_wf b \<Longrightarrow> hash_order_ok ho \<Longrightarrow> build ho b = Some (Inr s) \<Longrightarrow>
     built_topology ho b = sched_topology s"
  by (simp add: built_topology_def)

lemma built_inv:
  assumes "builder_wf b" and "hash_order_ok ho" and "build ho b = Some (Inr s)"
    and "planner_reach (sched_topology s) p"
  shows "planner_inv (sched_topology s) p"
  using built.reach_inv [of ho b p] built_topology_eq [OF assms(1-3)] assms(4) by simp

end
