(* ===== verification/Components.thy ===== *)
theory Components
  imports Prelude "HOL-Library.AList"
begin

section \<open>Component registration and initialization\<close>

text \<open>
  \<^verbatim>\<open>src/comp.rs\<close>, \<^verbatim>\<open>src/comp/any.rs\<close>, \<^verbatim>\<open>src/world/typed.rs\<close> and \<^verbatim>\<open>src/storage/simple.rs\<close>: the
  component map handed to entity creation, the registration of simple component storages in
  dependency order, and the initialization of the simple components of a new entity.

  What the Rust code knows of a component type through its \<open>comp::Simple\<close> implementation
  (presence, init strategy, finalizer flag) is a record \<open>comp_info\<close>, found by the type's id
  through the parameter \<open>ci\<close>. Values of all component types are one type \<open>'v\<close>, since the code
  stores them behind \<open>dyn Any\<close> keyed by type id. A storage is a finite map from entities; the
  theories on storages show that the vector and the tree storage behave like one.

  Proved here: registration returns for every acyclic initializer graph and leaves the storages
  in dependency order, and with storages in that order initialization never reports a toposort
  bug or a locked storage.
\<close>

datatype presence = Optional | Required

datatype ('t, 'v) init_strategy = NoInit | Auto "'t list" "'v list \<Rightarrow> 'v"

record ('t, 'v) comp_info =
  ci_presence :: presence
  ci_init :: "('t, 'v) init_strategy"
  ci_finalizer :: bool

subsection \<open>The component map\<close>

record ('t, 'v) comp_map =
  cm_simple :: "('t, 'v) fmap"
  cm_isotope :: "('t, (nat \<times> 'v) list) fmap"

definition comp_map_default :: "('t, 'v) comp_map" where
  "comp_map_default = \<lparr>cm_simple = fmempty, cm_isotope = fmempty\<rparr>"

definition insert_simple :: "'t \<Rightarrow> 'v \<Rightarrow> ('t, 'v) comp_map \<Rightarrow> ('t, 'v) comp_map res" where
  "insert_simple c v m =
     (if fmlookup (cm_simple m) c \<noteq> None then Inl DuplicateComponent
      else Inr (m\<lparr>cm_simple := fmupd c v (cm_simple m)\<rparr>))"

definition remove_simple :: "'t \<Rightarrow> ('t, 'v) comp_map \<Rightarrow> 'v option \<times> ('t, 'v) comp_map" where
  "remove_simple c m = (fmlookup (cm_simple m) c, m\<lparr>cm_simple := fmdrop c (cm_simple m)\<rparr>)"

definition insert_isotope :: "'t \<Rightarrow> nat \<Rightarrow> 'v \<Rightarrow> ('t, 'v) comp_map \<Rightarrow> ('t, 'v) comp_map" where
  "insert_isotope c discrim v m =
     m\<lparr>cm_isotope := fmupd c
        ((case fmlookup (cm_isotope m) c of None \<Rightarrow> [] | Some xs \<Rightarrow> xs) @ [(discrim, v)]) (cm_isotope m)\<rparr>"

definition remove_isotope :: "'t \<Rightarrow> ('t, 'v) comp_map \<Rightarrow> (nat \<times> 'v) list \<times> ('t, 'v) comp_map" where
  "remove_isotope c m =
     (case fmlookup (cm_isotope m) c of None \<Rightarrow> [] | Some xs \<Rightarrow> xs,
      m\<lparr>cm_isotope := fmdrop c (cm_isotope m)\<rparr>)"

subsection \<open>Registration\<close>

definition checked_deps :: "('t, 'v) init_strategy \<Rightarrow> 't list res" where
  "checked_deps strategy =
     (let deps = (case strategy of NoInit \<Rightarrow> [] | Auto deps _ \<Rightarrow> deps) in
      if distinct deps then Inr deps else Inl DuplicateDependency)"

text \<open>\<open>IndexMap::insert\<close> on the keys: an existing key keeps its place.\<close>

definition index_insert :: "'t \<Rightarrow> 't list \<Rightarrow> 't list" where
  "index_insert c st = (if c \<in> set st then st else st @ [c])"

text \<open>
  \<open>add_simple_storage_if_missing\<close> over a list of components, so that the loop over the
  dependencies of a component is the call on its dependency list. \<open>None\<close> is a recursion that does
  not end. The state is the key order of the \<open>IndexMap\<close>.
\<close>

partial_function (option) add_simple_storages_if_missing ::
    "('t \<Rightarrow> ('t, 'v) comp_info) \<Rightarrow> 't list \<Rightarrow> 't list \<Rightarrow> 't list res option" where
  "add_simple_storages_if_missing ci cs st =
     (case cs of
        [] \<Rightarrow> Some (Inr st)
      | c # cs' \<Rightarrow>
          if c \<in> set st then add_simple_storages_if_missing ci cs' st
          else (case checked_deps (ci_init (ci c)) of
                  Inl e \<Rightarrow> Some (Inl e)
                | Inr deps \<Rightarrow>
                    Option.bind (add_simple_storages_if_missing ci deps st) (\<lambda>r.
                      case r of
                        Inl e \<Rightarrow> Some (Inl e)
                      | Inr st1 \<Rightarrow> add_simple_storages_if_missing ci cs' (index_insert c st1))))"

record 't typed_builder =
  tb_simple :: "'t list"
  tb_isotope :: "'t set"

text \<open>\<open>typed::builder\<close>: every archetype starts with the storage of \<open>deletion::Flag\<close>.\<close>

definition typed_builder_new :: "'t \<Rightarrow> 't typed_builder" where
  "typed_builder_new flag = \<lparr>tb_simple = [flag], tb_isotope = {}\<rparr>"

definition add_simple_storage_if_missing ::
    "('t \<Rightarrow> ('t, 'v) comp_info) \<Rightarrow> 't \<Rightarrow> 't typed_builder \<Rightarrow> 't typed_builder res" where
  "add_simple_storage_if_missing ci c tb =
     (case add_simple_storages_if_missing ci [c] (tb_simple tb) of
        None \<Rightarrow> Inl StackOverflow
      | Some r \<Rightarrow> bind_res r (\<lambda>st. Inr (tb\<lparr>tb_simple := st\<rparr>)))"

definition add_isotope_map_if_missing :: "'t \<Rightarrow> 't typed_builder \<Rightarrow> 't typed_builder" where
  "add_isotope_map_if_missing c tb = tb\<lparr>tb_isotope := insert c (tb_isotope tb)\<rparr>"

subsection \<open>Initialization of an entity's simple components\<close>

text \<open>The \<open>IndexMap\<close> of simple storages, in order.\<close>

type_synonym ('t, 'v) simple_storages = "('t \<times> (nat, 'v) fmap) list"

definition storage_get :: "('t, 'v) simple_storages \<Rightarrow> 't \<Rightarrow> (nat, 'v) fmap option" where
  "storage_get ss c = map_of ss c"

text \<open>
  \<open>DepGetter::get\<close> followed by \<open>get_any\<close>: the dependency's storage must stand before the one at
  \<open>index\<close> (when there is one) and must not be locked already by this initializer.
\<close>

fun dep_values ::
    "('t, 'v) simple_storages \<Rightarrow> nat option \<Rightarrow> nat \<Rightarrow> 't list \<Rightarrow> 't list \<Rightarrow> 'v list res" where
  "dep_values ss index entity locked [] = Inr []"
| "dep_values ss index entity locked (d # ds) =
     bind_res (expect ToposortBug (position d (map fst ss))) (\<lambda>dep_index.
     bind_res (assert_res ToposortBug (case index of None \<Rightarrow> True | Some i \<Rightarrow> dep_index < i)) (\<lambda>_.
     bind_res (assert_res StorageLocked (d \<notin> set locked)) (\<lambda>_.
     bind_res (expect MissingComponent (fmlookup (snd (ss ! dep_index)) entity)) (\<lambda>v.
     bind_res (dep_values ss index entity (d # locked) ds) (\<lambda>vs. Inr (v # vs))))))"

definition fill_init_simple ::
    "('t \<Rightarrow> ('t, 'v) comp_info) \<Rightarrow> nat \<Rightarrow> nat
      \<Rightarrow> ('t, 'v) simple_storages \<times> ('t, 'v) comp_map
      \<Rightarrow> (('t, 'v) simple_storages \<times> ('t, 'v) comp_map) res" where
  "fill_init_simple ci entity index s =
     (case s of (ss, cm) \<Rightarrow>
        let (c, storage) = ss ! index; (given, cm1) = remove_simple c cm in
        case given of
          Some v \<Rightarrow> Inr (ss[index := (c, fmupd entity v storage)], cm1)
        | None \<Rightarrow>
            (case ci_init (ci c) of
               Auto deps f \<Rightarrow>
                 bind_res (dep_values ss (Some index) entity [c] deps) (\<lambda>vs.
                   Inr (ss[index := (c, fmupd entity (f vs) storage)], cm1))
             | NoInit \<Rightarrow>
                 if ci_presence (ci c) = Required then Inl MissingComponent else Inr (ss, cm1)))"

text \<open>The loop of \<open>Typed::init_entity\<close> over the simple storages.\<close>

definition init_simple ::
    "('t \<Rightarrow> ('t, 'v) comp_info) \<Rightarrow> nat \<Rightarrow> ('t, 'v) simple_storages \<times> ('t, 'v) comp_map
      \<Rightarrow> (('t, 'v) simple_storages \<times> ('t, 'v) comp_map) res" where
  "init_simple ci entity s = fold_res (fill_init_simple ci entity) [0..<length (fst s)] s"

definition has_finalizer :: "('t \<Rightarrow> ('t, 'v) comp_info) \<Rightarrow> nat \<Rightarrow> 't \<times> (nat, 'v) fmap \<Rightarrow> bool" where
  "has_finalizer ci entity cs =
     (case cs of (c, storage) \<Rightarrow> ci_finalizer (ci c) \<and> fmlookup storage entity \<noteq> None)"

definition clear_entry :: "nat \<Rightarrow> 't \<times> (nat, 'v) fmap \<Rightarrow> 't \<times> (nat, 'v) fmap" where
  "clear_entry entity cs = (case cs of (c, storage) \<Rightarrow> (c, fmdrop entity storage))"

subsection \<open>Registration keeps dependency order\<close>

definition init_deps :: "('t \<Rightarrow> ('t, 'v) comp_info) \<Rightarrow> 't \<Rightarrow> 't list" where
  "init_deps ci c = (case ci_init (ci c) of NoInit \<Rightarrow> [] | Auto deps _ \<Rightarrow> deps)"

text \<open>Every storage comes after the storages its initializer reads.\<close>

definition toposorted :: "('t \<Rightarrow> ('t, 'v) comp_info) \<Rightarrow> 't list \<Rightarrow> bool" where
  "toposorted ci st \<longleftrightarrow>
     distinct st \<and>
     (\<forall>i < length st. set (init_deps ci (st ! i)) \<subseteq> set (take i st) \<and> distinct (init_deps ci (st ! i)))"

definition dep_rel :: "('t \<Rightarrow> ('t, 'v) comp_info) \<Rightarrow> ('t \<times> 't) set" where
  "dep_rel ci = {(d, c). d \<in> set (init_deps ci c)}"

lemma checked_deps_eq:
  "checked_deps (ci_init (ci c)) =
     (if distinct (init_deps ci c) then Inr (init_deps ci c) else Inl DuplicateDependency)"
  by (simp add: checked_deps_def init_deps_def Let_def)

lemma toposorted_snoc:
  assumes "toposorted ci st" and "c \<notin> set st" and "set (init_deps ci c) \<subseteq> set st"
    and "distinct (init_deps ci c)"
  shows "toposorted ci (st @ [c])"
  using assms by (auto simp: toposorted_def nth_append less_Suc_eq)

lemma toposorted_closed: "toposorted ci st \<Longrightarrow> c \<in> set st \<Longrightarrow> set (init_deps ci c) \<subseteq> set st"
  by (fastforce simp: toposorted_def in_set_conv_nth dest: in_set_takeD)

lemma add_storages_Nil [simp]: "add_simple_storages_if_missing ci [] st = Some (Inr st)"
  by (subst add_simple_storages_if_missing.simps) simp

lemma add_storages_Cons:
  "add_simple_storages_if_missing ci (c # cs) st =
     (if c \<in> set st then add_simple_storages_if_missing ci cs st
      else if \<not> distinct (init_deps ci c) then Some (Inl DuplicateDependency)
      else Option.bind (add_simple_storages_if_missing ci (init_deps ci c) st) (\<lambda>r.
             case r of
               Inl e \<Rightarrow> Some (Inl e)
             | Inr st1 \<Rightarrow> add_simple_storages_if_missing ci cs (index_insert c st1)))"
  by (subst add_simple_storages_if_missing.simps) (simp add: checked_deps_eq)

definition registered ::
    "('t \<Rightarrow> ('t, 'v) comp_info) \<Rightarrow> 't list \<Rightarrow> 't list \<Rightarrow> 't list res \<Rightarrow> bool" where
  "registered ci cs st r =
     (case r of
        Inl e \<Rightarrow> e = DuplicateDependency \<and> (\<exists>c. \<not> distinct (init_deps ci c))
      | Inr st' \<Rightarrow> toposorted ci st' \<and> set cs \<subseteq> set st' \<and> (\<exists>xs. st' = st @ xs))"

lemma registered_step:
  assumes "toposorted ci st" and "c \<notin> set st" and "distinct (init_deps ci c)"
    and "registered ci (init_deps ci c) st (Inr st1)"
  shows "toposorted ci (index_insert c st1) \<and> c \<in> set (index_insert c st1) \<and>
    (\<exists>xs. index_insert c st1 = st @ xs)"
proof (cases "c \<in> set st1")
  case True
  with assms show ?thesis by (auto simp: index_insert_def registered_def)
next
  case False
  with assms have "toposorted ci (st1 @ [c])"
    by (intro toposorted_snoc) (auto simp: registered_def)
  with False assms(4) show ?thesis by (auto simp: index_insert_def registered_def)
qed

lemma add_storages_correct:
  assumes "add_simple_storages_if_missing ci cs st = Some r" and "toposorted ci st"
  shows "registered ci cs st r"
proof -
  have "toposorted ci st \<longrightarrow> registered ci cs st r"
    using assms(1)
  proof (induction ci cs st r rule: add_simple_storages_if_missing.raw_induct [rotated, consumes 1, case_names step])
    case (step rec ci cs st r)
    show ?case
    proof (cases cs)
      case Nil
      with step.hyps show ?thesis by (auto simp: registered_def)
    next
      case (Cons c cs')
      consider (present) "c \<in> set st" | (dup) "c \<notin> set st" "\<not> distinct (init_deps ci c)"
        | (new) "c \<notin> set st" "distinct (init_deps ci c)" by blast
      then show ?thesis
      proof cases
        case present
        with step.hyps Cons step.IH [of ci cs' st r] show ?thesis
          by (auto simp: registered_def split: sum.splits)
      next
        case dup
        with step.hyps Cons show ?thesis by (auto simp: checked_deps_eq registered_def)
      next
        case new
        with step.hyps Cons obtain r1 where r1: "rec ci (init_deps ci c) st = Some r1"
          and r: "(case r1 of Inl e \<Rightarrow> Some (Inl e) | Inr st1 \<Rightarrow> rec ci cs' (index_insert c st1)) = Some r"
          by (auto simp: checked_deps_eq bind_eq_Some_conv)
        show ?thesis
        proof (cases r1)
          case (Inl e)
          with r step.IH [OF r1] show ?thesis by (auto simp: registered_def)
        next
          case (Inr st1)
          with r have "rec ci cs' (index_insert c st1) = Some r" by simp
          from step.IH [OF this] step.IH [OF r1] registered_step [OF _ new, of st1] Inr Cons
          show ?thesis by (fastforce simp: registered_def split: sum.splits)
        qed
      qed
    qed
  qed
  with assms(2) show ?thesis by blast
qed

lemma add_storages_list:
  assumes "\<And>c st. c \<in> set cs \<Longrightarrow> \<exists>r. add_simple_storages_if_missing ci [c] st = Some r"
  shows "\<exists>r. add_simple_storages_if_missing ci cs st = Some r"
  using assms
proof (induction cs arbitrary: st)
  case (Cons c cs)
  have IH: "\<exists>r. add_simple_storages_if_missing ci cs st = Some r" for st
    using Cons by (metis list.set_intros(2))
  obtain r where "add_simple_storages_if_missing ci [c] st = Some r"
    using Cons.prems by (metis list.set_intros(1))
  then consider "c \<in> set st" | "c \<notin> set st" "\<not> distinct (init_deps ci c)"
    | r1 where "c \<notin> set st" "distinct (init_deps ci c)"
        "add_simple_storages_if_missing ci (init_deps ci c) st = Some r1"
    by (auto simp: add_storages_Cons bind_eq_Some_conv split: if_splits)
  then show ?case
    by cases (use IH in \<open>auto simp: add_storages_Cons split: sum.splits\<close>)
qed simp

text \<open>With no cyclic initializers, registration ends.\<close>

lemma add_storages_total:
  assumes "wf (dep_rel ci)"
  shows "\<exists>r. add_simple_storages_if_missing ci cs st = Some r"
proof (rule add_storages_list)
  fix c st
  from assms show "\<exists>r. add_simple_storages_if_missing ci [c] st = Some r"
  proof (induction c arbitrary: st rule: wf_induct_rule)
    case (less c)
    have "\<exists>r. add_simple_storages_if_missing ci (init_deps ci c) st = Some r"
      by (rule add_storages_list) (use less in \<open>auto simp: dep_rel_def\<close>)
    then show ?case by (auto simp: add_storages_Cons split: sum.splits)
  qed
qed

subsection \<open>Initialization with storages in dependency order\<close>

lemma dep_values_outcome:
  assumes "distinct (map fst ss)" and "distinct deps" and "set deps \<inter> set locked = {}"
    and "\<forall>d \<in> set deps. \<exists>j < i. j < length ss \<and> fst (ss ! j) = d"
  shows "dep_values ss (Some i) entity locked deps =
    (if \<forall>d \<in> set deps. \<exists>v. fmlookup (the (map_of ss d)) entity = Some v
     then Inr (map (\<lambda>d. the (fmlookup (the (map_of ss d)) entity)) deps)
     else Inl MissingComponent)"
  using assms
proof (induction deps arbitrary: locked)
  case (Cons d deps)
  from Cons.prems(4) obtain j where j: "j < i" "j < length ss" "fst (ss ! j) = d" by auto
  have pos: "position d (map fst ss) = Some j"
    using position_distinct [OF Cons.prems(1), of j] j by simp
  have lk: "map_of ss d = Some (snd (ss ! j))"
    using j Cons.prems(1) by (metis map_of_eq_Some_iff nth_mem prod.collapse)
  have IH: "dep_values ss (Some i) entity (d # locked) deps =
      (if \<forall>d \<in> set deps. \<exists>v. fmlookup (the (map_of ss d)) entity = Some v
       then Inr (map (\<lambda>d. the (fmlookup (the (map_of ss d)) entity)) deps)
       else Inl MissingComponent)"
    by (rule Cons.IH) (use Cons.prems in auto)
  show ?case
    using j pos lk Cons.prems(3)
    by (cases "fmlookup (snd (ss ! j)) entity") (auto simp: IH)
qed simp

lemma toposorted_deps_before:
  assumes "toposorted ci (map fst ss)" and "i < length ss" and "d \<in> set (init_deps ci (fst (ss ! i)))"
  shows "\<exists>j < i. j < length ss \<and> fst (ss ! j) = d"
proof -
  from assms have "d \<in> set (take i (map fst ss))" by (auto simp: toposorted_def)
  then show ?thesis using assms(2) by (auto simp: in_set_conv_nth)
qed

lemma fill_init_simple_outcome:
  assumes topo: "toposorted ci (map fst ss)" and i: "i < length ss"
  shows "fill_init_simple ci entity i (ss, cm) = Inl MissingComponent \<or>
    (\<exists>ss' cm'. fill_init_simple ci entity i (ss, cm) = Inr (ss', cm') \<and> map fst ss' = map fst ss \<and>
       (\<forall>j < length ss. j \<noteq> i \<longrightarrow> ss' ! j = ss ! j) \<and>
       (\<forall>e. e \<noteq> entity \<longrightarrow> fmlookup (snd (ss' ! i)) e = fmlookup (snd (ss ! i)) e))"
proof -
  let ?c = "fst (ss ! i)"
  have keys: "map fst (ss[i := (?c, x)]) = map fst ss" for x
    using i by (simp add: map_update list_update_same_conv)
  have self: "?c \<notin> set (init_deps ci ?c)"
  proof
    assume "?c \<in> set (init_deps ci ?c)"
    from toposorted_deps_before [OF topo i this] obtain j where "j < i" "fst (ss ! j) = ?c" by blast
    with topo i show False by (auto simp: toposorted_def distinct_conv_nth)
  qed
  have dv: "ci_init (ci ?c) = Auto deps f \<Longrightarrow>
      dep_values ss (Some i) entity [?c] deps = Inl MissingComponent \<or>
      (\<exists>vs. dep_values ss (Some i) entity [?c] deps = Inr vs)" for deps f
  proof -
    assume "ci_init (ci ?c) = Auto deps f"
    then have deps: "deps = init_deps ci ?c" by (simp add: init_deps_def)
    have "dep_values ss (Some i) entity [?c] deps =
        (if \<forall>d \<in> set deps. \<exists>v. fmlookup (the (map_of ss d)) entity = Some v
         then Inr (map (\<lambda>d. the (fmlookup (the (map_of ss d)) entity)) deps)
         else Inl MissingComponent)"
      by (rule dep_values_outcome)
        (use topo i self toposorted_deps_before [OF topo i] in \<open>auto simp: deps toposorted_def\<close>)
    then show ?thesis by simp
  qed
  show ?thesis
    using i keys dv
    by (auto simp: fill_init_simple_def remove_simple_def Let_def split_beta
        split: option.splits init_strategy.splits)
qed

text \<open>
  What an initialized component holds: the given value, else the initializer's result on the
  entity's final dependency values, else what was there.
\<close>

definition init_value ::
    "('t \<Rightarrow> ('t, 'v) comp_info) \<Rightarrow> nat \<Rightarrow> ('t, 'v) comp_map \<Rightarrow> ('t, 'v) simple_storages
      \<Rightarrow> 't \<Rightarrow> (nat, 'v) fmap \<Rightarrow> 'v option" where
  "init_value ci entity cm ss' c old =
     (case fmlookup (cm_simple cm) c of
        Some v \<Rightarrow> Some v
      | None \<Rightarrow>
          (case ci_init (ci c) of
             Auto deps f \<Rightarrow> Some (f (map (\<lambda>d. the (fmlookup (the (map_of ss' d)) entity)) deps))
           | NoInit \<Rightarrow> fmlookup old entity))"

definition init_upto ::
    "('t \<Rightarrow> ('t, 'v) comp_info) \<Rightarrow> nat \<Rightarrow> ('t, 'v) simple_storages \<Rightarrow> ('t, 'v) comp_map \<Rightarrow> nat
      \<Rightarrow> ('t, 'v) simple_storages \<Rightarrow> ('t, 'v) comp_map \<Rightarrow> bool" where
  "init_upto ci entity ss cm k ss' cm' \<longleftrightarrow>
     map fst ss' = map fst ss \<and>
     (\<forall>j < length ss. if j < k
        then (\<forall>e. fmlookup (snd (ss' ! j)) e =
                (if e = entity then init_value ci entity cm ss' (fst (ss ! j)) (snd (ss ! j))
                 else fmlookup (snd (ss ! j)) e)) \<and>
             (fmlookup (snd (ss' ! j)) entity = None \<longrightarrow> ci_presence (ci (fst (ss ! j))) = Optional)
        else ss' ! j = ss ! j) \<and>
     (\<forall>j < length ss. k \<le> j \<longrightarrow>
        fmlookup (cm_simple cm') (fst (ss ! j)) = fmlookup (cm_simple cm) (fst (ss ! j)))"

lemma map_of_nth:
  assumes "distinct (map fst ss)" and "j < length ss"
  shows "map_of ss (fst (ss ! j)) = Some (snd (ss ! j))"
  using assms by (metis map_of_eq_Some_iff nth_mem prod.collapse)

text \<open>The value of component \<open>j\<close> depends on the storages before it only.\<close>

lemma init_value_stable:
  assumes topo: "toposorted ci (map fst ss)" and j: "j < length ss" "j \<le> k"
    and keys: "map fst ss1 = map fst ss" "map fst ss2 = map fst ss"
    and same: "\<And>i. i < k \<Longrightarrow> i < length ss \<Longrightarrow> ss1 ! i = ss2 ! i"
  shows "init_value ci entity cm ss1 (fst (ss ! j)) old = init_value ci entity cm ss2 (fst (ss ! j)) old"
proof -
  have len: "length ss1 = length ss" "length ss2 = length ss" using keys by (metis length_map)+
  have "map_of ss1 d = map_of ss2 d" if d: "d \<in> set (init_deps ci (fst (ss ! j)))" for d
  proof -
    obtain i where i: "i < j" "i < length ss" "fst (ss ! i) = d"
      using toposorted_deps_before [OF topo j(1) d] by blast
    have "fst (ss1 ! i) = d" "fst (ss2 ! i) = d"
      using i keys len by (metis nth_map)+
    moreover have "distinct (map fst ss1)" "distinct (map fst ss2)"
      using topo keys by (auto simp: toposorted_def)
    ultimately show ?thesis
      using map_of_nth [of ss1 i] map_of_nth [of ss2 i] same [of i] i j(2) len by simp
  qed
  then have "map (\<lambda>d. the (fmlookup (the (map_of ss1 d)) entity)) (init_deps ci (fst (ss ! j))) =
      map (\<lambda>d. the (fmlookup (the (map_of ss2 d)) entity)) (init_deps ci (fst (ss ! j)))"
    by simp
  then show ?thesis
    by (cases "fmlookup (cm_simple cm) (fst (ss ! j))"; cases "ci_init (ci (fst (ss ! j)))")
      (simp_all add: init_value_def init_deps_def cong: map_cong)
qed

lemma presence_neq: "p \<noteq> Required \<longleftrightarrow> p = Optional"
  by (cases p) auto

lemma fill_init_simple_value:
  assumes topo: "toposorted ci (map fst ss)" and i: "i < length ss"
    and r: "fill_init_simple ci entity i (ss, cm) = Inr (ss', cm')"
  shows "ss' = ss[i := ss' ! i]" and "fst (ss' ! i) = fst (ss ! i)"
    and "\<forall>e. fmlookup (snd (ss' ! i)) e =
      (if e = entity then init_value ci entity cm ss (fst (ss ! i)) (snd (ss ! i))
       else fmlookup (snd (ss ! i)) e)"
    and "fmlookup (snd (ss' ! i)) entity = None \<longrightarrow> ci_presence (ci (fst (ss ! i))) = Optional"
    and "\<forall>c. c \<noteq> fst (ss ! i) \<longrightarrow> fmlookup (cm_simple cm') c = fmlookup (cm_simple cm) c"
proof -
  let ?c = "fst (ss ! i)"
  have self: "?c \<notin> set (init_deps ci ?c)"
  proof
    assume "?c \<in> set (init_deps ci ?c)"
    from toposorted_deps_before [OF topo i this] obtain j where "j < i" "fst (ss ! j) = ?c" by blast
    with topo i show False by (auto simp: toposorted_def distinct_conv_nth)
  qed
  have dv: "vs = map (\<lambda>d. the (fmlookup (the (map_of ss d)) entity)) deps"
    if "ci_init (ci ?c) = Auto deps f" "dep_values ss (Some i) entity [?c] deps = Inr vs" for deps f vs
  proof -
    have deps: "deps = init_deps ci ?c" using that by (simp add: init_deps_def)
    have "dep_values ss (Some i) entity [?c] deps =
        (if \<forall>d \<in> set deps. \<exists>v. fmlookup (the (map_of ss d)) entity = Some v
         then Inr (map (\<lambda>d. the (fmlookup (the (map_of ss d)) entity)) deps)
         else Inl MissingComponent)"
      by (rule dep_values_outcome)
        (use topo i self toposorted_deps_before [OF topo i] in \<open>auto simp: deps toposorted_def\<close>)
    with that(2) show ?thesis by (auto split: if_splits)
  qed
  note split = fill_init_simple_def remove_simple_def Let_def split_beta
  show "ss' = ss[i := ss' ! i]" and "fst (ss' ! i) = ?c"
    and "\<forall>c. c \<noteq> ?c \<longrightarrow> fmlookup (cm_simple cm') c = fmlookup (cm_simple cm) c"
    using r i by (auto simp: split split: option.splits init_strategy.splits if_splits)
  show "\<forall>e. fmlookup (snd (ss' ! i)) e =
      (if e = entity then init_value ci entity cm ss ?c (snd (ss ! i)) else fmlookup (snd (ss ! i)) e)"
    using r i by (auto simp: split init_value_def dest: dv split: option.splits init_strategy.splits if_splits)
  show "fmlookup (snd (ss' ! i)) entity = None \<longrightarrow> ci_presence (ci ?c) = Optional"
    using r i by (auto simp: split presence_neq split: option.splits init_strategy.splits if_splits)
qed

lemma init_upto_step:
  assumes topo: "toposorted ci (map fst ss)" and k: "k < length ss"
    and inv: "init_upto ci entity ss cm k ss1 cm1"
    and r: "fill_init_simple ci entity k (ss1, cm1) = Inr (ss2, cm2)"
  shows "init_upto ci entity ss cm (Suc k) ss2 cm2"
proof -
  from inv have keys1: "map fst ss1 = map fst ss" by (simp add: init_upto_def)
  then have len: "length ss1 = length ss" by (metis length_map)
  have fst1: "fst (ss1 ! j) = fst (ss ! j)" if "j < length ss" for j
    using keys1 len that by (metis nth_map)
  have at_k: "ss1 ! k = ss ! k" using inv k by (auto simp: init_upto_def)
  have topo1: "toposorted ci (map fst ss1)" and k1: "k < length ss1" using topo k len keys1 by auto
  note v = fill_init_simple_value [OF topo1 k1 r]
  have keys2: "map fst ss2 = map fst ss"
    using v(1,2) keys1 k1 by (metis list_update_id map_update nth_map)
  have other: "ss2 ! j = ss1 ! j" if "j \<noteq> k" for j using v(1) that by (metis nth_list_update_neq)
  have cm: "fmlookup (cm_simple cm1) (fst (ss ! k)) = fmlookup (cm_simple cm) (fst (ss ! k))"
    using inv k by (simp add: init_upto_def)
  have now: "init_value ci entity cm1 ss1 (fst (ss ! k)) (snd (ss ! k)) =
      init_value ci entity cm ss2 (fst (ss ! k)) (snd (ss ! k))"
    using init_value_stable [OF topo k le_refl keys1 keys2, of entity cm1] other cm
    by (simp add: init_value_def)
  have before: "init_value ci entity cm ss1 (fst (ss ! j)) old = init_value ci entity cm ss2 (fst (ss ! j)) old"
    if "j < k" for j old
    by (rule init_value_stable [OF topo _ _ keys1 keys2, of j k]) (use that k other in auto)
  have neq: "fst (ss ! j) \<noteq> fst (ss ! k)" if "j < length ss" "j \<noteq> k" for j
    using topo k that by (auto simp: toposorted_def distinct_conv_nth)
  show ?thesis
    using inv v(3-5) keys2 other at_k fst1 [OF k] now before neq unfolding init_upto_def
    by (auto simp: less_Suc_eq)
qed

text \<open>
  Initialization over storages in dependency order: it fails only for a missing component, and
  when it succeeds every component of the entity has its specified value and every other
  entity is untouched.
\<close>

lemma init_simple_loop:
  assumes topo: "toposorted ci (map fst ss)" and "k \<le> length ss"
  shows "fold_res (fill_init_simple ci entity) [0..<k] (ss, cm) = Inl MissingComponent \<or>
    (\<exists>ss' cm'. fold_res (fill_init_simple ci entity) [0..<k] (ss, cm) = Inr (ss', cm') \<and>
       init_upto ci entity ss cm k ss' cm')"
  using assms(2)
proof (induction k)
  case 0
  then show ?case by (simp add: init_upto_def)
next
  case (Suc k)
  then have IH: "fold_res (fill_init_simple ci entity) [0..<k] (ss, cm) = Inl MissingComponent \<or>
    (\<exists>ss' cm'. fold_res (fill_init_simple ci entity) [0..<k] (ss, cm) = Inr (ss', cm') \<and>
       init_upto ci entity ss cm k ss' cm')" by simp
  then show ?case
  proof (elim disjE exE conjE)
    fix ss1 cm1
    assume 1: "fold_res (fill_init_simple ci entity) [0..<k] (ss, cm) = Inr (ss1, cm1)"
      and inv: "init_upto ci entity ss cm k ss1 cm1"
    have keys: "map fst ss1 = map fst ss" using inv by (simp add: init_upto_def)
    then have "k < length ss1" using Suc.prems by (metis Suc_le_lessD length_map)
    with fill_init_simple_outcome [of ci ss1 k entity cm1] topo keys
    show ?case
      using init_upto_step [OF topo _ inv] Suc.prems 1 by (auto simp: fold_res_append)
  qed (simp add: fold_res_append)
qed

lemma init_simple_outcome:
  assumes "toposorted ci (map fst ss)"
  shows "init_simple ci entity (ss, cm) = Inl MissingComponent \<or>
    (\<exists>ss' cm'. init_simple ci entity (ss, cm) = Inr (ss', cm') \<and>
       init_upto ci entity ss cm (length ss) ss' cm')"
  using init_simple_loop [OF assms le_refl] by (simp add: init_simple_def)

lemma add_simple_storage_keeps_order:
  assumes "add_simple_storage_if_missing ci c tb = Inr tb'" and "toposorted ci (tb_simple tb)"
  shows "toposorted ci (tb_simple tb') \<and> c \<in> set (tb_simple tb') \<and> (\<exists>xs. tb_simple tb' = tb_simple tb @ xs)"
  using assms add_storages_correct [of ci "[c]" "tb_simple tb"]
  by (auto simp: add_simple_storage_if_missing_def registered_def split: option.splits)

end
