(* ===== verification/World_Builder.thy ===== *)
theory World_Builder
  imports Sched_Builder Components
begin

section \<open>Scheduling systems\<close>

text \<open>
  \<^verbatim>\<open>src/system/spec.rs\<close>, \<^verbatim>\<open>src/system/partition.rs\<close> and \<^verbatim>\<open>src/world/builder.rs\<close>: what a system asks for,
  and how the world builder turns it into accesses, dependencies, storages and globals. A
  \<open>HashSet\<close> that is only iterated (strong references, found archetypes) is the list of its
  elements in iteration order. A function pointer that makes an initial global is the value it
  makes.

  Proved here: scheduling either panics with one of the documented conflicts or records every
  request of every system, so that in every state of the resulting schedule two systems with
  conflicting requests never run together and systems around a partition run in order.
\<close>

datatype ('t, 'u) partition_key =
    UserPartition 'u
  | EntityCreationPartition 't

datatype 'g global_initial = InitSync 'g | InitUnsync 'g

record ('t, 'g) global_request =
  gr_ty :: 't
  gr_initial :: "'g global_initial"
  gr_mutable :: bool
  gr_strong_refs :: "'t list"

record 't simple_request =
  sr_arch :: 't
  sr_comp :: 't
  sr_mutable :: bool
  sr_strong_refs :: "'t list"

record 't isotope_request =
  ir_arch :: 't
  ir_comp :: 't
  ir_discrim :: "nat list option"
  ir_mutable :: bool
  ir_strong_refs :: "'t list"

record 't entity_creator_request =
  er_arch :: 't
  er_no_partition :: bool

record ('t, 'u, 'g) system_spec =
  debug_name :: string
  spec_dependencies :: "('t, 'u) partition_key dependency list"
  global_requests :: "('t, 'g) global_request list"
  simple_requests :: "'t simple_request list"
  isotope_requests :: "'t isotope_request list"
  entity_creator_requests :: "'t entity_creator_request list"

text \<open>A system: its specification, the archetypes its local state refers to, those exempted, and
  whether it is scheduled as thread-safe.\<close>

record ('t, 'u, 'g) system =
  sys_spec :: "('t, 'u, 'g) system_spec"
  sys_found_archs :: "'t list"
  sys_maybe_uninit :: "'t list"
  sys_sync :: bool

definition maybe_uninit :: "'t \<Rightarrow> 't list \<Rightarrow> 't list res" where
  "maybe_uninit arch strong_refs =
     (if arch \<in> set strong_refs then Inr (remove1 arch strong_refs) else Inl NoStrongReference)"

definition no_partition :: "'t entity_creator_request \<Rightarrow> 't entity_creator_request" where
  "no_partition r = r\<lparr>er_no_partition := True\<rparr>"

datatype 'g global_builder = Provided 'g | Missing 'g

record ('t, 'u, 'g) world_builder =
  wb_scheduler :: "('t, ('t, 'u) partition_key) builder"
  wb_archetypes :: "('t, 't typed_builder) fmap"
  wb_sync_globals :: "('t, 'g global_builder) fmap"
  wb_unsync_globals :: "('t, 'g global_builder) fmap"

text \<open>\<open>Builder::new\<close>; the generation store is the one default global.\<close>

definition world_builder_new :: "'t \<Rightarrow> 'g \<Rightarrow> nat \<Rightarrow> ('t, 'u, 'g) world_builder" where
  "world_builder_new generation_ty generation_store n =
     \<lparr>wb_scheduler = builder_new n, wb_archetypes = fmempty,
      wb_sync_globals = fmupd generation_ty (Provided generation_store) fmempty,
      wb_unsync_globals = fmempty\<rparr>"

text \<open>\<open>Builder::archetype\<close>: the typed builder of an archetype, made when it is missing.\<close>

definition archetype :: "'t \<Rightarrow> 't \<Rightarrow> ('t, 'u, 'g) world_builder \<Rightarrow> 't typed_builder" where
  "archetype flag arch wb =
     (case fmlookup (wb_archetypes wb) arch of None \<Rightarrow> typed_builder_new flag | Some tb \<Rightarrow> tb)"

definition depend_on ::
    "('t, 'u) partition_key dependency list \<Rightarrow> node \<Rightarrow> ('t, 'u, 'g) world_builder
      \<Rightarrow> ('t, 'u, 'g) world_builder" where
  "depend_on deps node wb = wb\<lparr>wb_scheduler := add_dependencies deps node (wb_scheduler wb)\<rparr>"

text \<open>The loops over strong references: run before the creation of such entities.\<close>

definition depend_strong ::
    "'t list \<Rightarrow> node \<Rightarrow> ('t, 'u, 'g) world_builder \<Rightarrow> ('t, 'u, 'g) world_builder" where
  "depend_strong refs node wb =
     fold (\<lambda>arch. depend_on [Before (EntityCreationPartition arch)] node) refs wb"

definition use_resource_wb ::
    "node \<Rightarrow> 't resource_type \<Rightarrow> resource_access \<Rightarrow> ('t, 'u, 'g) world_builder
      \<Rightarrow> ('t, 'u, 'g) world_builder res" where
  "use_resource_wb node ty access wb =
     bind_res (use_resource node ty access (wb_scheduler wb))
       (\<lambda>b. Inr (wb\<lparr>wb_scheduler := b\<rparr>))"

text \<open>\<open>entry(ty).or_insert_with(..)\<close>.\<close>

definition or_insert :: "'k \<Rightarrow> 'v \<Rightarrow> ('k, 'v) fmap \<Rightarrow> ('k, 'v) fmap" where
  "or_insert k v m = (case fmlookup m k of None \<Rightarrow> fmupd k v m | Some _ \<Rightarrow> m)"

definition register_global ::
    "bool \<Rightarrow> node \<Rightarrow> ('t, 'g) global_request \<Rightarrow> ('t, 'u, 'g) world_builder
      \<Rightarrow> ('t, 'u, 'g) world_builder res" where
  "register_global sync node request wb =
     bind_res
       (case gr_initial request of
          InitSync initial \<Rightarrow>
            if fmlookup (wb_unsync_globals wb) (gr_ty request) \<noteq> None then Inl GlobalSyncMismatch
            else use_resource_wb node (GlobalRes (gr_ty request)) (access_new (gr_mutable request))
                   (wb\<lparr>wb_sync_globals := or_insert (gr_ty request) (Missing initial) (wb_sync_globals wb)\<rparr>)
        | InitUnsync initial \<Rightarrow>
            if sync then Inl ThreadUnsafeRequest
            else if fmlookup (wb_sync_globals wb) (gr_ty request) \<noteq> None then Inl GlobalSyncMismatch
            else use_resource_wb node (GlobalRes (gr_ty request)) (access_new (gr_mutable request))
                   (wb\<lparr>wb_unsync_globals := or_insert (gr_ty request) (Missing initial) (wb_unsync_globals wb)\<rparr>))
       (\<lambda>wb1. Inr (depend_strong (gr_strong_refs request) node wb1))"

definition register_simple ::
    "('t \<Rightarrow> ('t, 'v) comp_info) \<Rightarrow> 't \<Rightarrow> node \<Rightarrow> 't simple_request \<Rightarrow> ('t, 'u, 'g) world_builder
      \<Rightarrow> ('t, 'u, 'g) world_builder res" where
  "register_simple ci flag node request wb =
     bind_res (add_simple_storage_if_missing ci (sr_comp request) (archetype flag (sr_arch request) wb)) (\<lambda>tb.
     bind_res (use_resource_wb node (SimpleRes (sr_arch request) (sr_comp request))
         (access_new (sr_mutable request))
         (wb\<lparr>wb_archetypes := fmupd (sr_arch request) tb (wb_archetypes wb)\<rparr>)) (\<lambda>wb1.
       Inr (depend_strong (sr_strong_refs request) node wb1)))"

definition register_isotope ::
    "'t \<Rightarrow> node \<Rightarrow> 't isotope_request \<Rightarrow> ('t, 'u, 'g) world_builder \<Rightarrow> ('t, 'u, 'g) world_builder res" where
  "register_isotope flag node request wb =
     (let tb = add_isotope_map_if_missing (ir_comp request) (archetype flag (ir_arch request) wb) in
      bind_res (use_resource_wb node (IsotopeRes (ir_arch request) (ir_comp request))
          (access_with_discrim (ir_mutable request) (ir_discrim request))
          (wb\<lparr>wb_archetypes := fmupd (ir_arch request) tb (wb_archetypes wb)\<rparr>)) (\<lambda>wb1.
        Inr (depend_strong (ir_strong_refs request) node wb1)))"

definition register_creator ::
    "node \<Rightarrow> 't entity_creator_request \<Rightarrow> ('t, 'u, 'g) world_builder \<Rightarrow> ('t, 'u, 'g) world_builder" where
  "register_creator node request wb =
     (if er_no_partition request then wb
      else depend_on [After (EntityCreationPartition (er_arch request))] node wb)"

definition register_resources ::
    "('t \<Rightarrow> ('t, 'v) comp_info) \<Rightarrow> 't \<Rightarrow> node \<Rightarrow> ('t, 'u, 'g) system \<Rightarrow> ('t, 'u, 'g) world_builder
      \<Rightarrow> ('t, 'u, 'g) world_builder res" where
  "register_resources ci flag node sys wb =
     (let spec = sys_spec sys;
          wb0 = depend_strong (filter (\<lambda>arch. arch \<notin> set (sys_maybe_uninit sys)) (sys_found_archs sys)) node wb in
      bind_res (fold_res (register_global (sys_sync sys) node) (global_requests spec) wb0) (\<lambda>wb1.
      bind_res (fold_res (register_simple ci flag node) (simple_requests spec) wb1) (\<lambda>wb2.
      bind_res (fold_res (register_isotope flag node) (isotope_requests spec) wb2) (\<lambda>wb3.
        Inr (depend_on (spec_dependencies spec) node
               (fold (register_creator node) (entity_creator_requests spec) wb3))))))"

text \<open>\<open>schedule_boxed\<close> and \<open>schedule_thread_unsafe_boxed\<close>.\<close>

definition schedule_system ::
    "('t \<Rightarrow> ('t, 'v) comp_info) \<Rightarrow> 't \<Rightarrow> ('t, 'u, 'g) system \<Rightarrow> ('t, 'u, 'g) world_builder
      \<Rightarrow> ('t, 'u, 'g) world_builder res" where
  "schedule_system ci flag sys wb =
     (case (if sys_sync sys then push_send_system (debug_name (sys_spec sys)) (wb_scheduler wb)
            else push_unsend_system (debug_name (sys_spec sys)) (wb_scheduler wb)) of
        (node, b) \<Rightarrow> register_resources ci flag node sys (wb\<lparr>wb_scheduler := b\<rparr>))"

definition schedule_all ::
    "('t \<Rightarrow> ('t, 'v) comp_info) \<Rightarrow> 't \<Rightarrow> ('t, 'u, 'g) system list \<Rightarrow> ('t, 'u, 'g) world_builder
      \<Rightarrow> ('t, 'u, 'g) world_builder res" where
  "schedule_all ci flag = fold_res (schedule_system ci flag)"

definition provide_global :: "'t \<Rightarrow> 'g \<Rightarrow> ('t, 'u, 'g) world_builder \<Rightarrow> ('t, 'u, 'g) world_builder" where
  "provide_global ty v wb = wb\<lparr>wb_sync_globals := fmupd ty (Provided v) (wb_sync_globals wb)\<rparr>"

definition provide_global_thread_unsafe ::
    "'t \<Rightarrow> 'g \<Rightarrow> ('t, 'u, 'g) world_builder \<Rightarrow> ('t, 'u, 'g) world_builder" where
  "provide_global_thread_unsafe ty v wb =
     wb\<lparr>wb_unsync_globals := fmupd ty (Provided v) (wb_unsync_globals wb)\<rparr>"

fun global_value :: "'g global_builder \<Rightarrow> 'g" where
  "global_value (Provided v) = v"
| "global_value (Missing v) = v"

subsection \<open>Every request is recorded\<close>

definition requests :: "('t, 'u, 'g) system \<Rightarrow> ('t resource_type \<times> resource_access) list" where
  "requests sys =
     map (\<lambda>r. (GlobalRes (gr_ty r), access_new (gr_mutable r))) (global_requests (sys_spec sys)) @
     map (\<lambda>r. (SimpleRes (sr_arch r) (sr_comp r), access_new (sr_mutable r))) (simple_requests (sys_spec sys)) @
     map (\<lambda>r. (IsotopeRes (ir_arch r) (ir_comp r), access_with_discrim (ir_mutable r) (ir_discrim r)))
       (isotope_requests (sys_spec sys))"

definition strong_refs :: "('t, 'u, 'g) system \<Rightarrow> 't list" where
  "strong_refs sys =
     filter (\<lambda>arch. arch \<notin> set (sys_maybe_uninit sys)) (sys_found_archs sys) @
     concat (map gr_strong_refs (global_requests (sys_spec sys))) @
     concat (map sr_strong_refs (simple_requests (sys_spec sys))) @
     concat (map ir_strong_refs (isotope_requests (sys_spec sys)))"

text \<open>The partitions a system is ordered against, the explicit and the implied ones.\<close>

definition wanted_orders :: "('t, 'u, 'g) system \<Rightarrow> ('t, 'u) partition_key dependency list" where
  "wanted_orders sys =
     map (\<lambda>arch. Before (EntityCreationPartition arch)) (strong_refs sys) @
     map (\<lambda>r. After (EntityCreationPartition (er_arch r)))
       (filter (\<lambda>r. \<not> er_no_partition r) (entity_creator_requests (sys_spec sys))) @
     spec_dependencies (sys_spec sys)"

definition wb_good :: "node \<Rightarrow> ('t, 'u, 'g) world_builder \<Rightarrow> bool" where
  "wb_good node wb \<longleftrightarrow> builder_wf (wb_scheduler wb) \<and> builder_system (wb_scheduler wb) node"

definition wb_extends :: "('t, 'u, 'g) world_builder \<Rightarrow> ('t, 'u, 'g) world_builder \<Rightarrow> bool" where
  "wb_extends wb wb' \<longleftrightarrow> builder_extends (wb_scheduler wb) (wb_scheduler wb')"

definition has_access :: "node \<Rightarrow> 't resource_type \<times> resource_access \<Rightarrow> ('t, 'u, 'g) world_builder \<Rightarrow> bool" where
  "has_access node req wb \<longleftrightarrow> snd req \<in> set (accesses_of (wb_scheduler wb) (fst req) node)"

definition has_dep :: "node \<Rightarrow> ('t, 'u) partition_key dependency \<Rightarrow> ('t, 'u, 'g) world_builder \<Rightarrow> bool" where
  "has_dep node dep wb \<longleftrightarrow> has_order (wb_scheduler wb) node dep"

lemma wb_extends_refl [simp]: "wb_extends wb wb"
  by (simp add: wb_extends_def)

lemma wb_extends_trans: "wb_extends a b \<Longrightarrow> wb_extends b c \<Longrightarrow> wb_extends a c"
  unfolding wb_extends_def by (rule builder_extends_trans)

lemma has_access_stable: "has_access n r a \<Longrightarrow> wb_extends a b \<Longrightarrow> has_access n r b"
  by (auto simp: has_access_def wb_extends_def builder_extends_def)

lemma has_dep_stable: "has_dep n d a \<Longrightarrow> wb_extends a b \<Longrightarrow> has_dep n d b"
  unfolding has_dep_def wb_extends_def by (rule has_order_extends)

lemma depend_on_ok:
  assumes "wb_good node wb"
  shows "wb_good node (depend_on deps node wb) \<and> wb_extends wb (depend_on deps node wb) \<and>
    (\<forall>d \<in> set deps. has_dep node d (depend_on deps node wb))"
  using add_dependencies_ok [of "wb_scheduler wb" node deps] assms builder_system_extends
  by (auto simp: wb_good_def wb_extends_def has_dep_def depend_on_def)

lemma depend_strong_ok:
  assumes "wb_good node wb"
  shows "wb_good node (depend_strong refs node wb) \<and> wb_extends wb (depend_strong refs node wb) \<and>
    (\<forall>arch \<in> set refs. has_dep node (Before (EntityCreationPartition arch)) (depend_strong refs node wb))"
proof (rule fold_res_extends [where f = "\<lambda>arch wb. Inr (depend_on [Before (EntityCreationPartition arch)] node wb)"])
  show "fold_res (\<lambda>arch wb. Inr (depend_on [Before (EntityCreationPartition arch)] node wb)) refs wb =
      Inr (depend_strong refs node wb)"
    by (simp add: fold_res_pure depend_strong_def)
qed (use assms depend_on_ok in \<open>auto intro: wb_extends_trans has_dep_stable\<close>)

lemma register_creator_ok:
  assumes "wb_good node wb"
  shows "wb_good node (register_creator node r wb) \<and> wb_extends wb (register_creator node r wb) \<and>
    (\<not> er_no_partition r \<longrightarrow> has_dep node (After (EntityCreationPartition (er_arch r))) (register_creator node r wb))"
  using depend_on_ok [OF assms, of "[After (EntityCreationPartition (er_arch r))]"] assms
  by (simp add: register_creator_def)

lemma use_resource_wb_ok:
  assumes "wb_good node wb" and "use_resource_wb node ty access wb = Inr wb'"
  shows "wb_good node wb' \<and> wb_extends wb wb' \<and> has_access node (ty, access) wb'"
proof -
  from assms(2) obtain b where b: "use_resource node ty access (wb_scheduler wb) = Inr b"
    and wb': "wb' = wb\<lparr>wb_scheduler := b\<rparr>" by (auto simp: use_resource_wb_def)
  have "builder_wf b \<and>
      (\<forall>ty' n'. accesses_of b ty' n' =
         (if ty' = ty \<and> n' = node then accesses_of (wb_scheduler wb) ty node @ [access]
          else accesses_of (wb_scheduler wb) ty' n')) \<and>
      orders b = orders (wb_scheduler wb) \<and> send_systems b = send_systems (wb_scheduler wb) \<and>
      unsend_systems b = unsend_systems (wb_scheduler wb) \<and>
      builder_partitions b = builder_partitions (wb_scheduler wb)"
    using use_resource_ok [of "wb_scheduler wb" node ty access] assms(1) b
    by (auto simp: wb_good_def split: if_splits)
  with assms(1) show ?thesis
    by (auto simp: wb' wb_good_def wb_extends_def builder_extends_def has_access_def builder_system_iff
        split: node.splits)
qed

text \<open>Changes of the other fields of the builder are invisible to the schedule.\<close>

lemma wb_other_fields:
  "wb_good node (wb\<lparr>wb_archetypes := a\<rparr>) = wb_good node wb"
  "wb_good node (wb\<lparr>wb_sync_globals := g\<rparr>) = wb_good node wb"
  "wb_good node (wb\<lparr>wb_unsync_globals := g\<rparr>) = wb_good node wb"
  "wb_extends (wb\<lparr>wb_archetypes := a\<rparr>) = wb_extends wb"
  "wb_extends (wb\<lparr>wb_sync_globals := g\<rparr>) = wb_extends wb"
  "wb_extends (wb\<lparr>wb_unsync_globals := g\<rparr>) = wb_extends wb"
  by (simp_all add: wb_good_def wb_extends_def fun_eq_iff)

lemma register_use_strong:
  assumes "wb_good node wb" and "use_resource_wb node ty access wb = Inr wb1"
    and "wb' = depend_strong refs node wb1"
  shows "wb_good node wb' \<and> wb_extends wb wb' \<and> has_access node (ty, access) wb' \<and>
    (\<forall>arch \<in> set refs. has_dep node (Before (EntityCreationPartition arch)) wb')"
  using use_resource_wb_ok [OF assms(1,2)] depend_strong_ok [of node wb1 refs] assms(3)
  by (auto intro: wb_extends_trans has_access_stable)

lemma register_global_ok:
  assumes "wb_good node wb" and "register_global sync node r wb = Inr wb'"
  shows "wb_good node wb' \<and> wb_extends wb wb' \<and>
    has_access node (GlobalRes (gr_ty r), access_new (gr_mutable r)) wb' \<and>
    (\<forall>arch \<in> set (gr_strong_refs r). has_dep node (Before (EntityCreationPartition arch)) wb')"
proof -
  from assms(2) obtain wb0 wb1 where
      "use_resource_wb node (GlobalRes (gr_ty r)) (access_new (gr_mutable r)) wb0 = Inr wb1"
      "wb' = depend_strong (gr_strong_refs r) node wb1"
      "wb_good node wb0 = wb_good node wb" "wb_extends wb0 = wb_extends wb"
    by (fastforce simp: register_global_def wb_other_fields split: global_initial.splits if_splits)
  with register_use_strong [of node wb0] assms(1) show ?thesis by metis
qed

lemma register_simple_ok:
  assumes "wb_good node wb" and "register_simple ci flag node r wb = Inr wb'"
  shows "wb_good node wb' \<and> wb_extends wb wb' \<and>
    has_access node (SimpleRes (sr_arch r) (sr_comp r), access_new (sr_mutable r)) wb' \<and>
    (\<forall>arch \<in> set (sr_strong_refs r). has_dep node (Before (EntityCreationPartition arch)) wb')"
proof -
  from assms(2) obtain wb0 wb1 where
      "use_resource_wb node (SimpleRes (sr_arch r) (sr_comp r)) (access_new (sr_mutable r)) wb0 = Inr wb1"
      "wb' = depend_strong (sr_strong_refs r) node wb1"
      "wb_good node wb0 = wb_good node wb" "wb_extends wb0 = wb_extends wb"
    by (fastforce simp: register_simple_def wb_other_fields)
  with register_use_strong [of node wb0] assms(1) show ?thesis by metis
qed

lemma register_isotope_ok:
  assumes "wb_good node wb" and "register_isotope flag node r wb = Inr wb'"
  shows "wb_good node wb' \<and> wb_extends wb wb' \<and>
    has_access node (IsotopeRes (ir_arch r) (ir_comp r), access_with_discrim (ir_mutable r) (ir_discrim r)) wb' \<and>
    (\<forall>arch \<in> set (ir_strong_refs r). has_dep node (Before (EntityCreationPartition arch)) wb')"
proof -
  from assms(2) obtain wb0 wb1 where
      "use_resource_wb node (IsotopeRes (ir_arch r) (ir_comp r))
         (access_with_discrim (ir_mutable r) (ir_discrim r)) wb0 = Inr wb1"
      "wb' = depend_strong (ir_strong_refs r) node wb1"
      "wb_good node wb0 = wb_good node wb" "wb_extends wb0 = wb_extends wb"
    by (fastforce simp: register_isotope_def wb_other_fields Let_def)
  with register_use_strong [of node wb0] assms(1) show ?thesis by metis
qed

definition recorded :: "node \<Rightarrow> ('t, 'u, 'g) system \<Rightarrow> ('t, 'u, 'g) world_builder \<Rightarrow> bool" where
  "recorded node sys wb \<longleftrightarrow>
     (\<forall>r \<in> set (requests sys). has_access node r wb) \<and>
     (\<forall>d \<in> set (wanted_orders sys). has_dep node d wb)"

lemma recorded_stable: "recorded n sys a \<Longrightarrow> wb_extends a b \<Longrightarrow> recorded n sys b"
  by (auto simp: recorded_def intro: has_access_stable has_dep_stable)

lemma wb_fold:
  assumes "fold_res f xs wb = Inr wb'" and "wb_good node wb"
    and "\<And>x wb wb'. wb_good node wb \<Longrightarrow> f x wb = Inr wb' \<Longrightarrow>
      wb_good node wb' \<and> wb_extends wb wb' \<and> Q x wb'"
    and "\<And>x a b. Q x a \<Longrightarrow> wb_extends a b \<Longrightarrow> Q x b"
  shows "wb_good node wb' \<and> wb_extends wb wb' \<and> (\<forall>x \<in> set xs. Q x wb')"
  by (rule fold_res_extends [OF assms(1), where G = "wb_good node" and E = wb_extends and Q = Q])
    (use assms(2-) in \<open>auto intro: wb_extends_trans\<close>)

lemma register_resources_ok:
  assumes good: "wb_good node wb" and r: "register_resources ci flag node sys wb = Inr wb'"
  shows "wb_good node wb' \<and> wb_extends wb wb' \<and> recorded node sys wb'"
proof -
  let ?spec = "sys_spec sys" and ?own = "filter (\<lambda>arch. arch \<notin> set (sys_maybe_uninit sys)) (sys_found_archs sys)"
  let ?strong = "\<lambda>refs wb. \<forall>arch \<in> set refs. has_dep node (Before (EntityCreationPartition arch)) wb"
  let ?wb0 = "depend_strong ?own node wb"
  from r obtain wb1 wb2 wb3 where
      1: "fold_res (register_global (sys_sync sys) node) (global_requests ?spec) ?wb0 = Inr wb1"
    and 2: "fold_res (register_simple ci flag node) (simple_requests ?spec) wb1 = Inr wb2"
    and 3: "fold_res (register_isotope flag node) (isotope_requests ?spec) wb2 = Inr wb3"
    and 5: "wb' = depend_on (spec_dependencies ?spec) node
      (fold (register_creator node) (entity_creator_requests ?spec) wb3)"
    by (auto simp: register_resources_def Let_def)
  define wb4 where "wb4 = fold (register_creator node) (entity_creator_requests ?spec) wb3"
  have 4: "fold_res (\<lambda>r wb. Inr (register_creator node r wb)) (entity_creator_requests ?spec) wb3 = Inr wb4"
    by (simp add: fold_res_pure wb4_def)
  note s0 = depend_strong_ok [OF good, of ?own]
  note intros = wb_extends_trans has_access_stable has_dep_stable
  have s1: "wb_good node wb1 \<and> wb_extends ?wb0 wb1 \<and> (\<forall>r \<in> set (global_requests ?spec).
      has_access node (GlobalRes (gr_ty r), access_new (gr_mutable r)) wb1 \<and> ?strong (gr_strong_refs r) wb1)"
    by (rule wb_fold [OF 1 conjunct1 [OF s0]]) (erule (1) register_global_ok, auto intro: intros)
  have s2: "wb_good node wb2 \<and> wb_extends wb1 wb2 \<and> (\<forall>r \<in> set (simple_requests ?spec).
      has_access node (SimpleRes (sr_arch r) (sr_comp r), access_new (sr_mutable r)) wb2 \<and>
      ?strong (sr_strong_refs r) wb2)"
    by (rule wb_fold [OF 2 conjunct1 [OF s1]]) (erule (1) register_simple_ok, auto intro: intros)
  have s3: "wb_good node wb3 \<and> wb_extends wb2 wb3 \<and> (\<forall>r \<in> set (isotope_requests ?spec).
      has_access node (IsotopeRes (ir_arch r) (ir_comp r), access_with_discrim (ir_mutable r) (ir_discrim r)) wb3 \<and>
      ?strong (ir_strong_refs r) wb3)"
    by (rule wb_fold [OF 3 conjunct1 [OF s2]]) (erule (1) register_isotope_ok, auto intro: intros)
  have s4: "wb_good node wb4 \<and> wb_extends wb3 wb4 \<and> (\<forall>r \<in> set (entity_creator_requests ?spec).
      \<not> er_no_partition r \<longrightarrow> has_dep node (After (EntityCreationPartition (er_arch r))) wb4)"
    by (rule wb_fold [OF 4 conjunct1 [OF s3]])
      (use register_creator_ok in \<open>auto intro: intros\<close>)
  have s5: "wb_good node wb' \<and> wb_extends wb4 wb' \<and> (\<forall>d \<in> set (spec_dependencies ?spec). has_dep node d wb')"
    using depend_on_ok [of node wb4] s4 5 by (simp add: wb4_def)
  have e4: "wb_extends wb4 wb'" using s5 by blast
  have e3: "wb_extends wb3 wb'" using s4 wb_extends_trans [OF _ e4] by blast
  have e2: "wb_extends wb2 wb'" using s3 wb_extends_trans [OF _ e3] by blast
  have e1: "wb_extends wb1 wb'" using s2 wb_extends_trans [OF _ e2] by blast
  have e0: "wb_extends ?wb0 wb'" using s1 wb_extends_trans [OF _ e1] by blast
  have "wb_extends wb wb'" using s0 wb_extends_trans [OF _ e0] by blast
  moreover have "\<forall>r \<in> set (requests sys). has_access node r wb'"
    using s1 s2 s3 has_access_stable [OF _ e1] has_access_stable [OF _ e2] has_access_stable [OF _ e3]
    by (auto simp: requests_def)
  moreover have "\<forall>d \<in> set (wanted_orders sys). has_dep node d wb'"
    using s0 s1 s2 s3 s4 s5 has_dep_stable [OF _ e0] has_dep_stable [OF _ e1] has_dep_stable [OF _ e2]
      has_dep_stable [OF _ e3] has_dep_stable [OF _ e4]
    by (auto simp: wanted_orders_def strong_refs_def)
  ultimately show ?thesis using s5 by (simp add: recorded_def)
qed

subsection \<open>Scheduling a list of systems\<close>

text \<open>The node that the \<open>k\<close>-th scheduled system gets.\<close>

definition node_at :: "('t, 'u, 'g) system list \<Rightarrow> nat \<Rightarrow> node" where
  "node_at syss k =
     (if sys_sync (syss ! k) then SendSystem (length (filter sys_sync (take k syss)))
      else UnsendSystem (length (filter (\<lambda>s. \<not> sys_sync s) (take k syss))))"

definition scheduled :: "('t, 'u, 'g) system list \<Rightarrow> ('t, 'u, 'g) world_builder \<Rightarrow> bool" where
  "scheduled syss wb \<longleftrightarrow>
     builder_wf (wb_scheduler wb) \<and>
     length (send_systems (wb_scheduler wb)) = length (filter sys_sync syss) \<and>
     length (unsend_systems (wb_scheduler wb)) = length (filter (\<lambda>s. \<not> sys_sync s) syss) \<and>
     (\<forall>k < length syss. builder_system (wb_scheduler wb) (node_at syss k) \<and>
        recorded (node_at syss k) (syss ! k) wb)"

lemma node_at_append: "k < length syss \<Longrightarrow> node_at (syss @ ys) k = node_at syss k"
  by (simp add: node_at_def nth_append)

text \<open>Registration adds no systems.\<close>

lemma add_dependencies_systems [simp]:
  "send_systems (add_dependencies deps n b) = send_systems b \<and>
   unsend_systems (add_dependencies deps n b) = unsend_systems b"
proof (induction deps arbitrary: b)
  case (Cons d deps)
  then show ?case
    by (cases d) (auto simp: push_partition_def add_dependency_def split: option.splits)
qed simp

definition same_systems :: "('t, 'u, 'g) world_builder \<Rightarrow> ('t, 'u, 'g) world_builder \<Rightarrow> bool" where
  "same_systems wb wb' \<longleftrightarrow>
     send_systems (wb_scheduler wb') = send_systems (wb_scheduler wb) \<and>
     unsend_systems (wb_scheduler wb') = unsend_systems (wb_scheduler wb)"

lemma fold_same_systems:
  assumes "fold_res f xs wb = Inr wb'" and "\<And>x a b. f x a = Inr b \<Longrightarrow> same_systems a b"
  shows "same_systems wb wb'"
  using fold_res_keeps [OF assms(1), of "same_systems wb"] assms(2)
  by (simp add: same_systems_def)

lemma depend_same_systems [simp]:
  "same_systems wb (depend_on deps node wb)" "same_systems wb (depend_strong refs node wb)"
proof -
  show on: "same_systems wb (depend_on deps node wb)" for wb :: "('a, 'b, 'c) world_builder" and deps
    by (simp add: same_systems_def depend_on_def)
  show "same_systems wb (depend_strong refs node wb)"
    by (rule fold_same_systems [where xs = refs and
          f = "\<lambda>arch wb. Inr (depend_on [Before (EntityCreationPartition arch)] node wb)"])
      (auto simp: depend_strong_def fold_res_pure intro: on)
qed

lemma use_resource_same_systems:
  "use_resource_wb node ty access wb = Inr wb' \<Longrightarrow> same_systems wb wb'"
  by (auto simp: use_resource_wb_def use_resource_def same_systems_def Let_def
      split: option.splits if_splits)

lemma same_systems_trans: "same_systems a b \<Longrightarrow> same_systems b c \<Longrightarrow> same_systems a c"
  by (simp add: same_systems_def)

lemma same_systems_fields:
  "same_systems wb (wb\<lparr>wb_archetypes := a\<rparr>)" "same_systems wb (wb\<lparr>wb_sync_globals := g\<rparr>)"
  "same_systems wb (wb\<lparr>wb_unsync_globals := g\<rparr>)" "same_systems wb wb"
  by (simp_all add: same_systems_def)

lemma register_same_systems:
  "register_global sync node g wb = Inr wb' \<Longrightarrow> same_systems wb wb'"
  "register_simple ci flag node r wb = Inr wb' \<Longrightarrow> same_systems wb wb'"
  "register_isotope flag node i wb = Inr wb' \<Longrightarrow> same_systems wb wb'"
  "same_systems wb (register_creator node e wb)"
proof -
  have step: "same_systems wb (depend_strong refs node wb1)"
    if "use_resource_wb node ty access wb0 = Inr wb1" "same_systems wb wb0"
    for wb wb0 wb1 :: "('a, 'b, 'c) world_builder" and refs ty access
    using same_systems_trans [OF that(2) same_systems_trans [OF use_resource_same_systems [OF that(1)]]]
    by simp
  show "register_global sync node g wb = Inr wb' \<Longrightarrow> same_systems wb wb'"
    by (auto simp: register_global_def split: global_initial.splits if_splits
        intro: step same_systems_fields)
  show "register_simple ci flag node r wb = Inr wb' \<Longrightarrow> same_systems wb wb'"
    by (auto simp: register_simple_def intro: step same_systems_fields)
  show "register_isotope flag node i wb = Inr wb' \<Longrightarrow> same_systems wb wb'"
    by (auto simp: register_isotope_def Let_def intro: step same_systems_fields)
  show "same_systems wb (register_creator node e wb)"
    by (simp add: register_creator_def same_systems_fields)
qed

lemma register_resources_same_systems:
  assumes "register_resources ci flag node sys wb = Inr wb'"
  shows "same_systems wb wb'"
proof -
  let ?wb0 = "depend_strong (filter (\<lambda>arch. arch \<notin> set (sys_maybe_uninit sys)) (sys_found_archs sys)) node wb"
  from assms obtain wb1 wb2 wb3 where
      1: "fold_res (register_global (sys_sync sys) node) (global_requests (sys_spec sys)) ?wb0 = Inr wb1"
    and 2: "fold_res (register_simple ci flag node) (simple_requests (sys_spec sys)) wb1 = Inr wb2"
    and 3: "fold_res (register_isotope flag node) (isotope_requests (sys_spec sys)) wb2 = Inr wb3"
    and 5: "wb' = depend_on (spec_dependencies (sys_spec sys)) node
      (fold (register_creator node) (entity_creator_requests (sys_spec sys)) wb3)"
    by (auto simp: register_resources_def Let_def)
  have "same_systems wb3 (fold (register_creator node) (entity_creator_requests (sys_spec sys)) wb3)"
    by (rule fold_same_systems [where xs = "entity_creator_requests (sys_spec sys)" and
          f = "\<lambda>r wb. Inr (register_creator node r wb)"])
      (auto simp: fold_res_pure intro: register_same_systems)
  moreover have "same_systems wb ?wb0" by simp
  moreover have "same_systems ?wb0 wb1" by (rule fold_same_systems [OF 1 register_same_systems(1)])
  moreover have "same_systems wb1 wb2" by (rule fold_same_systems [OF 2 register_same_systems(2)])
  moreover have "same_systems wb2 wb3" by (rule fold_same_systems [OF 3 register_same_systems(3)])
  moreover have "same_systems (fold (register_creator node) (entity_creator_requests (sys_spec sys)) wb3) wb'"
    unfolding 5 by simp
  ultimately show ?thesis by (simp only: same_systems_def)
qed

lemma schedule_system_ok:
  assumes ok: "scheduled syss wb" and r: "schedule_system ci flag sys wb = Inr wb'"
  shows "scheduled (syss @ [sys]) wb' \<and> wb_extends wb wb'"
proof -
  let ?n = "node_at (syss @ [sys]) (length syss)"
  define b where "b = (if sys_sync sys then (wb_scheduler wb)\<lparr>send_systems := send_systems (wb_scheduler wb) @ [debug_name (sys_spec sys)]\<rparr>
    else (wb_scheduler wb)\<lparr>unsend_systems := unsend_systems (wb_scheduler wb) @ [debug_name (sys_spec sys)]\<rparr>)"
  let ?wb1 = "wb\<lparr>wb_scheduler := b\<rparr>"
  have push: "(if sys_sync sys then push_send_system (debug_name (sys_spec sys)) (wb_scheduler wb)
      else push_unsend_system (debug_name (sys_spec sys)) (wb_scheduler wb)) = (?n, b)"
    using ok by (simp add: push_send_system_def push_unsend_system_def b_def node_at_def scheduled_def)
  have rr: "register_resources ci flag ?n sys ?wb1 = Inr wb'"
    using r unfolding schedule_system_def push by simp
  have wf: "builder_wf (wb_scheduler wb)" using ok by (simp add: scheduled_def)
  have good: "wb_good ?n ?wb1"
    using push push_send_system_wf [OF wf] push_unsend_system_wf [OF wf]
    by (auto simp: wb_good_def split: if_splits)
  have ext: "wb_extends wb ?wb1"
    by (auto simp: wb_extends_def builder_extends_def b_def accesses_of_def)
  note reg = register_resources_ok [OF good rr]
  have ext': "wb_extends wb wb'" using wb_extends_trans [OF ext] reg by blast
  have len: "length (send_systems (wb_scheduler wb')) = length (filter sys_sync (syss @ [sys]))"
    "length (unsend_systems (wb_scheduler wb')) = length (filter (\<lambda>s. \<not> sys_sync s) (syss @ [sys]))"
    using register_resources_same_systems [OF rr] ok by (auto simp: same_systems_def b_def scheduled_def)
  have old: "builder_system (wb_scheduler wb') (node_at syss k) \<and> recorded (node_at syss k) (syss ! k) wb'"
    if "k < length syss" for k
    using ok that builder_system_extends [OF ext' [unfolded wb_extends_def]] recorded_stable [OF _ ext']
    by (auto simp: scheduled_def)
  show ?thesis
    using reg len old ext'
    by (auto simp: scheduled_def wb_good_def less_Suc_eq nth_append node_at_append)
qed

lemma schedule_all_ok:
  assumes "schedule_all ci flag syss wb = Inr wb'" and "scheduled [] wb"
  shows "scheduled syss wb'"
  using assms(1)
proof (induction syss arbitrary: wb' rule: rev_induct)
  case Nil
  with assms(2) show ?case by (simp add: schedule_all_def)
next
  case (snoc sys syss)
  then show ?case
    by (auto simp: schedule_all_def fold_res_append dest: schedule_system_ok)
qed

lemma scheduled_new: "scheduled [] (world_builder_new gt gs n)"
  by (simp add: scheduled_def world_builder_new_def builder_wf_new) (simp add: builder_new_def)

lemma node_at_less:
  assumes "i < j" and "j < length syss"
  shows "node_at syss i \<noteq> node_at syss j"
proof -
  obtain d where j: "j = Suc i + d" using assms(1) by (metis add_Suc less_imp_Suc_add)
  have t: "take j syss = take i syss @ syss ! i # take d (drop (Suc i) syss)"
    unfolding j take_add using assms by (simp add: take_Suc_conv_app_nth)
  show ?thesis by (simp add: node_at_def t)
qed

lemma node_at_inj:
  "i < length syss \<Longrightarrow> j < length syss \<Longrightarrow> i \<noteq> j \<Longrightarrow> node_at syss i \<noteq> node_at syss j"
  by (metis linorder_neqE_nat node_at_less)

text \<open>What scheduling and building give together, for the properties of whole schedules.\<close>

lemma world_schedule:
  assumes "schedule_all ci flag syss (world_builder_new gt gs n) = Inr wb"
    and ho: "hash_order_ok ho" and b: "build ho (wb_scheduler wb) = Some (Inr s)"
  shows "scheduled syss wb" and "built_topology ho (wb_scheduler wb) = sched_topology s"
    and "topology_for (builder_nodes (wb_scheduler wb)) (orders (wb_scheduler wb))
      (resources (wb_scheduler wb)) (sched_topology s)"
proof -
  show sch: "scheduled syss wb" by (rule schedule_all_ok [OF assms(1) scheduled_new])
  then have wf: "builder_wf (wb_scheduler wb)" by (simp add: scheduled_def)
  show "built_topology ho (wb_scheduler wb) = sched_topology s" by (rule built_topology_eq [OF wf ho b])
  show "topology_for (builder_nodes (wb_scheduler wb)) (orders (wb_scheduler wb))
      (resources (wb_scheduler wb)) (sched_topology s)"
    using build_outcome [OF wf ho] b by auto
qed

lemma requests_excluded:
  assumes sch: "scheduled syss wb"
    and t: "topology_for (builder_nodes (wb_scheduler wb)) (orders (wb_scheduler wb))
      (resources (wb_scheduler wb)) t"
    and ij: "i < length syss" "j < length syss" "i \<noteq> j"
    and req: "(ty, a1) \<in> set (requests (syss ! i))" "(ty, a2) \<in> set (requests (syss ! j))" "conflicts a1 a2"
  shows "node_at syss j \<in> set (succs (exclusions t) (node_at syss i))"
proof -
  have acc: "a1 \<in> set (accesses_of (wb_scheduler wb) ty (node_at syss i))"
    "a2 \<in> set (accesses_of (wb_scheduler wb) ty (node_at syss j))"
    using sch ij req by (fastforce simp: scheduled_def recorded_def has_access_def)+
  have "users_conflict (resources (wb_scheduler wb)) (node_at syss i) (node_at syss j)"
    using acc req(3) node_at_inj [OF ij] sch by (auto simp: users_conflict_accesses scheduled_def)
  moreover have "node_at syss i \<in> set (builder_nodes (wb_scheduler wb))"
    using sch ij by (auto simp: scheduled_def builder_system_def)
  ultimately show ?thesis using t by (auto simp: topology_for_def)
qed

lemma orders_connected:
  assumes sch: "scheduled syss wb"
    and t: "topology_for (builder_nodes (wb_scheduler wb)) (orders (wb_scheduler wb))
      (resources (wb_scheduler wb)) t"
    and ij: "i < length syss" "j < length syss"
    and want: "Before par \<in> set (wanted_orders (syss ! i))" "After par \<in> set (wanted_orders (syss ! j))"
  shows "(node_at syss i, node_at syss j) \<in> (edges (dependents t))\<^sup>+"
proof -
  let ?b = "wb_scheduler wb"
  have "has_order ?b (node_at syss i) (Before par)" "has_order ?b (node_at syss j) (After par)"
    using sch ij want by (auto simp: scheduled_def recorded_def has_dep_def)
  then obtain k k' where k: "par_node ?b par k" "\<lparr>before = node_at syss i, after = k\<rparr> \<in> set (orders ?b)"
    and k': "par_node ?b par k'" "\<lparr>before = k', after = node_at syss j\<rparr> \<in> set (orders ?b)"
    by (auto simp: has_order_def)
  have "distinct (builder_partitions ?b)" using sch by (simp add: scheduled_def builder_wf_def)
  then have "k' = k" using k(1) k'(1) by (auto simp: par_node_def distinct_conv_nth)
  have su: "succs (dependents t) = out_list (orders ?b)" using t by (simp add: topology_for_def)
  have "(node_at syss i, k) \<in> edges (dependents t)" "(k, node_at syss j) \<in> edges (dependents t)"
    using k(2) k'(2) \<open>k' = k\<close> by (force simp: edges_succs su out_list_def)+
  then show ?thesis by auto
qed

end
