(* ===== verification/Executor.thy ===== *)
theory Executor
  imports Sched_Builder "HOL-Library.Word"
begin

section \<open>The executor\<close>

text \<open>
  \<^verbatim>\<open>src/scheduler/executor.rs\<close> in a debug build: the worker threads and the main thread that run the
  systems of one cycle. The state is the planner behind its mutex, a program counter per
  thread (the workers first, the main thread last, as the shards are split), the deadlock
  counter, an \<open>AtomicUsize\<close> kept as a 64-bit word, and the panic flag. The mutex is held from one
  release point to the next, so one step of a thread is everything between two releases:
  resuming at the loop head up to the start of a system or to the wait on the condition
  variable, or re-locking after a system, completing it, waking all waiters and going on with the
  loop. A waiter can time out at any moment; it is then no longer on the condition variable but
  needs the mutex to go on.

  The tracer, the thread pool and what a system does are outside the model: a running system
  may finish or panic at any moment. Entity allocation shards and the offline buffer have their own
  theories.
\<close>

datatype pc =
    AtLoop            \<comment> \<open>at the loop head, has not locked the planner yet\<close>
  | Running node      \<comment> \<open>inside \<open>MutexGuard::unlocked\<close>, running the system\<close>
  | Waiting           \<comment> \<open>parked in \<open>condvar.wait_for\<close>\<close>
  | TimedOut          \<comment> \<open>\<open>wait_for\<close> timed out, about to lock the planner\<close>
  | Woken             \<comment> \<open>notified, about to lock the planner\<close>
  | Returned
  | GaveUp            \<comment> \<open>returned too, but after a time-out, so without \<open>end_wait\<close>\<close>
  | Unwound node      \<comment> \<open>its system panicked\<close>

record exec_state =
  ex_planner :: planner
  ex_pcs :: "pc list"
  ex_counter :: "64 word"
  ex_had_panic :: bool

definition exec_init :: "'p topology \<Rightarrow> nat \<Rightarrow> exec_state" where
  "exec_init t conc =
     \<lparr>ex_planner = initial_planner t, ex_pcs = replicate (conc + 1) AtLoop,
      ex_counter = of_nat (conc + 1), ex_had_panic = False\<rparr>"

definition set_pc :: "nat \<Rightarrow> pc \<Rightarrow> exec_state \<Rightarrow> exec_state" where
  "set_pc i pc s = s\<lparr>ex_pcs := (ex_pcs s)[i := pc]\<rparr>"

text \<open>\<open>DeadlockCounter\<close>: \<open>fetch_sub\<close> wraps and returns the old value.\<close>

definition start_wait :: "64 word \<Rightarrow> 64 word res" where
  "start_wait cnt = (if cnt = 1 then Inl DeadlockDetected else Inr (cnt - 1))"

definition end_wait :: "64 word \<Rightarrow> nat \<Rightarrow> 64 word" where
  "end_wait cnt k = cnt + of_nat k"

definition wait_for_task :: "nat \<Rightarrow> exec_state \<Rightarrow> exec_state res" where
  "wait_for_task i s =
     bind_res (start_wait (ex_counter s)) (\<lambda>c. Inr ((set_pc i Waiting s)\<lparr>ex_counter := c\<rparr>))"

definition threaded_worker :: "'p topology \<Rightarrow> nat \<Rightarrow> exec_state \<Rightarrow> exec_state res" where
  "threaded_worker t i s =
     bind_res (steal_send t (ex_planner s)) (\<lambda>(r, p).
       let s1 = s\<lparr>ex_planner := p\<rparr> in
       case r of
         StealCycleComplete \<Rightarrow> Inr (set_pc i Returned s1)
       | StealPending \<Rightarrow> wait_for_task i s1
       | StealReady k \<Rightarrow> Inr (set_pc i (Running (SendSystem k)) s1))"

definition main_worker :: "'p topology \<Rightarrow> bool \<Rightarrow> nat \<Rightarrow> exec_state \<Rightarrow> exec_state res" where
  "main_worker t poll_send i s =
     bind_res (steal_unsend t (ex_planner s)) (\<lambda>(r, p).
       let s1 = s\<lparr>ex_planner := p\<rparr> in
       case r of
         StealCycleComplete \<Rightarrow> Inr (set_pc i Returned s1)
       | StealPending \<Rightarrow>
           if poll_send then
             bind_res (steal_send t (ex_planner s1)) (\<lambda>(r', p').
               let s2 = s1\<lparr>ex_planner := p'\<rparr> in
               case r' of
                 StealCycleComplete \<Rightarrow> Inr (set_pc i Returned s2)
               | StealPending \<Rightarrow> wait_for_task i s2
               | StealReady k \<Rightarrow> Inr (set_pc i (Running (SendSystem k)) s2))
           else wait_for_task i s1
       | StealReady k \<Rightarrow> Inr (set_pc i (Running (UnsendSystem k)) s1))"

text \<open>The last thread is the main thread; without workers it polls both pools.\<close>

definition thread_loop :: "'p topology \<Rightarrow> nat \<Rightarrow> exec_state \<Rightarrow> exec_state res" where
  "thread_loop t i s =
     (if i + 1 = length (ex_pcs s) then main_worker t (length (ex_pcs s) = 1) i s
      else threaded_worker t i s)"

text \<open>\<open>condvar.notify_all()\<close> wakes exactly the parked threads and returns how many they are.\<close>

definition notify_all :: "exec_state \<Rightarrow> exec_state" where
  "notify_all s =
     s\<lparr>ex_pcs := map (\<lambda>pc. if pc = Waiting then Woken else pc) (ex_pcs s),
       ex_counter := end_wait (ex_counter s) (count_list (ex_pcs s) Waiting)\<rparr>"

definition finish_system :: "'p topology \<Rightarrow> nat \<Rightarrow> node \<Rightarrow> exec_state \<Rightarrow> exec_state res" where
  "finish_system t i n s =
     bind_res (complete t n (ex_planner s)) (\<lambda>p.
       thread_loop t i (notify_all (set_pc i AtLoop (s\<lparr>ex_planner := p\<rparr>))))"

datatype exec_event =
    Resume nat      \<comment> \<open>the thread gets the mutex\<close>
  | Finish nat      \<comment> \<open>its system returns\<close>
  | Crash nat       \<comment> \<open>its system panics: the panic guard sets the flag\<close>
  | TimeOut nat     \<comment> \<open>its wait on the condition variable times out\<close>

fun event_thread :: "exec_event \<Rightarrow> nat" where
  "event_thread (Resume i) = i"
| "event_thread (Finish i) = i"
| "event_thread (Crash i) = i"
| "event_thread (TimeOut i) = i"

text \<open>\<open>None\<close>: the event cannot happen in this state.\<close>

definition exec_step :: "'p topology \<Rightarrow> exec_event \<Rightarrow> exec_state \<Rightarrow> exec_state res option" where
  "exec_step t ev s =
     (if event_thread ev < length (ex_pcs s) then
        (let i = event_thread ev in
         case (ev, ex_pcs s ! i) of
           (Resume _, AtLoop) \<Rightarrow> Some (thread_loop t i s)
         | (Resume _, Woken) \<Rightarrow>
             Some (if ex_had_panic s then Inr (set_pc i Returned s) else thread_loop t i s)
         | (Resume _, TimedOut) \<Rightarrow>
             Some (Inr (set_pc i (if ex_had_panic s then GaveUp else Waiting) s))
         | (Finish _, Running n) \<Rightarrow> Some (finish_system t i n s)
         | (Crash _, Running n) \<Rightarrow> Some (Inr ((set_pc i (Unwound n) s)\<lparr>ex_had_panic := True\<rparr>))
         | (TimeOut _, Waiting) \<Rightarrow> Some (Inr (set_pc i TimedOut s))
         | _ \<Rightarrow> None)
      else None)"

inductive exec_reach :: "(exec_event \<Rightarrow> bool) \<Rightarrow> 'p topology \<Rightarrow> nat \<Rightarrow> exec_state \<Rightarrow> bool"
  for allowed t conc where
  init: "exec_reach allowed t conc (exec_init t conc)"
| step: "exec_reach allowed t conc s \<Longrightarrow> allowed ev \<Longrightarrow> exec_step t ev s = Some (Inr s') \<Longrightarrow>
    exec_reach allowed t conc s'"

text \<open>The check after the cycle in debug builds.\<close>

definition check_completed :: "exec_state \<Rightarrow> unit res" where
  "check_completed s =
     (if fmpred (\<lambda>_ w. w = Completed) (wakeup_state (ex_planner s)) then Inr () else Inl NotCompleted)"

subsection \<open>Which thread runs which system\<close>

fun pc_node :: "pc \<Rightarrow> node option" where
  "pc_node (Running n) = Some n"
| "pc_node (Unwound n) = Some n"
| "pc_node _ = None"

text \<open>The threads that the deadlock counter does not count.\<close>

definition is_parked :: "pc \<Rightarrow> bool" where
  "is_parked pc \<longleftrightarrow> pc = Waiting \<or> pc = TimedOut \<or> pc = GaveUp"

definition active :: "pc list \<Rightarrow> nat" where
  "active pcs = length (filter (\<lambda>pc. \<not> is_parked pc) pcs)"

definition exec_inv :: "'p topology \<Rightarrow> nat \<Rightarrow> exec_state \<Rightarrow> bool" where
  "exec_inv t conc s \<longleftrightarrow>
     planner_inv t (ex_planner s) \<and>
     length (ex_pcs s) = conc + 1 \<and>
     (\<forall>n. n \<in> running (ex_planner s) \<longleftrightarrow> Some n \<in> set (map pc_node (ex_pcs s))) \<and>
     (\<forall>n. count_list (map pc_node (ex_pcs s)) (Some n) \<le> 1) \<and>
     ex_counter s = of_nat (active (ex_pcs s)) \<and>
     (\<forall>i < length (ex_pcs s). \<forall>n. ex_pcs s ! i = Unwound n \<longrightarrow> ex_had_panic s) \<and>
     (Returned \<in> set (ex_pcs s) \<longrightarrow> ex_had_panic s \<or> remaining_systems (ex_planner s) = 0)"

lemma active_update:
  "i < length pcs \<Longrightarrow>
     active (pcs[i := pc]) + (if is_parked (pcs ! i) then 0 else 1) =
     active pcs + (if is_parked pc then 0 else 1)"
  using length_filter_update [of i pcs "\<lambda>pc. \<not> is_parked pc" pc]
  by (auto simp: active_def split: if_splits)

lemma active_le: "active pcs \<le> length pcs"
  by (simp add: active_def)

lemma active_pos: "i < length pcs \<Longrightarrow> \<not> is_parked (pcs ! i) \<Longrightarrow> 0 < active pcs"
  by (auto simp: active_def filter_empty_conv intro: nth_mem)

lemma of_nat_eq_1_word64: "n < 2 ^ 64 \<Longrightarrow> (of_nat n :: 64 word) = 1 \<longleftrightarrow> n = 1"
proof -
  assume n: "n < 2 ^ 64"
  have "(of_nat n :: 64 word) = of_nat 1 \<longleftrightarrow> take_bit 64 n = take_bit 64 (1::nat)"
    by (subst word_of_nat_eq_iff) simp
  with n show ?thesis by (simp add: take_bit_nat_eq_self)
qed

text \<open>What one pass of the loop does to its thread.\<close>

definition loop_post :: "'p topology \<Rightarrow> nat \<Rightarrow> exec_state \<Rightarrow> exec_state \<Rightarrow> bool" where
  "loop_post t i s s' \<longleftrightarrow>
     ex_had_panic s' = ex_had_panic s \<and>
     remaining_systems (ex_planner s') = remaining_systems (ex_planner s) \<and>
     finished (ex_planner s') = finished (ex_planner s) \<and>
     send_runnable (ex_planner s') \<subseteq> send_runnable (ex_planner s) \<and>
     unsend_runnable (ex_planner s') \<subseteq> unsend_runnable (ex_planner s) \<and>
     ((\<exists>n. can_start t (running (ex_planner s)) (finished (ex_planner s)) n \<and>
         ex_pcs s' = (ex_pcs s)[i := Running n] \<and>
         running (ex_planner s') = insert n (running (ex_planner s))) \<or>
      (ex_planner s' = ex_planner s \<and>
       (ex_pcs s' = (ex_pcs s)[i := Returned] \<and> remaining_systems (ex_planner s) = 0 \<or>
        ex_pcs s' = (ex_pcs s)[i := Waiting])))"

text \<open>The pools thread \<open>i\<close> takes systems from are empty.\<close>

definition pool_empty :: "nat \<Rightarrow> nat \<Rightarrow> planner \<Rightarrow> bool" where
  "pool_empty conc i p \<longleftrightarrow>
     (if i = conc then unsend_runnable p = {} \<and> (conc = 0 \<longrightarrow> send_runnable p = {})
      else send_runnable p = {})"

text \<open>One pass either reports a deadlock of all threads or goes on.\<close>

definition loop_ok :: "'p topology \<Rightarrow> nat \<Rightarrow> nat \<Rightarrow> exec_state \<Rightarrow> exec_state res \<Rightarrow> bool" where
  "loop_ok t conc i s r \<longleftrightarrow>
     (r = Inl DeadlockDetected \<and> active (ex_pcs s) = 1 \<and> remaining_systems (ex_planner s) \<noteq> 0 \<and>
        pool_empty conc i (ex_planner s)) \<or>
     (\<exists>s'. r = Inr s' \<and> exec_inv t conc s' \<and> loop_post t i s s' \<and>
        (ex_pcs s' = (ex_pcs s)[i := Waiting] \<longrightarrow>
           pool_empty conc i (ex_planner s) \<and> remaining_systems (ex_planner s) \<noteq> 0))"

context schedule
begin

lemma exec_inv_assign:
  assumes inv: "exec_inv t conc s" and i: "i < length (ex_pcs s)"
    and old: "pc_node (ex_pcs s ! i) = None" "\<not> is_parked (ex_pcs s ! i)"
    and p': "planner_inv t p'" "running p' = running (ex_planner s) \<union> set_option (pc_node pc)"
      "\<And>n. pc_node pc = Some n \<Longrightarrow> n \<notin> running (ex_planner s)"
      "remaining_systems p' = remaining_systems (ex_planner s)"
    and pc: "\<And>n. pc \<noteq> Unwound n" "pc = Returned \<Longrightarrow> ex_had_panic s \<or> remaining_systems p' = 0"
    and c: "c = of_nat (active ((ex_pcs s)[i := pc]))"
  shows "exec_inv t conc (s\<lparr>ex_planner := p', ex_pcs := (ex_pcs s)[i := pc], ex_counter := c\<rparr>)"
proof -
  let ?pcs = "(ex_pcs s)[i := pc]"
  have cnt: "count_list (map pc_node ?pcs) (Some n) =
      count_list (map pc_node (ex_pcs s)) (Some n) + (if pc_node pc = Some n then 1 else 0)" for n
    using count_list_update [of i "map pc_node (ex_pcs s)" "pc_node pc" "Some n"] i old(1)
    by (simp add: map_update)
  have zero: "count_list (map pc_node (ex_pcs s)) (Some n) = 0" if "n \<notin> running (ex_planner s)" for n
    using inv that by (simp add: exec_inv_def count_list_zero)
  have run: "n \<in> running p' \<longleftrightarrow> Some n \<in> set (map pc_node ?pcs)" for n
  proof -
    have "n \<in> running (ex_planner s) \<longleftrightarrow> count_list (map pc_node (ex_pcs s)) (Some n) \<noteq> 0"
      using inv by (simp add: exec_inv_def count_list_zero)
    moreover have "Some n \<in> set (map pc_node ?pcs) \<longleftrightarrow> count_list (map pc_node ?pcs) (Some n) \<noteq> 0"
      by (simp add: count_list_zero)
    ultimately show ?thesis using p'(2) cnt [of n] by auto
  qed
  have le: "count_list (map pc_node ?pcs) (Some n) \<le> 1" for n
    using inv cnt [of n] zero [of n] p'(3) [of n] by (auto simp: exec_inv_def)
  have unw: "ex_had_panic s" if "j < length ?pcs" "?pcs ! j = Unwound n" for j n
    using inv that i pc(1) by (cases "j = i") (auto simp: exec_inv_def)
  have ret: "ex_had_panic s \<or> remaining_systems p' = 0" if "Returned \<in> set ?pcs"
    using inv that pc(2) p'(4) set_update_subset_insert [of "ex_pcs s" i pc] by (auto simp: exec_inv_def)
  show ?thesis
    unfolding exec_inv_def using inv p'(1) run le unw ret c by (simp add: exec_inv_def)
qed

text \<open>
  Waiting: either the thread parks, or it was the last one not parked and the deadlock counter
  reports it.
\<close>

lemma wait_for_task_ok:
  assumes inv: "exec_inv t conc s" and i: "i < length (ex_pcs s)"
    and old: "pc_node (ex_pcs s ! i) = None" "\<not> is_parked (ex_pcs s ! i)"
    and bound: "conc + 1 < 2 ^ 64"
  shows "if active (ex_pcs s) = 1 then wait_for_task i s = Inl DeadlockDetected
    else \<exists>s'. wait_for_task i s = Inr s' \<and> exec_inv t conc s' \<and> ex_planner s' = ex_planner s \<and>
      ex_pcs s' = (ex_pcs s)[i := Waiting] \<and> ex_had_panic s' = ex_had_panic s"
proof -
  have c: "ex_counter s = of_nat (active (ex_pcs s))" and len: "length (ex_pcs s) = conc + 1"
    using inv by (simp_all add: exec_inv_def)
  have lt: "active (ex_pcs s) < 2 ^ 64" using active_le [of "ex_pcs s"] len bound by linarith
  have one: "ex_counter s = 1 \<longleftrightarrow> active (ex_pcs s) = 1" unfolding c by (rule of_nat_eq_1_word64 [OF lt])
  have act: "active (ex_pcs s) = Suc (active ((ex_pcs s)[i := Waiting]))"
    using active_update [OF i, of Waiting] old(2) by (simp add: is_parked_def)
  have "exec_inv t conc (s\<lparr>ex_planner := ex_planner s, ex_pcs := (ex_pcs s)[i := Waiting], ex_counter := ex_counter s - 1\<rparr>)"
    by (rule exec_inv_assign [OF inv i old]) (use inv in \<open>auto simp: exec_inv_def c act\<close>)
  with one show ?thesis by (simp add: wait_for_task_def start_wait_def set_pc_def)
qed

lemma pool_states:
  assumes "planner_inv t p"
  shows "send_runnable p = {i. can_start t (running p) (finished p) (SendSystem i)}"
    and "unsend_runnable p = {i. can_start t (running p) (finished p) (UnsendSystem i)}"
  using assms by (simp_all add: planner_inv_def planner_mid_def pending_iff [OF assms, symmetric])

text \<open>Starting a system only shrinks what can start.\<close>

lemma can_start_insert: "can_start t (insert n R) F m \<Longrightarrow> can_start t R F m"
  by (auto simp: can_start_def)

lemma start_pools:
  assumes "planner_inv t p" and "planner_inv t p'" and "running p' = insert n (running p)"
    and "finished p' = finished p"
  shows "send_runnable p' \<subseteq> send_runnable p" "unsend_runnable p' \<subseteq> unsend_runnable p"
  using assms by (auto simp: pool_states dest: can_start_insert)

lemma run_assign:
  assumes inv: "exec_inv t conc s" and i: "i < length (ex_pcs s)"
    and old: "pc_node (ex_pcs s ! i) = None" "\<not> is_parked (ex_pcs s ! i)"
    and p': "planner_inv t p'" "remaining_systems p' = remaining_systems (ex_planner s)"
      "can_start t (running (ex_planner s)) (finished (ex_planner s)) n"
      "running p' = insert n (running (ex_planner s))" "finished p' = finished (ex_planner s)"
  shows "exec_inv t conc (set_pc i (Running n) (s\<lparr>ex_planner := p'\<rparr>)) \<and>
    loop_post t i s (set_pc i (Running n) (s\<lparr>ex_planner := p'\<rparr>))"
proof
  have act: "active ((ex_pcs s)[i := Running n]) = active (ex_pcs s)"
    using active_update [OF i, of "Running n"] old(2) by (simp add: is_parked_def)
  have inv_p: "planner_inv t (ex_planner s)" using inv by (simp add: exec_inv_def)
  have "exec_inv t conc (s\<lparr>ex_planner := p', ex_pcs := (ex_pcs s)[i := Running n], ex_counter := ex_counter s\<rparr>)"
    by (rule exec_inv_assign [OF inv i old])
      (use inv p' in \<open>auto simp: exec_inv_def act can_start_def\<close>)
  then show "exec_inv t conc (set_pc i (Running n) (s\<lparr>ex_planner := p'\<rparr>))" by (simp add: set_pc_def)
  show "loop_post t i s (set_pc i (Running n) (s\<lparr>ex_planner := p'\<rparr>))"
    using start_pools [OF inv_p p'(1) p'(4,5)] p' by (auto simp: loop_post_def set_pc_def)
qed

lemma return_assign:
  assumes inv: "exec_inv t conc s" and i: "i < length (ex_pcs s)"
    and old: "pc_node (ex_pcs s ! i) = None" "\<not> is_parked (ex_pcs s ! i)"
    and ret: "ex_had_panic s \<or> remaining_systems (ex_planner s) = 0"
  shows "exec_inv t conc (set_pc i Returned s)"
proof -
  have act: "active ((ex_pcs s)[i := Returned]) = active (ex_pcs s)"
    using active_update [OF i, of Returned] old(2) by (simp add: is_parked_def)
  have "exec_inv t conc (s\<lparr>ex_planner := ex_planner s, ex_pcs := (ex_pcs s)[i := Returned], ex_counter := ex_counter s\<rparr>)"
    by (rule exec_inv_assign [OF inv i old]) (use inv ret in \<open>auto simp: exec_inv_def act\<close>)
  then show ?thesis by (simp add: set_pc_def)
qed

lemma wait_assign:
  assumes inv: "exec_inv t conc s" and i: "i < length (ex_pcs s)"
    and old: "pc_node (ex_pcs s ! i) = None" "\<not> is_parked (ex_pcs s ! i)"
    and bound: "conc + 1 < 2 ^ 64"
  shows "wait_for_task i s = Inl DeadlockDetected \<and> active (ex_pcs s) = 1 \<or>
    (\<exists>s'. wait_for_task i s = Inr s' \<and> exec_inv t conc s' \<and> loop_post t i s s' \<and>
       ex_pcs s' = (ex_pcs s)[i := Waiting])"
  using wait_for_task_ok [OF assms] by (auto simp: loop_post_def split: if_splits)

lemma steal_send_cases:
  assumes "planner_inv t p"
  obtains (complete) "steal_send t p = Inr (StealCycleComplete, p)" "remaining_systems p = 0"
  | (pending) "steal_send t p = Inr (StealPending, p)" "remaining_systems p \<noteq> 0" "send_runnable p = {}"
  | (ready) k p' where "steal_send t p = Inr (StealReady k, p')" "planner_inv t p'"
      "remaining_systems p' = remaining_systems p"
      "can_start t (running p) (finished p) (SendSystem k)"
      "running p' = insert (SendSystem k) (running p)" "finished p' = finished p"
proof -
  obtain r p' where *: "steal_send t p = Inr (r, p')" "planner_inv t p'" "steal_spec t SendSystem p r p'"
    "remaining_systems p' = remaining_systems p" using steal_send_ok [OF assms] by blast
  show thesis
  proof (cases r)
    case (StealReady k)
    with * ready show thesis by (simp add: steal_spec_def)
  next
    case StealPending
    with * pending remaining_zero [OF assms] pool_states(1) [OF assms] show thesis
      by (simp add: steal_spec_def)
  next
    case StealCycleComplete
    with * complete remaining_zero [OF assms] show thesis by (simp add: steal_spec_def)
  qed
qed

lemma steal_unsend_cases:
  assumes "planner_inv t p"
  obtains (complete) "steal_unsend t p = Inr (StealCycleComplete, p)" "remaining_systems p = 0"
  | (pending) "steal_unsend t p = Inr (StealPending, p)" "remaining_systems p \<noteq> 0" "unsend_runnable p = {}"
  | (ready) k p' where "steal_unsend t p = Inr (StealReady k, p')" "planner_inv t p'"
      "remaining_systems p' = remaining_systems p"
      "can_start t (running p) (finished p) (UnsendSystem k)"
      "running p' = insert (UnsendSystem k) (running p)" "finished p' = finished p"
proof -
  obtain r p' where *: "steal_unsend t p = Inr (r, p')" "planner_inv t p'" "steal_spec t UnsendSystem p r p'"
    "remaining_systems p' = remaining_systems p" using steal_unsend_ok [OF assms] by blast
  show thesis
  proof (cases r)
    case (StealReady k)
    with * ready show thesis by (simp add: steal_spec_def)
  next
    case StealPending
    with * pending remaining_zero [OF assms] pool_states(2) [OF assms] show thesis
      by (simp add: steal_spec_def)
  next
    case StealCycleComplete
    with * complete remaining_zero [OF assms] show thesis by (simp add: steal_spec_def)
  qed
qed

lemma update_neq: "i < length xs \<Longrightarrow> x \<noteq> y \<Longrightarrow> xs[i := x] \<noteq> xs[i := y]"
  using nth_list_update_eq by metis

lemma loop_ok_wait:
  assumes "exec_inv t conc s" and "i < length (ex_pcs s)"
    and "pc_node (ex_pcs s ! i) = None" "\<not> is_parked (ex_pcs s ! i)" and "conc + 1 < 2 ^ 64"
    and "pool_empty conc i (ex_planner s)" "remaining_systems (ex_planner s) \<noteq> 0"
  shows "loop_ok t conc i s (wait_for_task i s)"
  using wait_assign [OF assms(1-5)] assms(6,7) by (auto simp: loop_ok_def)

lemma loop_ok_return:
  assumes "exec_inv t conc s" and "i < length (ex_pcs s)"
    and "pc_node (ex_pcs s ! i) = None" "\<not> is_parked (ex_pcs s ! i)"
    and "remaining_systems (ex_planner s) = 0"
  shows "loop_ok t conc i s (Inr (set_pc i Returned s))"
proof -
  have "(ex_pcs s)[i := Returned] \<noteq> (ex_pcs s)[i := Waiting]"
    by (rule update_neq [OF assms(2)]) simp
  then show ?thesis
    using return_assign [OF assms(1-4)] assms(5) by (auto simp: loop_ok_def loop_post_def set_pc_def)
qed

lemma loop_ok_run:
  assumes "exec_inv t conc s" and i: "i < length (ex_pcs s)"
    and "pc_node (ex_pcs s ! i) = None" "\<not> is_parked (ex_pcs s ! i)"
    and "planner_inv t p'" "remaining_systems p' = remaining_systems (ex_planner s)"
      "can_start t (running (ex_planner s)) (finished (ex_planner s)) n"
      "running p' = insert n (running (ex_planner s))" "finished p' = finished (ex_planner s)"
  shows "loop_ok t conc i s (Inr (set_pc i (Running n) (s\<lparr>ex_planner := p'\<rparr>)))"
proof -
  have "(ex_pcs s)[i := Running n] \<noteq> (ex_pcs s)[i := Waiting]"
    by (rule update_neq [OF i]) simp
  then show ?thesis using run_assign [OF assms] by (auto simp: loop_ok_def set_pc_def)
qed

lemma thread_loop_ok:
  assumes inv: "exec_inv t conc s" and i: "i < length (ex_pcs s)"
    and old: "pc_node (ex_pcs s ! i) = None" "\<not> is_parked (ex_pcs s ! i)"
    and bound: "conc + 1 < 2 ^ 64"
  shows "loop_ok t conc i s (thread_loop t i s)"
proof -
  have len: "length (ex_pcs s) = conc + 1" and p: "planner_inv t (ex_planner s)"
    using inv by (simp_all add: exec_inv_def)
  have same: "s\<lparr>ex_planner := ex_planner s\<rparr> = s" by simp
  note oks = loop_ok_wait [OF inv i old bound] loop_ok_return [OF inv i old] loop_ok_run [OF inv i old]
  show ?thesis
  proof (cases "i = conc")
    case False
    then have "thread_loop t i s = threaded_worker t i s" using i len by (simp add: thread_loop_def)
    with False show ?thesis
      by (cases rule: steal_send_cases [OF p])
        (simp_all add: threaded_worker_def oks pool_empty_def)
  next
    case True
    then have eq: "thread_loop t i s = main_worker t (conc = 0) i s" using len by (simp add: thread_loop_def)
    show ?thesis
      proof (cases rule: steal_unsend_cases [OF p, case_names complete pending ready])
      case pending
      show ?thesis
      proof (cases rule: steal_send_cases [OF p, case_names complete2 pending2 ready2])
        case complete2
        with pending show ?thesis by simp
      next
        case pending2
        then have "main_worker t (conc = 0) i s = wait_for_task i s"
          using pending by (simp add: main_worker_def)
        moreover have "pool_empty conc i (ex_planner s)"
          using pending pending2 by (simp add: pool_empty_def)
        ultimately show ?thesis using eq oks(1) pending(2) by simp
      next
        case (ready2 k p')
        show ?thesis
        proof (cases "conc = 0")
          case True
          then have "main_worker t (conc = 0) i s = Inr (set_pc i (Running (SendSystem k)) (s\<lparr>ex_planner := p'\<rparr>))"
            using pending ready2(1) by (simp add: main_worker_def)
          then show ?thesis using eq oks(3) ready2 by simp
        next
          case False
          then have "main_worker t (conc = 0) i s = wait_for_task i s"
            using pending by (simp add: main_worker_def)
          moreover have "pool_empty conc i (ex_planner s)"
            using pending False \<open>i = conc\<close> by (simp add: pool_empty_def)
          ultimately show ?thesis using eq oks(1) pending(2) by simp
        qed
      qed
    qed (simp_all add: eq main_worker_def oks)
  qed
qed

lemma wake_pc_node: "map pc_node (map (\<lambda>pc. if pc = Waiting then Woken else pc) pcs) = map pc_node pcs"
  by (induction pcs) auto

lemma wake_active:
  "active (map (\<lambda>pc. if pc = Waiting then Woken else pc) pcs) = active pcs + count_list pcs Waiting"
  by (induction pcs) (auto simp: active_def is_parked_def)

text \<open>The state after a system has been completed and all waiters were notified.\<close>

lemma finish_state:
  assumes inv: "exec_inv t conc s" and i: "i < length (ex_pcs s)" and pc: "ex_pcs s ! i = Running n"
  obtains p' where "complete t n (ex_planner s) = Inr p'"
    and "exec_inv t conc (notify_all (set_pc i AtLoop (s\<lparr>ex_planner := p'\<rparr>)))"
    and "remaining_systems p' + 1 = remaining_systems (ex_planner s)"
    and "running p' = running (ex_planner s) - {n}" "finished p' = insert n (finished (ex_planner s))"
proof -
  have p: "planner_inv t (ex_planner s)" and c: "ex_counter s = of_nat (active (ex_pcs s))"
    using inv by (simp_all add: exec_inv_def)
  have "Some n \<in> set (map pc_node (ex_pcs s))" using i pc by (metis length_map nth_map nth_mem pc_node.simps(1))
  then have run: "state_of (ex_planner s) n = Some Started"
    using inv by (simp add: exec_inv_def running_def)
  obtain p' where p': "complete t n (ex_planner s) = Inr p'" "planner_inv t p'"
    "remaining_systems p' + 1 = remaining_systems (ex_planner s)"
    "\<forall>m. is_system m \<longrightarrow> (state_of p' m = Some Started \<longleftrightarrow> m \<noteq> n \<and> state_of (ex_planner s) m = Some Started) \<and>
       (state_of p' m = Some Completed \<longleftrightarrow> m = n \<or> state_of (ex_planner s) m = Some Completed)"
    using complete_ok [OF p run] by blast
  have sys: "is_system m" if "planner_inv t q" "state_of q m = Some Started" for q m
    using inv_node [OF that] by (simp add: node_ok_def)
  have r': "running p' = running (ex_planner s) - {n}" and f': "finished p' = insert n (finished (ex_planner s))"
    using p'(4) sys [OF p] sys [OF p'(2)] run by (auto simp: running_def finished_def)
  let ?pcs = "(ex_pcs s)[i := AtLoop]" and ?s1 = "notify_all (set_pc i AtLoop (s\<lparr>ex_planner := p'\<rparr>))"
  have cnt: "count_list (map pc_node ?pcs) (Some m) + (if m = n then 1 else 0) =
      count_list (map pc_node (ex_pcs s)) (Some m)" for m
    using count_list_update [of i "map pc_node (ex_pcs s)" None "Some m"] i pc
    by (auto simp: map_update split: if_splits)
  have run1: "m \<in> running p' \<longleftrightarrow> Some m \<in> set (map pc_node ?pcs)" for m
  proof -
    have "m \<in> running (ex_planner s) \<longleftrightarrow> count_list (map pc_node (ex_pcs s)) (Some m) \<noteq> 0"
      using inv by (simp add: exec_inv_def count_list_zero)
    moreover have "Some m \<in> set (map pc_node ?pcs) \<longleftrightarrow> count_list (map pc_node ?pcs) (Some m) \<noteq> 0"
      by (simp add: count_list_zero)
    moreover have "count_list (map pc_node (ex_pcs s)) (Some m) \<le> 1" using inv by (simp add: exec_inv_def)
    ultimately show ?thesis using r' cnt [of m] by (auto split: if_splits)
  qed
  have le: "count_list (map pc_node ?pcs) (Some m) \<le> 1" for m
    using inv cnt [of m] unfolding exec_inv_def by (metis add_leE)
  have act: "active ?pcs = active (ex_pcs s)"
    using active_update [OF i, of AtLoop] pc by (simp add: is_parked_def)
  have unw: "ex_had_panic s" if "j < length (ex_pcs s)" "ex_pcs ?s1 ! j = Unwound m" for j m
    using inv that i by (cases "j = i") (auto simp: exec_inv_def notify_all_def set_pc_def split: if_splits)
  have ret: "ex_had_panic s" if "Returned \<in> set (ex_pcs ?s1)"
  proof -
    have "Returned \<in> set (ex_pcs s)"
      using that set_update_subset_insert [of "ex_pcs s" i AtLoop]
      by (auto simp: notify_all_def set_pc_def split: if_splits)
    with inv p'(3) show ?thesis by (auto simp: exec_inv_def)
  qed
  have "exec_inv t conc ?s1"
    unfolding exec_inv_def
  proof (intro conjI allI impI)
    show "planner_inv t (ex_planner ?s1)" "length (ex_pcs ?s1) = conc + 1"
      using p'(2) inv by (simp_all add: notify_all_def set_pc_def exec_inv_def)
    show "ex_counter ?s1 = of_nat (active (ex_pcs ?s1))"
      by (simp add: notify_all_def set_pc_def end_wait_def wake_active act c)
    fix m
    have "ex_pcs ?s1 = map (\<lambda>pc. if pc = Waiting then Woken else pc) ?pcs"
      by (simp add: notify_all_def set_pc_def)
    then have nodes: "map pc_node (ex_pcs ?s1) = map pc_node ?pcs" by (simp only: wake_pc_node)
    show "m \<in> running (ex_planner ?s1) \<longleftrightarrow> Some m \<in> set (map pc_node (ex_pcs ?s1))"
      unfolding nodes using run1 by (simp add: notify_all_def set_pc_def)
    show "count_list (map pc_node (ex_pcs ?s1)) (Some m) \<le> 1"
      unfolding nodes by (rule le)
  qed (use unw ret in \<open>auto simp: notify_all_def set_pc_def\<close>)
  with p' r' f' show thesis by (intro that)
qed

text \<open>Every event keeps the invariant or ends in the deadlock report.\<close>

lemma unparked_update_inv:
  assumes inv: "exec_inv t conc s" and i: "i < length (ex_pcs s)"
    and pcs: "ex_pcs s ! i \<in> {Waiting, TimedOut}" "pc' \<in> {Waiting, TimedOut, GaveUp}"
  shows "exec_inv t conc (set_pc i pc' s)"
proof -
  have "map pc_node ((ex_pcs s)[i := pc']) = map pc_node (ex_pcs s)"
    using i pcs by (auto simp: map_update list_update_same_conv)
  moreover have "active ((ex_pcs s)[i := pc']) = active (ex_pcs s)"
    using active_update [OF i, of pc'] pcs by (auto simp: is_parked_def)
  moreover have "Returned \<in> set ((ex_pcs s)[i := pc']) \<Longrightarrow> Returned \<in> set (ex_pcs s)"
    using set_update_subset_insert [of "ex_pcs s" i pc'] pcs by auto
  moreover have "j < length (ex_pcs s) \<Longrightarrow> (ex_pcs s)[i := pc'] ! j = Unwound n \<Longrightarrow> ex_pcs s ! j = Unwound n" for j n
    using i pcs by (cases "j = i") auto
  ultimately show ?thesis
    using inv unfolding exec_inv_def set_pc_def
    by (simp del: set_map map_update)
qed

lemma crash_inv:
  assumes inv: "exec_inv t conc s" and i: "i < length (ex_pcs s)" and pc: "ex_pcs s ! i = Running n"
  shows "exec_inv t conc ((set_pc i (Unwound n) s)\<lparr>ex_had_panic := True\<rparr>)"
proof -
  have "map pc_node ((ex_pcs s)[i := Unwound n]) = map pc_node (ex_pcs s)"
    using i pc by (auto simp: map_update list_update_same_conv)
  moreover have "active ((ex_pcs s)[i := Unwound n]) = active (ex_pcs s)"
    using active_update [OF i, of "Unwound n"] pc by (auto simp: is_parked_def)
  ultimately show ?thesis
    using inv unfolding exec_inv_def set_pc_def by (simp del: set_map map_update)
qed

lemma ready_pc:
  "pc = AtLoop \<or> pc = Woken \<Longrightarrow> pc_node pc = None \<and> \<not> is_parked pc"
  by (auto simp: is_parked_def)

lemma finish_pcs:
  "ex_pcs (notify_all (set_pc i AtLoop (s\<lparr>ex_planner := p'\<rparr>))) =
     map (\<lambda>pc. if pc = Waiting then Woken else pc) ((ex_pcs s)[i := AtLoop])"
  by (simp add: notify_all_def set_pc_def)

lemma exec_step_inv:
  assumes inv: "exec_inv t conc s" and bound: "conc + 1 < 2 ^ 64" and r: "exec_step t ev s = Some r"
  shows "r = Inl DeadlockDetected \<or> (\<exists>s'. r = Inr s' \<and> exec_inv t conc s')"
proof -
  define i where "i = event_thread ev"
  from r have i: "i < length (ex_pcs s)" by (simp add: exec_step_def i_def split: if_splits)
  have loop: "thread_loop t i s1 = Inl DeadlockDetected \<or> (\<exists>s'. thread_loop t i s1 = Inr s' \<and> exec_inv t conc s')"
    if "exec_inv t conc s1" "i < length (ex_pcs s1)" "ex_pcs s1 ! i = AtLoop \<or> ex_pcs s1 ! i = Woken" for s1
    using thread_loop_ok [OF that(1,2) _ _ bound] ready_pc [OF that(3)] by (auto simp: loop_ok_def)
  have fin: "finish_system t i n s = Inl DeadlockDetected \<or> (\<exists>s'. finish_system t i n s = Inr s' \<and> exec_inv t conc s')"
    if pc: "ex_pcs s ! i = Running n" for n
  proof (rule finish_state [OF inv i pc])
    fix p'
    assume c: "complete t n (ex_planner s) = Inr p'"
      and inv1: "exec_inv t conc (notify_all (set_pc i AtLoop (s\<lparr>ex_planner := p'\<rparr>)))"
    show ?thesis
      using loop [OF inv1] i c by (simp add: finish_pcs finish_system_def)
  qed
  have ret: "ex_pcs s ! i = Woken \<Longrightarrow> ex_had_panic s \<Longrightarrow> exec_inv t conc (set_pc i Returned s)"
    using return_assign [OF inv i] by (auto simp: is_parked_def)
  show ?thesis
    using r loop [OF inv i] fin ret crash_inv [OF inv i] unparked_update_inv [OF inv i]
    by (auto simp: exec_step_def i_def [symmetric] Let_def split: if_splits exec_event.splits pc.splits)
qed

end

text \<open>Without time-outs no wake-up is lost: a parked thread has nothing to steal.\<close>

definition exec_awake :: "nat \<Rightarrow> exec_state \<Rightarrow> bool" where
  "exec_awake conc s \<longleftrightarrow>
     TimedOut \<notin> set (ex_pcs s) \<and> GaveUp \<notin> set (ex_pcs s) \<and>
     (\<forall>j < length (ex_pcs s). ex_pcs s ! j = Waiting \<longrightarrow>
        pool_empty conc j (ex_planner s) \<and> remaining_systems (ex_planner s) \<noteq> 0)"

fun is_timeout :: "exec_event \<Rightarrow> bool" where
  "is_timeout (TimeOut _) = True"
| "is_timeout _ = False"

fun is_crash :: "exec_event \<Rightarrow> bool" where
  "is_crash (Crash _) = True"
| "is_crash _ = False"

context schedule
begin

text \<open>With everyone else parked and nothing to steal, nothing would be runnable at all.\<close>

lemma no_deadlock:
  assumes inv: "exec_inv t conc s" and aw: "exec_awake conc s" and i: "i < length (ex_pcs s)"
    and pc: "ex_pcs s ! i = AtLoop \<or> ex_pcs s ! i = Woken"
    and one: "active (ex_pcs s) = 1" and rem: "remaining_systems (ex_planner s) \<noteq> 0"
    and empty: "pool_empty conc i (ex_planner s)"
  shows False
proof -
  have len: "length (ex_pcs s) = conc + 1" and p: "planner_inv t (ex_planner s)"
    using inv by (simp_all add: exec_inv_def)
  have others: "ex_pcs s ! j = Waiting" if "j < length (ex_pcs s)" "j \<noteq> i" for j
  proof (rule ccontr)
    assume "ex_pcs s ! j \<noteq> Waiting"
    then have np: "\<not> is_parked (ex_pcs s ! j)"
      using aw nth_mem [OF that(1)] unfolding exec_awake_def is_parked_def by metis
    have "active ((ex_pcs s)[i := Waiting]) = 0"
      using active_update [OF i, of Waiting] one ready_pc [OF pc] by (simp add: is_parked_def)
    moreover have "0 < active ((ex_pcs s)[i := Waiting])"
      by (rule active_pos [of j]) (use that np in auto)
    ultimately show False by simp
  qed
  have "Some n \<notin> set (map pc_node (ex_pcs s))" for n
    using others pc by (fastforce simp: in_set_conv_nth)
  then have "running (ex_planner s) = {}" using inv by (auto simp: exec_inv_def)
  then have some: "send_runnable (ex_planner s) \<noteq> {} \<or> unsend_runnable (ex_planner s) \<noteq> {}"
    by (rule something_runnable [OF p rem])
  have empties: "pool_empty conc j (ex_planner s)" if "j \<le> conc" for j
    using that empty others [of j] aw len by (cases "j = i") (auto simp: exec_awake_def)
  show False
    using some empties [of conc] empties [of 0] by (cases "conc = 0") (auto simp: pool_empty_def)
qed

lemma loop_awake:
  assumes inv: "exec_inv t conc s" and aw: "exec_awake conc s" and i: "i < length (ex_pcs s)"
    and pc: "ex_pcs s ! i = AtLoop \<or> ex_pcs s ! i = Woken" and bound: "conc + 1 < 2 ^ 64"
  shows "\<exists>s'. thread_loop t i s = Inr s' \<and> exec_inv t conc s' \<and> exec_awake conc s' \<and> loop_post t i s s'"
proof -
  have ok: "loop_ok t conc i s (thread_loop t i s)"
    using thread_loop_ok [OF inv i _ _ bound] ready_pc [OF pc] by simp
  then obtain s' where s': "thread_loop t i s = Inr s'" "exec_inv t conc s'" "loop_post t i s s'"
    "ex_pcs s' = (ex_pcs s)[i := Waiting] \<longrightarrow> pool_empty conc i (ex_planner s) \<and> remaining_systems (ex_planner s) \<noteq> 0"
    using no_deadlock [OF inv aw i pc] by (auto simp: loop_ok_def)
  obtain pc' where pcs': "ex_pcs s' = (ex_pcs s)[i := pc']" and pc': "pc' \<noteq> TimedOut" "pc' \<noteq> GaveUp"
    using s'(3) by (auto simp: loop_post_def)
  have shrink: "pool_empty conc j (ex_planner s) \<Longrightarrow> pool_empty conc j (ex_planner s')" for j
    using s'(3) by (auto simp: loop_post_def pool_empty_def split: if_splits)
  have rem: "remaining_systems (ex_planner s') = remaining_systems (ex_planner s)"
    using s'(3) by (simp add: loop_post_def)
  have "TimedOut \<notin> set (ex_pcs s')" "GaveUp \<notin> set (ex_pcs s')"
    using aw pc' set_update_subset_insert [of "ex_pcs s" i pc'] by (auto simp: exec_awake_def pcs')
  moreover have "pool_empty conc j (ex_planner s') \<and> remaining_systems (ex_planner s') \<noteq> 0"
    if "j < length (ex_pcs s')" "ex_pcs s' ! j = Waiting" for j
    using that aw shrink [of j] rem s'(4) i
    by (cases "j = i") (auto simp: pcs' exec_awake_def)
  ultimately have "exec_awake conc s'" by (simp add: exec_awake_def)
  with s' show ?thesis by blast
qed

lemma exec_step_awake:
  assumes inv: "exec_inv t conc s" and aw: "exec_awake conc s" and bound: "conc + 1 < 2 ^ 64"
    and ev: "\<not> is_timeout ev" and r: "exec_step t ev s = Some r"
  shows "\<exists>s'. r = Inr s' \<and> exec_inv t conc s' \<and> exec_awake conc s'"
proof -
  define i where "i = event_thread ev"
  from r have i: "i < length (ex_pcs s)" by (simp add: exec_step_def i_def split: if_splits)
  have fin: "\<exists>s'. finish_system t i n s = Inr s' \<and> exec_inv t conc s' \<and> exec_awake conc s'"
    if pc: "ex_pcs s ! i = Running n" for n
  proof (rule finish_state [OF inv i pc])
    fix p'
    let ?s1 = "notify_all (set_pc i AtLoop (s\<lparr>ex_planner := p'\<rparr>))"
    assume c: "complete t n (ex_planner s) = Inr p'" and inv1: "exec_inv t conc ?s1"
    have "exec_awake conc ?s1"
      using aw set_update_subset_insert [of "ex_pcs s" i AtLoop]
      by (auto simp: exec_awake_def finish_pcs split: if_splits)
    from loop_awake [OF inv1 this _ _ bound, of i] i c show ?thesis
      by (auto simp: finish_pcs finish_system_def)
  qed
  have aw_upd: "exec_awake conc (s\<lparr>ex_pcs := (ex_pcs s)[i := pc']\<rparr>)"
    if "pc' \<noteq> Waiting" "pc' \<noteq> TimedOut" "pc' \<noteq> GaveUp" for pc'
    using aw that set_update_subset_insert [of "ex_pcs s" i pc'] i
    by (auto simp: exec_awake_def nth_list_update)
  have ret: "ex_pcs s ! i = Woken \<Longrightarrow> ex_had_panic s \<Longrightarrow>
      exec_inv t conc (set_pc i Returned s) \<and> exec_awake conc (set_pc i Returned s)"
    using return_assign [OF inv i] aw_upd [of Returned] by (auto simp: is_parked_def set_pc_def)
  have crash: "ex_pcs s ! i = Running n \<Longrightarrow>
      exec_inv t conc ((set_pc i (Unwound n) s)\<lparr>ex_had_panic := True\<rparr>) \<and>
      exec_awake conc ((set_pc i (Unwound n) s)\<lparr>ex_had_panic := True\<rparr>)" for n
    using crash_inv [OF inv i] aw_upd [of "Unwound n"] by (simp add: set_pc_def exec_awake_def)
  have "ex_pcs s ! i \<noteq> TimedOut" using aw nth_mem [OF i] unfolding exec_awake_def by metis
  then show ?thesis
    using r ev loop_awake [OF inv aw i _ bound] fin ret crash
    by (auto simp: exec_step_def i_def [symmetric] Let_def split: if_splits exec_event.splits pc.splits)
qed

lemma exec_init_inv: "exec_inv t conc (exec_init t conc)"
proof -
  have "running (initial_planner t) = {}" using init_idle by (simp add: running_def)
  moreover have "count_list (replicate k None) (Some n) = 0" for k and n :: node
    by (simp add: count_list_zero)
  moreover have "active (replicate k AtLoop) = k" for k by (simp add: active_def is_parked_def)
  ultimately show ?thesis
    using init_inv by (simp add: exec_inv_def exec_init_def del: replicate_Suc of_nat_Suc)
qed

lemma exec_init_awake: "exec_awake conc (exec_init t conc)"
  by (auto simp: exec_awake_def exec_init_def nth_Cons split: nat.splits)

lemma exec_reach_inv:
  assumes "exec_reach allowed t conc s" and "conc + 1 < 2 ^ 64"
  shows "exec_inv t conc s"
  using assms(1)
proof (induction rule: exec_reach.induct)
  case init
  show ?case by (rule exec_init_inv)
next
  case (step s ev s')
  with exec_step_inv [OF step.IH assms(2) step.hyps(3)] show ?case by auto
qed

lemma exec_reach_awake:
  assumes "exec_reach allowed t conc s" and "conc + 1 < 2 ^ 64" and "\<And>ev. allowed ev \<Longrightarrow> \<not> is_timeout ev"
  shows "exec_inv t conc s \<and> exec_awake conc s"
  using assms(1)
proof (induction rule: exec_reach.induct)
  case init
  show ?case by (simp add: exec_init_inv exec_init_awake)
next
  case (step s ev s')
  with exec_step_awake [OF _ _ assms(2) assms(3), of s ev "Inr s'"] show ?case by auto
qed


end

subsection \<open>The cycle ends\<close>

definition normal_event :: "exec_event \<Rightarrow> bool" where
  "normal_event ev \<longleftrightarrow> \<not> is_timeout ev \<and> \<not> is_crash ev"

definition unstarted :: "'p topology \<Rightarrow> planner \<Rightarrow> nat" where
  "unstarted t p =
     card {n. is_system n \<and> n \<in> fmdom' (dependents t) \<and> n \<notin> running p \<and> n \<notin> finished p}"

definition ready_threads :: "pc list \<Rightarrow> nat" where
  "ready_threads pcs = length (filter (\<lambda>pc. pc = AtLoop \<or> pc = Woken) pcs)"

definition exec_measure :: "'p topology \<Rightarrow> exec_state \<Rightarrow> nat \<times> nat \<times> nat" where
  "exec_measure t s =
     (remaining_systems (ex_planner s), unstarted t (ex_planner s), ready_threads (ex_pcs s))"

definition exec_order :: "((nat \<times> nat \<times> nat) \<times> (nat \<times> nat \<times> nat)) set" where
  "exec_order = less_than <*lex*> less_than <*lex*> less_than"

lemma wf_exec_order: "wf exec_order"
  by (simp add: exec_order_def wf_lex_prod)

lemma ready_update:
  assumes "i < length pcs" and "pcs ! i = AtLoop \<or> pcs ! i = Woken" and "pc \<noteq> AtLoop" "pc \<noteq> Woken"
  shows "ready_threads (pcs[i := pc]) < ready_threads pcs"
  using length_filter_update [OF assms(1), of "\<lambda>pc. pc = AtLoop \<or> pc = Woken" pc] assms(2-)
  by (auto simp: ready_threads_def)

context schedule
begin

lemma loop_decreases:
  assumes post: "loop_post t i s s'" and i: "i < length (ex_pcs s)"
    and pc: "ex_pcs s ! i = AtLoop \<or> ex_pcs s ! i = Woken"
  shows "(exec_measure t s', exec_measure t s) \<in> exec_order"
proof -
  let ?A = "\<lambda>p. {n. is_system n \<and> n \<in> fmdom' (dependents t) \<and> n \<notin> running p \<and> n \<notin> finished p}"
  have fin: "finite (?A (ex_planner s))"
    by (rule finite_subset [of _ "fmdom' (dependents t)"]) auto
  have start: "unstarted t (ex_planner s') < unstarted t (ex_planner s)"
    if "can_start t (running (ex_planner s)) (finished (ex_planner s)) n"
      "running (ex_planner s') = insert n (running (ex_planner s))"
      "finished (ex_planner s') = finished (ex_planner s)" for n
    unfolding unstarted_def
    by (rule psubset_card_mono [OF fin]) (use that in \<open>auto simp: can_start_def\<close>)
  from post show ?thesis
    using start ready_update [OF i pc]
    by (auto simp: loop_post_def exec_measure_def exec_order_def)
qed

lemma exec_step_decreases:
  assumes inv: "exec_inv t conc s" and aw: "exec_awake conc s" and bound: "conc + 1 < 2 ^ 64"
    and ev: "normal_event ev" and r: "exec_step t ev s = Some (Inr s')"
  shows "(exec_measure t s', exec_measure t s) \<in> exec_order"
proof -
  define i where "i = event_thread ev"
  from r have i: "i < length (ex_pcs s)" by (simp add: exec_step_def i_def split: if_splits)
  have loop: "(exec_measure t s', exec_measure t s) \<in> exec_order"
    if "thread_loop t i s = Inr s'" "ex_pcs s ! i = AtLoop \<or> ex_pcs s ! i = Woken"
    using loop_awake [OF inv aw i that(2) bound] that loop_decreases [OF _ i that(2)] by auto
  have fin: "(exec_measure t s', exec_measure t s) \<in> exec_order"
    if pc: "ex_pcs s ! i = Running n" and f: "finish_system t i n s = Inr s'" for n
  proof (rule finish_state [OF inv i pc])
    fix p'
    let ?s1 = "notify_all (set_pc i AtLoop (s\<lparr>ex_planner := p'\<rparr>))"
    assume c: "complete t n (ex_planner s) = Inr p'" and inv1: "exec_inv t conc ?s1"
      and rem: "remaining_systems p' + 1 = remaining_systems (ex_planner s)"
    have "exec_awake conc ?s1"
      using aw set_update_subset_insert [of "ex_pcs s" i AtLoop]
      by (auto simp: exec_awake_def finish_pcs split: if_splits)
    with loop_awake [OF inv1 this _ _ bound, of i] i c f have "loop_post t i ?s1 s'"
      by (auto simp: finish_pcs finish_system_def)
    then have "remaining_systems (ex_planner s') = remaining_systems p'"
      by (simp add: loop_post_def notify_all_def set_pc_def)
    with rem show ?thesis by (simp add: exec_measure_def exec_order_def)
  qed
  have ret: "(exec_measure t (set_pc i Returned s), exec_measure t s) \<in> exec_order" if "ex_pcs s ! i = Woken"
    using ready_update [OF i, of Returned] that by (simp add: exec_measure_def exec_order_def set_pc_def)
  have "ex_pcs s ! i \<noteq> TimedOut" using aw nth_mem [OF i] unfolding exec_awake_def by metis
  then show ?thesis
    using r ev loop fin ret
    by (auto simp: exec_step_def i_def [symmetric] Let_def normal_event_def
        split: if_splits exec_event.splits pc.splits)
qed

text \<open>Without panics some thread can go on until all have returned.\<close>

lemma exec_progress:
  assumes inv: "exec_inv t conc s" and aw: "exec_awake conc s" and ok: "\<not> ex_had_panic s"
    and stuck: "\<And>ev. normal_event ev \<Longrightarrow> exec_step t ev s = None"
  shows "set (ex_pcs s) = {Returned} \<and> remaining_systems (ex_planner s) = 0"
proof -
  have len: "length (ex_pcs s) = conc + 1" and p: "planner_inv t (ex_planner s)"
    using inv by (simp_all add: exec_inv_def)
  have pcs: "ex_pcs s ! j = Waiting \<or> ex_pcs s ! j = Returned" if j: "j < length (ex_pcs s)" for j
  proof -
    have "ex_pcs s ! j \<noteq> TimedOut" "ex_pcs s ! j \<noteq> GaveUp"
      using aw nth_mem [OF j] unfolding exec_awake_def by metis+
    moreover have "ex_pcs s ! j \<noteq> Unwound n" for n using inv ok j by (auto simp: exec_inv_def)
    ultimately show ?thesis
      using stuck [of "Resume j"] stuck [of "Finish j"] j
      by (auto simp: exec_step_def Let_def normal_event_def split: pc.splits)
  qed
  have "Waiting \<notin> set (ex_pcs s)"
  proof
    assume "Waiting \<in> set (ex_pcs s)"
    then have rem: "remaining_systems (ex_planner s) \<noteq> 0"
      using aw by (auto simp: exec_awake_def in_set_conv_nth)
    then have "Returned \<notin> set (ex_pcs s)" using inv ok by (auto simp: exec_inv_def)
    then have all: "ex_pcs s ! j = Waiting" if "j < length (ex_pcs s)" for j
      using pcs [OF that] nth_mem [OF that] by auto
    then have "Some n \<notin> set (map pc_node (ex_pcs s))" for n by (fastforce simp: in_set_conv_nth)
    then have "running (ex_planner s) = {}" using inv by (auto simp: exec_inv_def)
    then have some: "send_runnable (ex_planner s) \<noteq> {} \<or> unsend_runnable (ex_planner s) \<noteq> {}"
      by (rule something_runnable [OF p rem])
    have "pool_empty conc j (ex_planner s)" if "j \<le> conc" for j
      using that aw all [of j] len by (auto simp: exec_awake_def)
    from this [of conc] this [of 0] some show False
      by (cases "conc = 0") (auto simp: pool_empty_def)
  qed
  then have "set (ex_pcs s) \<subseteq> {Returned}" using pcs by (fastforce simp: in_set_conv_nth)
  moreover have "ex_pcs s \<noteq> []" using len by auto
  ultimately have all: "set (ex_pcs s) = {Returned}" by (metis set_empty subset_singletonD)
  with inv ok show ?thesis by (auto simp: exec_inv_def)
qed

end

subsection \<open>Threads and panics\<close>

text \<open>What a pass of the loop leaves at its thread: systems go to the threads meant for them.\<close>

definition right_thread :: "nat \<Rightarrow> nat \<Rightarrow> node \<Rightarrow> bool" where
  "right_thread len i n =
     (case n of
        UnsendSystem _ \<Rightarrow> i + 1 = len
      | SendSystem _ \<Rightarrow> i + 1 < len \<or> len = 1
      | Partition _ \<Rightarrow> False)"

definition loop_shape :: "nat \<Rightarrow> exec_state \<Rightarrow> exec_state \<Rightarrow> bool" where
  "loop_shape i s s' \<longleftrightarrow>
     ex_had_panic s' = ex_had_panic s \<and>
     (\<exists>pc. ex_pcs s' = (ex_pcs s)[i := pc] \<and>
        (\<forall>n. pc_node pc = Some n \<longrightarrow> right_thread (length (ex_pcs s)) i n))"

lemma loop_shape_set_pc:
  "(\<And>n. pc_node pc = Some n \<Longrightarrow> right_thread (length (ex_pcs s)) i n) \<Longrightarrow>
     loop_shape i s (set_pc i pc (s\<lparr>ex_planner := p\<rparr>))"
  by (auto simp: loop_shape_def set_pc_def)

lemma wait_shape: "wait_for_task i (s\<lparr>ex_planner := p\<rparr>) = Inr s' \<Longrightarrow> loop_shape i s s'"
  by (auto simp: wait_for_task_def loop_shape_def set_pc_def intro!: exI [of _ Waiting])

lemma threaded_worker_shape:
  assumes "threaded_worker t i s = Inr s'" and "i + 1 < length (ex_pcs s)"
  shows "loop_shape i s s'"
proof -
  obtain r p where "steal_send t (ex_planner s) = Inr (r, p)"
    and r: "(case r of
         StealCycleComplete \<Rightarrow> Inr (set_pc i Returned (s\<lparr>ex_planner := p\<rparr>))
       | StealPending \<Rightarrow> wait_for_task i (s\<lparr>ex_planner := p\<rparr>)
       | StealReady k \<Rightarrow> Inr (set_pc i (Running (SendSystem k)) (s\<lparr>ex_planner := p\<rparr>))) = Inr s'"
    using assms(1) by (auto simp: threaded_worker_def Let_def)
  then show ?thesis
    using assms(2)
    by (cases r) (auto simp: right_thread_def intro: wait_shape intro!: loop_shape_set_pc)
qed

lemma main_worker_shape:
  assumes m: "main_worker t (length (ex_pcs s) = 1) i s = Inr s'" and len: "i + 1 = length (ex_pcs s)"
  shows "loop_shape i s s'"
proof -
  obtain r p where st: "steal_unsend t (ex_planner s) = Inr (r, p)"
    using m by (auto simp: main_worker_def)
  show ?thesis
  proof (cases r)
    case (StealReady k)
    with m st have "s' = set_pc i (Running (UnsendSystem k)) (s\<lparr>ex_planner := p\<rparr>)"
      by (simp add: main_worker_def)
    with len show ?thesis by (auto simp: right_thread_def intro!: loop_shape_set_pc)
  next
    case StealCycleComplete
    with m st have "s' = set_pc i Returned (s\<lparr>ex_planner := p\<rparr>)" by (simp add: main_worker_def)
    then show ?thesis by (auto intro!: loop_shape_set_pc)
  next
    case StealPending
    show ?thesis
    proof (cases "length (ex_pcs s) = 1")
      case True
      with m st StealPending obtain r' p' where st': "steal_send t p = Inr (r', p')"
        by (auto simp: main_worker_def)
      with m st StealPending True show ?thesis
        by (cases r') (auto simp: main_worker_def right_thread_def intro: wait_shape intro!: loop_shape_set_pc)
    next
      case False
      with m st StealPending have "wait_for_task i (s\<lparr>ex_planner := p\<rparr>) = Inr s'"
        by (simp add: main_worker_def)
      then show ?thesis by (rule wait_shape)
    qed
  qed
qed

lemma thread_loop_shape:
  assumes "thread_loop t i s = Inr s'" and "i < length (ex_pcs s)"
  shows "loop_shape i s s'"
  using assms main_worker_shape [of t s i s'] threaded_worker_shape [of t i s s']
  by (auto simp: thread_loop_def split: if_splits)

definition on_right_threads :: "exec_state \<Rightarrow> bool" where
  "on_right_threads s \<longleftrightarrow>
     (\<forall>i < length (ex_pcs s). \<forall>n. pc_node (ex_pcs s ! i) = Some n \<longrightarrow> right_thread (length (ex_pcs s)) i n)"

lemma right_threads_upd:
  assumes "on_right_threads s" and "ex_pcs s' = (ex_pcs s)[i := pc]" and "i < length (ex_pcs s)"
    and "\<And>n. pc_node pc = Some n \<Longrightarrow> right_thread (length (ex_pcs s)) i n"
  shows "on_right_threads s'"
  using assms by (auto simp: on_right_threads_def nth_list_update)

lemma finish_shape:
  assumes "finish_system t i n s = Inr s'" and i: "i < length (ex_pcs s)" and ok: "on_right_threads s"
  shows "on_right_threads s' \<and> ex_had_panic s' = ex_had_panic s"
proof -
  obtain p' where l: "thread_loop t i (notify_all (set_pc i AtLoop (s\<lparr>ex_planner := p'\<rparr>))) = Inr s'"
    using assms(1) by (auto simp: finish_system_def)
  let ?s1 = "notify_all (set_pc i AtLoop (s\<lparr>ex_planner := p'\<rparr>))"
  have len: "length (ex_pcs ?s1) = length (ex_pcs s)" by (simp add: notify_all_def set_pc_def)
  have "on_right_threads ?s1"
    using ok i by (auto simp: on_right_threads_def notify_all_def set_pc_def nth_list_update split: if_splits)
  moreover have "loop_shape i ?s1 s'" by (rule thread_loop_shape [OF l]) (simp add: len i)
  ultimately show ?thesis
    using right_threads_upd [of ?s1 s' i] i len by (auto simp: loop_shape_def notify_all_def set_pc_def)
qed

lemma exec_step_threads:
  assumes r: "exec_step t ev s = Some (Inr s')" and ok: "on_right_threads s"
  shows "on_right_threads s' \<and> (\<not> is_crash ev \<longrightarrow> ex_had_panic s' = ex_had_panic s)"
proof -
  define i where "i = event_thread ev"
  from r have i: "i < length (ex_pcs s)" by (simp add: exec_step_def i_def split: if_splits)
  have set: "on_right_threads (set_pc i pc s)" "on_right_threads ((set_pc i pc s)\<lparr>ex_had_panic := h\<rparr>)"
    if "pc_node pc = None \<or> pc_node pc = pc_node (ex_pcs s ! i)" for pc h
    using ok that i by (auto simp: on_right_threads_def set_pc_def nth_list_update)
  have loop: "on_right_threads s' \<and> ex_had_panic s' = ex_had_panic s" if "thread_loop t i s = Inr s'"
    using thread_loop_shape [OF that i] right_threads_upd [OF ok _ i] by (auto simp: loop_shape_def)
  show ?thesis
    using r loop finish_shape [OF _ i ok] set
    by (auto simp: exec_step_def i_def [symmetric] Let_def set_pc_def
        split: if_splits exec_event.splits pc.splits)
qed

lemma exec_reach_threads:
  assumes "exec_reach allowed t conc s"
  shows "on_right_threads s \<and> ((\<forall>ev. allowed ev \<longrightarrow> \<not> is_crash ev) \<longrightarrow> \<not> ex_had_panic s)"
  using assms
proof (induction rule: exec_reach.induct)
  case init
  show ?case by (auto simp: exec_init_def on_right_threads_def nth_Cons split: nat.splits)
next
  case (step s ev s')
  with exec_step_threads [OF step.hyps(3)] show ?case by auto
qed

end
