(* ===== verification/Raw.thy ===== *)
theory Raw
  imports Prelude "HOL-Library.Word"
begin

section \<open>Raw entity identifiers\<close>

text \<open>
  \<open>src/entity/raw.rs\<close>: the macro \<open>impl_raw!\<close>, instantiated in the source for 16, 32 and 64 bits,
  is modelled once for words of any length \<open>'w\<close>. A \<open>NonZero\<close> integer is a word; that it is not
  zero is a hypothesis where it matters and a conclusion of every operation that makes one.
  \<open>usize\<close> counts are natural numbers, and \<open>try_into\<close> checks that they fit. Additions of plain
  integers panic when they overflow; \<open>AtomicUN::fetch_add\<close> wraps around.
\<close>

type_synonym 'w raw = "'w word"

text \<open>\<open>NonZeroUN::new\<close>.\<close>

definition nonzero_new :: "'w::len word \<Rightarrow> 'w raw option" where
  "nonzero_new x = (if x = 0 then None else Some x)"

text \<open>\<open>usize::try_into\<close> to the primitive of the identifier.\<close>

definition prim_try_from :: "nat \<Rightarrow> 'w::len word option" where
  "prim_try_from n = (if int n < 2 ^ LENGTH('w) then Some (of_nat n) else None)"

text \<open>\<open>a + b\<close> and \<open>a - b\<close> on unsigned integers.\<close>

definition checked_plus :: "'w::len word \<Rightarrow> 'w word \<Rightarrow> 'w word res" where
  "checked_plus a b = (if uint a + uint b < 2 ^ LENGTH('w) then Inr (a + b) else Inl IntegerOverflow)"

definition checked_minus :: "'w::len word \<Rightarrow> 'w word \<Rightarrow> 'w word res" where
  "checked_minus a b = (if b \<le> a then Inr (a - b) else Inl IntegerOverflow)"

definition raw_new :: "'w::len word" where
  "raw_new = 1"

definition raw_add :: "'w::len raw \<Rightarrow> nat \<Rightarrow> 'w raw res" where
  "raw_add self cnt =
     bind_res (expect IntegerOverflow (prim_try_from cnt)) (\<lambda>c.
     bind_res (checked_plus self c) (\<lambda>s. expect IntegerOverflow (nonzero_new s)))"

definition raw_sub :: "'w::len raw \<Rightarrow> 'w raw \<Rightarrow> nat res" where
  "raw_sub self other = bind_res (checked_minus self other) (\<lambda>d. Inr (unat d))"

definition approx_midpoint :: "'w::len raw \<Rightarrow> 'w raw \<Rightarrow> 'w raw res" where
  "approx_midpoint self other =
     bind_res (checked_plus self other) (\<lambda>s. expect IntegerOverflow (nonzero_new (drop_bit 1 s)))"

definition from_primitive :: "nat \<Rightarrow> 'w::len raw res" where
  "from_primitive i = expect IntegerOverflow (Option.bind (prim_try_from i) nonzero_new)"

definition to_primitive :: "'w::len raw \<Rightarrow> nat" where
  "to_primitive self = unat self"

text \<open>\<open>range(start..end)\<close>, as the list of what the iterator yields.\<close>

definition raw_range :: "'w::len raw \<Rightarrow> 'w raw \<Rightarrow> 'w raw list" where
  "raw_range s e = map of_nat [unat s ..< unat e]"

text \<open>
  The operations of the atomic counter. \<open>fetch_add\<close> has already stored the sum when it finds
  that the value it read is zero.
\<close>

definition raw_fetch_add :: "'w::len word \<Rightarrow> nat \<Rightarrow> 'w raw res \<times> 'w word" where
  "raw_fetch_add g cnt =
     (case prim_try_from cnt of
        None \<Rightarrow> (Inl IntegerOverflow, g)
      | Some c \<Rightarrow> (expect IntegerOverflow (nonzero_new g), g + c))"

definition raw_load :: "'w::len word \<Rightarrow> 'w raw res" where
  "raw_load g = expect InvalidState (nonzero_new g)"

subsection \<open>Laws\<close>

lemma nonzero_new_Some [simp]: "nonzero_new x = Some y \<longleftrightarrow> x = y \<and> y \<noteq> 0"
  by (auto simp: nonzero_new_def)

lemma nonzero_new_None [simp]: "nonzero_new x = None \<longleftrightarrow> x = 0"
  by (simp add: nonzero_new_def)

lemma int_below_width: "int n < 2 ^ k \<longleftrightarrow> n < 2 ^ k"
  by (metis of_nat_less_iff of_nat_numeral of_nat_power)

lemma checked_plus_nat:
  "checked_plus (a :: 'w::len word) b =
     (if unat a + unat b < 2 ^ LENGTH('w) then Inr (a + b) else Inl IntegerOverflow)"
  unfolding checked_plus_def uint_nat of_nat_add [symmetric] int_below_width ..

lemma prim_try_from_Some [simp]:
  "prim_try_from n = Some (c :: 'w::len word) \<longleftrightarrow> n < 2 ^ LENGTH('w) \<and> c = of_nat n"
  by (auto simp: prim_try_from_def int_below_width)

lemma one_less_width: "1 < (2::nat) ^ LENGTH('w::len)"
  using one_less_power [of "2::nat" "LENGTH('w)"] by simp

lemma prim_try_from_1 [simp]: "prim_try_from 1 = Some (1 :: 'w::len word)"
  using one_less_width [where 'w = 'w] by (simp add: prim_try_from_def int_below_width)

lemma unat_bound: "unat (x :: 'w::len word) < 2 ^ LENGTH('w)"
  by (rule unsigned_less)

lemma below_bound: "n \<le> unat (x :: 'w::len word) \<Longrightarrow> n < 2 ^ LENGTH('w)"
  by (rule le_less_trans [OF _ unat_bound])

lemma unat_of_nat_below: "n \<le> unat (x :: 'w::len word) \<Longrightarrow> unat (of_nat n :: 'w word) = n"
  using below_bound [of n x] by (simp add: unat_of_nat)

lemma unat_succ: "(a :: 'w::len word) < b \<Longrightarrow> unat (a + 1) = unat a + 1"
  using below_bound [of "Suc (unat a)" b] by (simp add: word_less_nat_alt unat_word_ariths Suc_le_eq)

lemma checked_plus_Inr:
  "checked_plus a b = Inr (s :: 'w::len word) \<longleftrightarrow> unat s = unat a + unat b"
proof
  assume "checked_plus a b = Inr s"
  then show "unat s = unat a + unat b"
    by (auto simp: checked_plus_nat unat_word_ariths split: if_splits)
next
  assume s: "unat s = unat a + unat b"
  then have "unat a + unat b < 2 ^ LENGTH('w)" using below_bound [of "unat a + unat b" s] by simp
  moreover from this s have "s = a + b" by (simp add: word_unat_eq_iff unat_word_ariths)
  ultimately show "checked_plus a b = Inr s" by (simp add: checked_plus_nat)
qed

lemma checked_minus_Inr:
  "checked_minus a b = Inr d \<longleftrightarrow> b \<le> a \<and> d = a - b"
  by (auto simp: checked_minus_def)

lemma raw_add_Inr:
  fixes a :: "'w::len raw"
  assumes "a \<noteq> 0"
  shows "raw_add a n = Inr b \<longleftrightarrow> unat b = unat a + n"
proof
  assume "raw_add a n = Inr b"
  then have "n < 2 ^ LENGTH('w)" "unat b = unat a + unat (of_nat n :: 'w word)"
    by (auto simp: raw_add_def checked_plus_Inr)
  then show "unat b = unat a + n" by (simp add: unat_of_nat)
next
  assume b: "unat b = unat a + n"
  then have n: "n < 2 ^ LENGTH('w)" using below_bound [of n b] by simp
  then have "checked_plus a (of_nat n) = Inr b" using b by (simp add: checked_plus_Inr unat_of_nat)
  moreover have "b \<noteq> 0" using b assms by (metis add_is_0 unat_eq_zero)
  ultimately show "raw_add a n = Inr b" using n by (auto simp: raw_add_def)
qed

lemma raw_add_total:
  fixes a :: "'w::len raw"
  assumes "a \<noteq> 0" and "unat a + n < 2 ^ LENGTH('w)"
  shows "raw_add a n = Inr (of_nat (unat a + n))"
  by (subst raw_add_Inr) (use assms in \<open>simp_all add: unat_of_nat del: of_nat_add\<close>)

lemma raw_succ:
  fixes a :: "'w::len raw"
  assumes "a \<noteq> 0" and "a < b"
  shows "raw_add a 1 = Inr (a + 1)" and "unat (a + 1) = unat a + 1"
proof -
  show *: "unat (a + 1) = unat a + 1" using assms(2) by (rule unat_succ)
  show "raw_add a 1 = Inr (a + 1)" using assms(1) * by (simp add: raw_add_Inr del: One_nat_def)
qed

lemma raw_sub_Inr: "raw_sub a b = Inr n \<longleftrightarrow> b \<le> a \<and> n = unat a - unat b"
  by (auto simp: raw_sub_def checked_minus_Inr unat_sub)

lemma raw_sub_total: "b \<le> a \<Longrightarrow> raw_sub a b = Inr (unat a - unat b)"
  by (simp add: raw_sub_Inr)

lemma raw_sub_add:
  assumes "a \<noteq> 0" and "raw_add a n = Inr b" shows "raw_sub b a = Inr n"
  using assms by (auto simp: raw_add_Inr raw_sub_Inr word_le_nat_alt)

lemma approx_midpoint_Inr:
  assumes "a \<noteq> 0" and "b \<noteq> 0"
  shows "approx_midpoint a b = Inr m \<longleftrightarrow>
         unat a + unat b < 2 ^ LENGTH('w::len) \<and> unat (m :: 'w raw) = (unat a + unat b) div 2"
proof -
  have "0 < unat a" "0 < unat b" using assms by (simp_all add: unat_gt_0)
  then have pos: "0 < (unat a + unat b) div 2" by auto
  show ?thesis
  proof
    assume "approx_midpoint a b = Inr m"
    then obtain s where s: "unat s = unat a + unat b" and m: "m = drop_bit 1 s"
      by (auto simp: approx_midpoint_def checked_plus_Inr)
    from m have "unat m = unat s div 2" by (simp only: unat_drop_bit_eq) (simp add: drop_bit_Suc)
    with s below_bound [of "unat a + unat b" s] show "unat a + unat b < 2 ^ LENGTH('w) \<and> unat m = (unat a + unat b) div 2"
      by simp
  next
    assume *: "unat a + unat b < 2 ^ LENGTH('w) \<and> unat m = (unat a + unat b) div 2"
    define s where "s = a + b"
    from * have s: "unat s = unat a + unat b" by (simp add: s_def unat_word_ariths)
    have m: "drop_bit 1 s = m" using * s by (simp only: word_unat_eq_iff unat_drop_bit_eq) (simp add: drop_bit_Suc)
    have "m \<noteq> 0" using * pos by (auto simp: unat_eq_0)
    with s m show "approx_midpoint a b = Inr m"
      by (auto simp: approx_midpoint_def checked_plus_Inr)
  qed
qed

lemma approx_midpoint_between:
  assumes "approx_midpoint a b = Inr m" and "a \<noteq> 0" and "a \<le> b"
  shows "a \<le> m \<and> m \<le> b \<and> (a < b \<longrightarrow> m < b)"
proof -
  have "b \<noteq> 0" using assms(2,3) by (auto simp: word_le_nat_alt unat_eq_0)
  with assms show ?thesis
    by (auto simp: approx_midpoint_Inr word_le_nat_alt word_less_nat_alt)
qed

lemma from_primitive_Inr:
  "from_primitive n = Inr (x :: 'w::len raw) \<longleftrightarrow> n = to_primitive x \<and> x \<noteq> 0"
proof
  assume "from_primitive n = Inr x"
  then show "n = to_primitive x \<and> x \<noteq> 0"
    by (auto simp: from_primitive_def to_primitive_def unat_of_nat bind_eq_Some_conv)
next
  assume "n = to_primitive x \<and> x \<noteq> 0"
  then show "from_primitive n = Inr x"
    by (auto simp: from_primitive_def to_primitive_def bind_eq_Some_conv unat_bound)
qed

lemma to_primitive_inj: "to_primitive x = to_primitive y \<longleftrightarrow> x = y"
  by (simp add: to_primitive_def word_unat_eq_iff)

lemma to_primitive_mono: "to_primitive x < to_primitive y \<longleftrightarrow> x < y"
  by (simp add: to_primitive_def word_less_nat_alt)

lemma set_raw_range: "set (raw_range s e) = {s ..< e}"
proof (intro set_eqI iffI)
  fix x assume "x \<in> set (raw_range s e)"
  then obtain n where n: "unat s \<le> n" "n < unat e" "x = of_nat n" by (auto simp: raw_range_def)
  then have "unat x = n" using unat_of_nat_below [of n e] by simp
  with n show "x \<in> {s ..< e}" by (simp add: word_le_nat_alt word_less_nat_alt)
next
  fix x assume "x \<in> {s ..< e}"
  then have "unat x \<in> {unat s ..< unat e}" by (simp add: word_le_nat_alt word_less_nat_alt)
  then have "of_nat (unat x) \<in> set (raw_range s e)"
    unfolding raw_range_def set_map set_upt by (rule imageI)
  then show "x \<in> set (raw_range s e)" by simp
qed

lemma length_raw_range [simp]: "length (raw_range s e) = unat e - unat s"
  by (simp add: raw_range_def)

lemma raw_range_nth:
  assumes "i < length (raw_range s e)"
  shows "unat (raw_range s e ! i) = unat s + i"
  using assms unat_of_nat_below [of "unat s + i" e] by (simp add: raw_range_def del: of_nat_add)

lemma sorted_raw_range: "sorted_wrt (<) (raw_range s e)"
  unfolding sorted_wrt_iff_nth_less
  by (auto simp: word_less_nat_alt raw_range_nth)

lemma raw_range_empty [simp]: "raw_range s s = []"
  by (simp add: raw_range_def)

lemma raw_range_append:
  assumes "a \<le> b" "b \<le> c" shows "raw_range a b @ raw_range b c = raw_range a c"
proof -
  have "[unat a ..< unat b] @ [unat b ..< unat c] = [unat a ..< unat c]"
    using assms upt_add_eq_append [of "unat a" "unat b" "unat c - unat b"]
    by (simp add: word_le_nat_alt)
  then show ?thesis by (simp add: raw_range_def map_append [symmetric] del: map_append)
qed

lemma raw_range_Cons:
  assumes "a < b" shows "raw_range a b = a # raw_range (a + 1) b"
proof -
  have "unat (a + 1) = unat a + 1" using assms by (rule unat_succ)
  moreover have "unat a < unat b" using assms by (simp add: word_less_nat_alt)
  ultimately show ?thesis by (simp add: raw_range_def upt_conv_Cons)
qed

lemma raw_load_Inr [simp]: "raw_load g = Inr x \<longleftrightarrow> g = x \<and> x \<noteq> 0"
  by (simp add: raw_load_def)

lemma raw_load_new [simp]: "raw_load raw_new = Inr 1"
  by (simp add: raw_load_def raw_new_def nonzero_new_def)

lemma raw_fetch_add_1:
  "raw_fetch_add g 1 = (if g = 0 then Inl IntegerOverflow else Inr g, g + 1)"
  by (auto simp: raw_fetch_add_def nonzero_new_def simp del: One_nat_def)

end
