(* ===== verification/Recycler.thy ===== *)
theory Recycler
  imports Raw
begin

section \<open>Recyclers of entity identifiers\<close>

text \<open>
  \<open>src/entity/ealloc/recycling/recycler.rs\<close>. The trait \<open>Recycler\<close> is the record \<open>recycler_ops\<close> of
  its methods together with the locale \<open>recycler\<close> of the laws the allocator relies on; the two
  implementations of the source, a \<open>Vec\<close> used as a stack and a \<open>BTreeSet\<close> with a proximity hint,
  interpret it.
\<close>

record ('e, 'r, 'h) recycler_ops =
  rc_default :: 'r
  rc_hint_default :: 'h
  rc_len :: "'r \<Rightarrow> nat"
  rc_poll :: "'h \<Rightarrow> 'r \<Rightarrow> ('e option \<times> 'r) res"
  rc_extend :: "'e list \<Rightarrow> 'r \<Rightarrow> 'r"

definition rc_is_empty :: "('w::len raw, 'r, 'h) recycler_ops \<Rightarrow> 'r \<Rightarrow> bool" where
  "rc_is_empty ops r \<longleftrightarrow> rc_len ops r = 0"

text \<open>\<open>Vec\<close>: \<open>poll\<close> pops from the end, \<open>extend\<close> appends.\<close>

definition vec_poll :: "unit \<Rightarrow> 'w::len raw list \<Rightarrow> ('w raw option \<times> 'w raw list) res" where
  "vec_poll u r = Inr (if r = [] then (None, []) else (Some (last r), butlast r))"

definition vec_recycler :: "('w::len raw, 'w raw list, unit) recycler_ops" where
  "vec_recycler = \<lparr>rc_default = [], rc_hint_default = (), rc_len = length, rc_poll = vec_poll,
     rc_extend = (\<lambda>ids r. r @ ids)\<rparr>"

text \<open>\<open>BTreeSet\<close>: the neighbours of the hint on both sides, the nearer of which is taken.\<close>

type_synonym 'w btree_hint = "'w raw option"

definition below_near :: "'w::len raw \<Rightarrow> 'w raw set \<Rightarrow> 'w raw option" where
  "below_near near r = (let S = Set.filter (\<lambda>x. x < near) r in if S = {} then None else Some (Max S))"

definition above_near :: "'w::len raw \<Rightarrow> 'w raw set \<Rightarrow> 'w raw option" where
  "above_near near r = (let S = Set.filter (\<lambda>x. near \<le> x) r in if S = {} then None else Some (Min S))"

definition select_near :: "'w::len raw \<Rightarrow> 'w raw set \<Rightarrow> 'w raw option res" where
  "select_near near r =
     (case (below_near near r, above_near near r) of
        (Some left, Some right) \<Rightarrow>
          bind_res (raw_sub near left) (\<lambda>left_delta.
          bind_res (raw_sub right near) (\<lambda>right_delta.
          Inr (Some (if left_delta \<le> right_delta then left else right))))
      | (Some left, None) \<Rightarrow> Inr (Some left)
      | (None, Some right) \<Rightarrow> Inr (Some right)
      | (None, None) \<Rightarrow> Inr None)"

definition btree_poll :: "'w::len btree_hint \<Rightarrow> 'w raw set \<Rightarrow> ('w raw option \<times> 'w raw set) res" where
  "btree_poll hint r =
     (case hint of
        Some near \<Rightarrow>
          bind_res (select_near near r) (\<lambda>selected.
          case selected of
            Some x \<Rightarrow> if x \<in> r then Inr (Some x, r - {x}) else Inl InvalidState
          | None \<Rightarrow> Inr (None, r))
      | None \<Rightarrow>
          (case bt_pop_first r of
             None \<Rightarrow> Inr (None, r)
           | Some (x, r') \<Rightarrow> Inr (Some x, r')))"

definition btree_recycler :: "('w::len raw, 'w raw set, 'w btree_hint) recycler_ops" where
  "btree_recycler = \<lparr>rc_default = {}, rc_hint_default = None, rc_len = card, rc_poll = btree_poll,
     rc_extend = (\<lambda>ids r. r \<union> set ids)\<rparr>"

subsection \<open>The contract of a recycler\<close>

text \<open>
  A recycler holds a set of identifiers. Polling takes one of them out, and only finds nothing when
  there is none; extending adds identifiers, which the allocator never repeats.
\<close>

locale recycler =
  fixes ops :: "('w::len raw, 'r, 'h) recycler_ops"
    and rc_inv :: "'r \<Rightarrow> bool"
    and held :: "'r \<Rightarrow> 'w raw set"
  assumes inv_default: "rc_inv (rc_default ops)"
    and held_default: "held (rc_default ops) = {}"
    and len_held: "rc_inv r \<Longrightarrow> rc_len ops r = card (held r)"
    and poll_none: "rc_inv r \<Longrightarrow> held r = {} \<Longrightarrow> rc_poll ops h r = Inr (None, r)"
    and poll_some: "rc_inv r \<Longrightarrow> held r \<noteq> {} \<Longrightarrow>
          \<exists>x r'. rc_poll ops h r = Inr (Some x, r') \<and> x \<in> held r \<and> held r' = held r - {x} \<and> rc_inv r'"
    and extend: "rc_inv r \<Longrightarrow> distinct ids \<Longrightarrow> set ids \<inter> held r = {} \<Longrightarrow>
          rc_inv (rc_extend ops ids r) \<and> held (rc_extend ops ids r) = held r \<union> set ids"
begin

lemma finite_held [simp, intro]: "finite (held r)"
  by simp

lemma extend_inv:
  assumes "rc_inv r" "distinct ids" "set ids \<inter> held r = {}"
  shows "rc_inv (rc_extend ops ids r)" and "held (rc_extend ops ids r) = held r \<union> set ids"
  using extend [OF assms] by simp_all

lemma is_empty_iff: "rc_inv r \<Longrightarrow> rc_is_empty ops r \<longleftrightarrow> held r = {}"
  by (simp add: rc_is_empty_def len_held)

lemma poll_outcome:
  assumes "rc_inv r"
  obtains (none) "held r = {}" "rc_poll ops h r = Inr (None, r)"
  | (some) x r' where "rc_poll ops h r = Inr (Some x, r')" "x \<in> held r" "held r' = held r - {x}" "rc_inv r'"
  using poll_none [OF assms] poll_some [OF assms] by (cases "held r = {}") blast+

lemma mset_poll:
  assumes "rc_inv r" and "rc_poll ops h r = Inr (Some x, r')"
  shows "mset_set (held r) = add_mset x (mset_set (held r'))" and "rc_inv r'"
proof -
  from assms(1) have "x \<in> held r \<and> held r' = held r - {x} \<and> rc_inv r'"
    by (rule poll_outcome [where h = h]) (use assms(2) in auto)
  then show "mset_set (held r) = add_mset x (mset_set (held r'))" "rc_inv r'"
    by (simp_all add: mset_set.remove)
qed

lemma mset_extend:
  assumes "rc_inv r" "distinct ids" "set ids \<inter> held r = {}"
  shows "mset_set (held (rc_extend ops ids r)) = mset_set (held r) + mset ids"
proof -
  have "mset_set (held r \<union> set ids) = mset_set (held r) + mset_set (set ids)"
    using assms(3) by (intro mset_set_Union) auto
  then show ?thesis using assms by (simp add: extend_inv mset_set_set)
qed

end

subsection \<open>The stack and the ordered set are recyclers\<close>

interpretation vec_rc: recycler "vec_recycler :: ('w::len raw, 'w raw list, unit) recycler_ops" distinct set
proof unfold_locales
  fix r :: "'w raw list" and h :: unit
  assume r: "distinct r" "set r \<noteq> {}"
  then obtain ys y where "r = ys @ [y]" by (metis rev_exhaust set_empty)
  with r show "\<exists>x r'. rc_poll vec_recycler h r = Inr (Some x, r') \<and> x \<in> set r \<and>
      set r' = set r - {x} \<and> distinct r'"
    by (auto simp: vec_recycler_def vec_poll_def)
qed (auto simp: vec_recycler_def vec_poll_def distinct_card)

lemma below_near_Some:
  assumes "below_near near r = Some x"
  shows "x \<in> r \<and> x < near \<and> (\<forall>y \<in> r. y < near \<longrightarrow> y \<le> x)"
proof -
  let ?S = "Set.filter (\<lambda>x. x < near) r"
  from assms have "?S \<noteq> {}" and x: "x = Max ?S"
    by (auto simp: below_near_def Let_def split: if_splits)
  then have "x \<in> ?S" "\<forall>y \<in> ?S. y \<le> x" using Max_in [of ?S] Max_ge [of ?S] by auto
  then show ?thesis by auto
qed

lemma below_near_None: "below_near near r = None \<longleftrightarrow> (\<forall>x \<in> r. near \<le> x)"
  by (auto simp: below_near_def Let_def not_less)

lemma above_near_Some:
  assumes "above_near near r = Some x"
  shows "x \<in> r \<and> near \<le> x \<and> (\<forall>y \<in> r. near \<le> y \<longrightarrow> x \<le> y)"
proof -
  let ?S = "Set.filter (\<lambda>x. near \<le> x) r"
  from assms have "?S \<noteq> {}" and x: "x = Min ?S"
    by (auto simp: above_near_def Let_def split: if_splits)
  then have "x \<in> ?S" "\<forall>y \<in> ?S. x \<le> y" using Min_in [of ?S] Min_le [of ?S] by auto
  then show ?thesis by auto
qed

lemma above_near_None: "above_near near r = None \<longleftrightarrow> (\<forall>x \<in> r. x < near)"
  by (auto simp: above_near_def Let_def not_le)

text \<open>The distance between identifiers, the measure \<open>poll\<close> minimises.\<close>

definition id_distance :: "'w::len raw \<Rightarrow> 'w raw \<Rightarrow> nat" where
  "id_distance a b = (unat a - unat b) + (unat b - unat a)"

lemma select_near_outcome:
  "(r = {} \<and> select_near near r = Inr None) \<or>
   (\<exists>x. select_near near r = Inr (Some x) \<and> x \<in> r \<and>
        (\<forall>y \<in> r. id_distance near x \<le> id_distance near y))"
proof (cases "below_near near r"; cases "above_near near r")
  assume n: "below_near near r = None" "above_near near r = None"
  then have "r = {}" by (force simp: below_near_None above_near_None)
  with n show ?thesis by (simp add: select_near_def)
next
  fix x assume n: "below_near near r = None" "above_near near r = Some x"
  note x = above_near_Some [OF n(2)]
  have "\<forall>y \<in> r. id_distance near x \<le> id_distance near y"
    using n(1) x by (auto simp: below_near_None id_distance_def word_le_nat_alt)
  with n x show ?thesis by (simp add: select_near_def)
next
  fix x assume n: "below_near near r = Some x" "above_near near r = None"
  note x = below_near_Some [OF n(1)]
  have "\<forall>y \<in> r. id_distance near x \<le> id_distance near y"
    using n(2) x by (auto simp: above_near_None id_distance_def word_le_nat_alt word_less_nat_alt)
  with n x show ?thesis by (simp add: select_near_def)
next
  fix a b assume n: "below_near near r = Some a" "above_near near r = Some b"
  note a = below_near_Some [OF n(1)] and b = above_near_Some [OF n(2)]
  have d: "raw_sub near a = Inr (id_distance near a)" "raw_sub b near = Inr (id_distance near b)"
    using a b by (auto simp: raw_sub_Inr id_distance_def word_le_nat_alt word_less_nat_alt)
  have "\<forall>y \<in> r. id_distance near a \<le> id_distance near y \<or> id_distance near b \<le> id_distance near y"
  proof
    fix y assume y: "y \<in> r"
    show "id_distance near a \<le> id_distance near y \<or> id_distance near b \<le> id_distance near y"
    proof (cases "y < near")
      case True
      with a y have "y \<le> a" by blast
      with a show ?thesis by (auto simp: id_distance_def word_le_nat_alt word_less_nat_alt)
    next
      case False
      with b y have "b \<le> y" by (metis not_less)
      with b show ?thesis by (auto simp: id_distance_def word_le_nat_alt word_less_nat_alt)
    qed
  qed
  then have "\<forall>y \<in> r. id_distance near (if id_distance near a \<le> id_distance near b then a else b)
      \<le> id_distance near y"
    by (cases "id_distance near a \<le> id_distance near b")
      (simp_all, (meson nat_le_linear order_trans)+)
  with n a b d show ?thesis by (auto simp: select_near_def)
qed

lemma btree_poll_outcome:
  "(r = {} \<and> btree_poll h r = Inr (None, r)) \<or>
   (\<exists>x. btree_poll h r = Inr (Some x, r - {x}) \<and> x \<in> r)"
proof (cases h)
  case None
  then show ?thesis
  proof (cases "bt_pop_first r")
    case None
    then show ?thesis using \<open>h = None\<close> by (simp add: btree_poll_def bt_pop_first_def split: if_splits)
  next
    case (Some p)
    then obtain x r' where p: "bt_pop_first r = Some (x, r')" by (cases p) simp
    with \<open>h = None\<close> bt_pop_first_Some [OF p] show ?thesis by (simp add: btree_poll_def)
  qed
next
  case (Some near)
  then show ?thesis using select_near_outcome [of r near] by (auto simp: btree_poll_def)
qed

interpretation btree_rc: recycler "btree_recycler :: ('w::len raw, 'w raw set, 'w btree_hint) recycler_ops"
    "\<lambda>_. True" "\<lambda>r. r"
proof unfold_locales
  fix r :: "'w raw set" and h :: "'w btree_hint"
  assume "r \<noteq> {}"
  with btree_poll_outcome [of r h]
  show "\<exists>x r'. rc_poll btree_recycler h r = Inr (Some x, r') \<and> x \<in> r \<and> r' = r - {x} \<and> True"
    by (auto simp: btree_recycler_def)
next
  fix r :: "'w raw set" and h :: "'w btree_hint"
  assume "r = {}"
  with btree_poll_outcome [of r h] show "rc_poll btree_recycler h r = Inr (None, r)"
    by (auto simp: btree_recycler_def)
qed (auto simp: btree_recycler_def)

end
