(* ===== verification/Snapshot.thy ===== *)
theory Snapshot
  imports Raw
begin

section \<open>Snapshots of the allocated identifiers\<close>

text \<open>
  \<open>src/entity/ealloc/snapshot.rs\<close> and the iterator \<open>iter_gaps\<close> of \<open>src/entity/ealloc.rs\<close>: the
  identifiers below the gauge that are not recyclable, as maximal ranges, and the slices that
  parallel iteration splits a snapshot into. A range \<open>a..b\<close> is the pair \<open>(a, b)\<close>, an iterator the
  list of what it yields, a \<open>BTreeSet\<close> a set that is iterated in increasing order.
\<close>

type_synonym 'e chunk = "'e \<times> 'e"

subsection \<open>\<open>iter_gaps\<close>\<close>

datatype 'e previous = Initial | Breakpoint 'e | Finalized

text \<open>\<open>IterGaps::next\<close>: the state is what is left of the breakpoints and the previous one.\<close>

fun gap_start :: "'w::len raw previous \<Rightarrow> 'w raw option res" where
  "gap_start Initial = bind_res (raw_load raw_new) (\<lambda>s. Inr (Some s))"
| "gap_start (Breakpoint p) = bind_res (raw_add p 1) (\<lambda>s. Inr (Some s))"
| "gap_start Finalized = Inr None"

fun iter_gaps_next :: "'w::len raw \<Rightarrow> 'w raw list \<times> 'w raw previous \<Rightarrow>
    ('w raw chunk option \<times> ('w raw list \<times> 'w raw previous)) res" where
  "iter_gaps_next gauge (bps, prev) =
     bind_res (gap_start prev) (\<lambda>start.
     case start of
       None \<Rightarrow> Inr (None, (bps, prev))
     | Some s \<Rightarrow>
         (case bps of
            [] \<Rightarrow> Inr (Some (s, gauge), ([], Finalized))
          | b # bs \<Rightarrow> Inr (Some (s, b), (bs, Breakpoint b))))"

fun gaps_measure :: "'e list \<times> 'e previous \<Rightarrow> nat" where
  "gaps_measure (bps, Finalized) = 0"
| "gaps_measure (bps, prev) = Suc (length bps)"

lemma gaps_measure_next:
  assumes "iter_gaps_next gauge st = Inr (Some c, st')"
  shows "gaps_measure st' < gaps_measure st"
proof (cases st)
  case (Pair bps prev)
  with assms show ?thesis
    by (cases prev; cases bps) auto
qed

text \<open>Draining the iterator.\<close>

function iter_gaps_all :: "'w::len raw \<Rightarrow> 'w raw list \<times> 'w raw previous \<Rightarrow> 'w raw chunk list res" where
  "iter_gaps_all gauge st =
     bind_res (iter_gaps_next gauge st) (\<lambda>(c, st').
     case c of
       None \<Rightarrow> Inr []
     | Some chunk \<Rightarrow> bind_res (iter_gaps_all gauge st') (\<lambda>cs. Inr (chunk # cs)))"
  by pat_completeness auto
termination iter_gaps_all
  by (relation "measure (gaps_measure \<circ> snd)") (auto simp: gaps_measure_next)

declare iter_gaps_all.simps [simp del]

definition nonempty_chunks :: "'e chunk list \<Rightarrow> 'e chunk list" where
  "nonempty_chunks = filter (\<lambda>(s, e). s \<noteq> e)"

definition iter_gaps :: "'w::len raw \<Rightarrow> 'w raw list \<Rightarrow> 'w raw chunk list res" where
  "iter_gaps gauge breakpoints =
     bind_res (iter_gaps_all gauge (breakpoints, Initial)) (\<lambda>cs. Inr (nonempty_chunks cs))"

subsection \<open>Snapshots and slices\<close>

record 'e snapshot =
  gauge :: 'e
  sn_recyclable :: "'e set"

definition iter_allocated_chunks :: "'w::len raw snapshot \<Rightarrow> 'w raw chunk list res" where
  "iter_allocated_chunks sn = iter_gaps (gauge sn) (sorted_list_of_set (sn_recyclable sn))"

record 'e slice =
  sl_start :: 'e
  sl_end :: 'e
  sl_recyclable :: "'e set"

definition as_slice :: "'w::len raw snapshot \<Rightarrow> 'w raw slice res" where
  "as_slice sn = bind_res (raw_load raw_new) (\<lambda>s.
     Inr \<lparr>sl_start = s, sl_end = gauge sn, sl_recyclable = sn_recyclable sn\<rparr>)"

definition midpoint_for_split :: "'w::len raw slice \<Rightarrow> 'w raw option res" where
  "midpoint_for_split sl =
     bind_res (approx_midpoint (sl_start sl) (sl_end sl)) (\<lambda>midpt.
     bind_res (raw_sub (sl_end sl) midpt) (\<lambda>d.
     Inr (if d \<ge> 8 then Some midpt else None)))"

definition split_at :: "'w::len raw slice \<Rightarrow> 'w raw \<Rightarrow> 'w raw slice \<times> 'w raw slice" where
  "split_at sl midpt = (sl\<lparr>sl_end := midpt\<rparr>, sl\<lparr>sl_start := midpt\<rparr>)"

definition split_slice :: "'w::len raw slice \<Rightarrow> ('w raw slice \<times> 'w raw slice option) res" where
  "split_slice sl =
     bind_res (midpoint_for_split sl) (\<lambda>m.
     case m of
       None \<Rightarrow> Inr (sl, None)
     | Some midpt \<Rightarrow> (let (left, right) = split_at sl midpt in Inr (left, Some right)))"

text \<open>\<open>Itertools::tuple_windows\<close> for pairs.\<close>

fun tuple_windows :: "'a list \<Rightarrow> ('a \<times> 'a) list" where
  "tuple_windows (x # y # zs) = (x, y) # tuple_windows (y # zs)"
| "tuple_windows _ = []"

text \<open>The body of \<open>map(|(start, end)| (start.add(1))..end)\<close>.\<close>

fun gap_chunks :: "('w::len raw \<times> 'w raw) list \<Rightarrow> 'w raw chunk list res" where
  "gap_chunks [] = Inr []"
| "gap_chunks ((a, b) # ps) =
     bind_res (raw_add a 1) (\<lambda>s. bind_res (gap_chunks ps) (\<lambda>cs. Inr ((s, b) # cs)))"

text \<open>\<open>Slice::iter_chunks\<close>; \<open>BTreeSet::range\<close> panics on a reversed range.\<close>

definition iter_chunks :: "'w::len raw slice \<Rightarrow> 'w raw chunk list res" where
  "iter_chunks sl =
     (if sl_recyclable sl = {} then Inr [(sl_start sl, sl_end sl)]
      else if sl_end sl < sl_start sl then Inl IndexOutOfBounds
      else
        (let first = Min (sl_recyclable sl);
             gaps = sorted_list_of_set
               (Set.filter (\<lambda>x. sl_start sl \<le> x \<and> x < sl_end sl) (sl_recyclable sl)) @ [sl_end sl]
         in bind_res (gap_chunks (tuple_windows gaps)) (\<lambda>cs.
            Inr (nonempty_chunks ((sl_start sl, first) # cs)))))"

text \<open>What a list of chunks iterates over.\<close>

definition chunk_ids :: "'w::len raw chunk list \<Rightarrow> 'w raw list" where
  "chunk_ids cs = concat (map (\<lambda>(s, e). raw_range s e) cs)"

subsection \<open>Chunks cover what is not a breakpoint\<close>

lemma chunk_ids_Nil [simp]: "chunk_ids [] = []"
  by (simp add: chunk_ids_def)

lemma chunk_ids_Cons [simp]: "chunk_ids ((s, e) # cs) = raw_range s e @ chunk_ids cs"
  by (simp add: chunk_ids_def)

lemma chunk_ids_nonempty [simp]: "chunk_ids (nonempty_chunks cs) = chunk_ids cs"
  by (induction cs) (auto simp: nonempty_chunks_def)

text \<open>
  The chunks after a start: up to each breakpoint, and from behind it. This is the list both
  iterators build; it lists what is between start and gauge and no breakpoint, in order, in
  maximal ranges.
\<close>

fun gaps_spec :: "'w::len raw \<Rightarrow> 'w raw list \<Rightarrow> 'w raw \<Rightarrow> 'w raw chunk list" where
  "gaps_spec s [] g = [(s, g)]"
| "gaps_spec s (b # bs) g = (s, b) # gaps_spec (b + 1) bs g"

definition breaks_ok :: "'w::len raw \<Rightarrow> 'w raw list \<Rightarrow> 'w raw \<Rightarrow> bool" where
  "breaks_ok s bps g \<longleftrightarrow> s \<le> g \<and> sorted_wrt (<) bps \<and> set bps \<subseteq> {s ..< g}"

lemma breaks_ok_Cons:
  assumes "breaks_ok s (b # bs) g"
  shows "s \<le> b" "b < g" "breaks_ok (b + 1) bs g" "unat (b + 1) = unat b + 1"
proof -
  from assms show "s \<le> b" and b: "b < g" by (auto simp: breaks_ok_def)
  show u: "unat (b + 1) = unat b + 1" by (rule unat_succ [OF b])
  have le: "b + 1 \<le> x" if "b < x" for x
    using that u by (simp add: word_le_nat_alt word_less_nat_alt)
  show "breaks_ok (b + 1) bs g" using assms b le by (auto simp: breaks_ok_def)
qed

lemma chunk_ids_gaps_spec:
  "breaks_ok s bps g \<Longrightarrow> chunk_ids (gaps_spec s bps g) = filter (\<lambda>x. x \<notin> set bps) (raw_range s g)"
proof (induction bps arbitrary: s)
  case Nil
  then show ?case by simp
next
  case (Cons b bs)
  note b = breaks_ok_Cons [OF Cons.prems]
  have g: "raw_range s g = raw_range s b @ b # raw_range (b + 1) g"
    using b by (simp add: raw_range_append [symmetric, of s b g] raw_range_Cons [of b g])
  have left: "filter (\<lambda>x. x \<notin> set (b # bs)) (raw_range s b) = raw_range s b"
    using Cons.prems by (fastforce simp: filter_id_conv set_raw_range breaks_ok_def)
  have right: "filter (\<lambda>x. x \<notin> set (b # bs)) (raw_range (b + 1) g) =
      filter (\<lambda>x. x \<notin> set bs) (raw_range (b + 1) g)"
    using b(4) by (intro filter_cong) (auto simp: set_raw_range word_le_nat_alt)
  show ?case unfolding gaps_spec.simps chunk_ids_Cons Cons.IH [OF b(3)] g
    by (simp only: filter_append left filter.simps right) simp
qed

text \<open>Consecutive chunks are separated by a breakpoint, and none is empty after the filter.\<close>

definition separated :: "'w::len raw chunk list \<Rightarrow> bool" where
  "separated cs \<longleftrightarrow> (\<forall>(s, e) \<in> set cs. s < e) \<and> sorted_wrt (\<lambda>(_, e) (s, _). e < s) cs"

lemma gaps_spec_bounds:
  "breaks_ok s bps g \<Longrightarrow> (a, b) \<in> set (gaps_spec s bps g) \<Longrightarrow> s \<le> a \<and> a \<le> b \<and> b \<le> g"
proof (induction bps arbitrary: s)
  case Nil
  then show ?case by (simp add: breaks_ok_def)
next
  case (Cons c cs)
  note c = breaks_ok_Cons [OF Cons.prems(1)]
  have "c < c + 1" using c(4) by (simp add: word_less_nat_alt)
  with c Cons.IH [OF c(3)] Cons.prems(2) show ?case by (auto intro: order_trans less_imp_le)
qed

lemma gaps_spec_separated: "breaks_ok s bps g \<Longrightarrow> separated (nonempty_chunks (gaps_spec s bps g))"
proof (induction bps arbitrary: s)
  case Nil
  then show ?case by (auto simp: separated_def nonempty_chunks_def breaks_ok_def)
next
  case (Cons c cs)
  note c = breaks_ok_Cons [OF Cons.prems(1)]
  have "c < c + 1" using c(4) by (simp add: word_less_nat_alt)
  then have "\<forall>(a, b) \<in> set (gaps_spec (c + 1) cs g). c < a"
    using gaps_spec_bounds [OF c(3)] by (auto intro: less_le_trans)
  with c Cons.IH [OF c(3)] show ?case
    by (fastforce simp: separated_def nonempty_chunks_def)
qed

lemma iter_gaps_all_Breakpoint:
  assumes "breaks_ok (p + 1) bps g" and "p \<noteq> 0" and "p < g"
  shows "iter_gaps_all g (bps, Breakpoint p) = Inr (gaps_spec (p + 1) bps g)"
  using assms
proof (induction bps arbitrary: p)
  case Nil
  have fin: "iter_gaps_all g ([], Finalized) = Inr []" by (simp add: iter_gaps_all.simps)
  from Nil show ?case
    by (subst iter_gaps_all.simps) (simp add: raw_succ [of p g] fin del: One_nat_def)
next
  case (Cons b bs)
  note b = breaks_ok_Cons [OF Cons.prems(1)]
  have "p + 1 \<le> b" by (rule b(1))
  then have "b \<noteq> 0" using Cons.prems(2,3) raw_succ(2) [of p g] by (auto simp: word_le_nat_alt)
  from Cons.IH [OF b(3) this b(2)] Cons.prems show ?case
    by (subst iter_gaps_all.simps) (simp add: raw_succ [of p g] del: One_nat_def)
qed

lemma iter_gaps_all_Initial:
  assumes "breaks_ok 1 bps (g :: 'w::len raw)"
  shows "iter_gaps_all g (bps, Initial) = Inr (gaps_spec 1 bps g)"
proof (cases bps)
  case Nil
  have fin: "iter_gaps_all g ([], Finalized) = Inr []" by (simp add: iter_gaps_all.simps)
  from Nil show ?thesis by (subst iter_gaps_all.simps) (simp add: fin del: One_nat_def)
next
  case (Cons b bs)
  note b = breaks_ok_Cons [OF assms [unfolded Cons]]
  have "b \<noteq> 0" using b(1) by (auto simp: word_le_nat_alt)
  from iter_gaps_all_Breakpoint [OF b(3) this b(2)] Cons show ?thesis
    by (subst iter_gaps_all.simps) (simp del: One_nat_def)
qed

lemma iter_gaps_eq:
  "breaks_ok 1 bps g \<Longrightarrow> iter_gaps g bps = Inr (nonempty_chunks (gaps_spec 1 bps g))"
  by (simp add: iter_gaps_def iter_gaps_all_Initial)

text \<open>A well-formed snapshot: its recyclable identifiers are below the gauge.\<close>

definition snapshot_wf :: "'w::len raw snapshot \<Rightarrow> bool" where
  "snapshot_wf sn \<longleftrightarrow> gauge sn \<noteq> 0 \<and> sn_recyclable sn \<subseteq> {1 ..< gauge sn}"

lemma snapshot_breaks_ok:
  "snapshot_wf sn \<Longrightarrow> breaks_ok 1 (sorted_list_of_set (sn_recyclable sn)) (gauge sn)"
  by (auto simp: snapshot_wf_def breaks_ok_def word_le_nat_alt Suc_le_eq unat_gt_0)

lemma iter_allocated_chunks_outcome:
  assumes "snapshot_wf sn"
  shows "\<exists>cs. iter_allocated_chunks sn = Inr cs \<and> separated cs \<and>
           chunk_ids cs = filter (\<lambda>x. x \<notin> sn_recyclable sn) (raw_range 1 (gauge sn))"
  using snapshot_breaks_ok [OF assms]
  by (simp add: iter_allocated_chunks_def iter_gaps_eq gaps_spec_separated chunk_ids_gaps_spec)

subsection \<open>Slices\<close>

lemma gap_chunks_windows:
  "breaks_ok (b + 1) bs g \<Longrightarrow> b \<noteq> 0 \<Longrightarrow> b < g \<Longrightarrow>
   gap_chunks (tuple_windows (b # bs @ [g])) = Inr (gaps_spec (b + 1) bs g)"
proof (induction bs arbitrary: b)
  case Nil
  then show ?case by (simp add: raw_succ [of b g] del: One_nat_def)
next
  case (Cons c cs)
  note c = breaks_ok_Cons [OF Cons.prems(1)]
  have "c \<noteq> 0" using c(1) Cons.prems(2,3) raw_succ(2) [of b g] by (auto simp: word_le_nat_alt)
  with Cons c show ?case by (simp add: raw_succ [of b g] del: One_nat_def)
qed

definition slice_wf :: "'w::len raw slice \<Rightarrow> bool" where
  "slice_wf sl \<longleftrightarrow> sl_start sl \<noteq> 0 \<and> sl_start sl \<le> sl_end sl"

text \<open>
  \<open>iter_chunks\<close> is right for a slice that starts no later than the first recyclable identifier and
  contains it: in particular for the whole snapshot.
\<close>

lemma iter_chunks_outcome:
  assumes wf: "slice_wf sl"
    and first: "sl_recyclable sl \<noteq> {} \<Longrightarrow> Min (sl_recyclable sl) \<in> {sl_start sl ..< sl_end sl}"
  shows "\<exists>cs. iter_chunks sl = Inr cs \<and>
           chunk_ids cs = filter (\<lambda>x. x \<notin> sl_recyclable sl) (raw_range (sl_start sl) (sl_end sl))"
proof (cases "sl_recyclable sl = {}")
  case True
  then show ?thesis by (simp add: iter_chunks_def)
next
  case False
  let ?s = "sl_start sl" and ?e = "sl_end sl" and ?R = "sl_recyclable sl"
  let ?G = "Set.filter (\<lambda>x. ?s \<le> x \<and> x < ?e) ?R"
  have min: "Min ?R \<in> ?G" using first [OF False] Min_in [OF _ False] by simp
  have minG: "Min ?G = Min ?R"
    by (rule Min_eqI) (use min in \<open>auto intro: Min_le\<close>)
  obtain b bs where bs: "sorted_list_of_set ?G = b # bs"
    using min by (cases "sorted_list_of_set ?G") (auto simp: sorted_list_of_set_eq_Nil_iff)
  have ok: "breaks_ok ?s (b # bs) ?e" unfolding bs [symmetric] breaks_ok_def
    using wf by (auto simp: slice_wf_def)
  note b = breaks_ok_Cons [OF ok]
  have bmin: "b = Min ?R"
  proof -
    have "sorted (b # bs)" "set (b # bs) = ?G" by (simp_all add: bs [symmetric])
    then have "Min ?G = b" by (intro Min_eqI) auto
    with minG show ?thesis by simp
  qed
  have "b \<noteq> 0" using b(1) wf by (auto simp: slice_wf_def word_le_nat_alt unat_eq_0)
  with b have "gap_chunks (tuple_windows (b # bs @ [?e])) = Inr (gaps_spec (b + 1) bs ?e)"
    by (intro gap_chunks_windows) auto
  then have "iter_chunks sl = Inr (nonempty_chunks (gaps_spec ?s (b # bs) ?e))"
    unfolding iter_chunks_def Let_def bs using False wf bmin by (auto simp: slice_wf_def)
  moreover have "filter (\<lambda>x. x \<notin> set (b # bs)) (raw_range ?s ?e) =
      filter (\<lambda>x. x \<notin> ?R) (raw_range ?s ?e)"
    unfolding bs [symmetric] by (intro filter_cong) (auto simp: set_raw_range)
  ultimately show ?thesis using chunk_ids_gaps_spec [OF ok] by simp
qed

lemma midpoint_for_split_Some:
  assumes "slice_wf sl" and "midpoint_for_split sl = Inr (Some m)"
  shows "sl_start sl < m \<and> m < sl_end sl"
proof -
  let ?s = "sl_start sl" and ?e = "sl_end sl"
  have nz: "?s \<noteq> 0" "?e \<noteq> 0" using assms(1) by (auto simp: slice_wf_def word_le_nat_alt unat_eq_0)
  from assms(2) obtain d where m: "approx_midpoint ?s ?e = Inr m" and d: "raw_sub ?e m = Inr d" "8 \<le> d"
    by (auto simp: midpoint_for_split_def split: if_splits)
  have "unat m = (unat ?s + unat ?e) div 2" using m nz by (simp add: approx_midpoint_Inr)
  moreover have "8 \<le> unat ?e - unat m" using d by (simp add: raw_sub_Inr)
  ultimately show ?thesis by (auto simp: word_less_nat_alt)
qed

text \<open>Splitting loses nothing and repeats nothing.\<close>

lemma split_slice_partition:
  assumes "slice_wf sl" and "split_slice sl = Inr (l, Some r)"
  shows "slice_wf l \<and> slice_wf r \<and> sl_recyclable l = sl_recyclable sl \<and> sl_recyclable r = sl_recyclable sl \<and>
     raw_range (sl_start l) (sl_end l) @ raw_range (sl_start r) (sl_end r) =
     raw_range (sl_start sl) (sl_end sl) \<and>
     sl_start l < sl_end l \<and> sl_start r < sl_end r"
proof -
  from assms(2) obtain m where m: "midpoint_for_split sl = Inr (Some m)"
    and lr: "l = sl\<lparr>sl_end := m\<rparr>" "r = sl\<lparr>sl_start := m\<rparr>"
    by (auto simp: split_slice_def split_at_def split: option.splits)
  note b = midpoint_for_split_Some [OF assms(1) m]
  moreover have "m \<noteq> 0" using b by (auto simp: word_less_nat_alt)
  ultimately show ?thesis using assms(1) by (auto simp: lr slice_wf_def raw_range_append)
qed

text \<open>Whether a split panics: exactly when the two ends add up past the width.\<close>

lemma split_slice_total:
  assumes "slice_wf (sl :: 'w::len raw slice)"
  shows "(\<exists>r. split_slice sl = Inr r) \<longleftrightarrow> unat (sl_start sl) + unat (sl_end sl) < 2 ^ LENGTH('w)"
proof -
  let ?s = "sl_start sl" and ?e = "sl_end sl"
  have nz: "?s \<noteq> 0" "?e \<noteq> 0" using assms by (auto simp: slice_wf_def word_le_nat_alt unat_eq_0)
  show ?thesis
  proof
    assume "\<exists>r. split_slice sl = Inr r"
    then obtain m where "approx_midpoint ?s ?e = Inr m"
      by (auto simp: split_slice_def midpoint_for_split_def)
    with nz show "unat ?s + unat ?e < 2 ^ LENGTH('w)" by (simp add: approx_midpoint_Inr)
  next
    assume lt: "unat ?s + unat ?e < 2 ^ LENGTH('w)"
    define m :: "'w raw" where "m = of_nat ((unat ?s + unat ?e) div 2)"
    have "unat m = (unat ?s + unat ?e) div 2" using lt by (simp add: m_def unat_of_nat)
    with lt nz have m: "approx_midpoint ?s ?e = Inr m" by (simp add: approx_midpoint_Inr)
    have "m \<le> ?e" using approx_midpoint_between [OF m nz(1)] assms by (auto simp: slice_wf_def)
    with m show "\<exists>r. split_slice sl = Inr r"
      by (simp add: split_slice_def midpoint_for_split_def raw_sub_total split_at_def)
  qed
qed

end
