(* ===== verification/Distribute.thy ===== *)
theory Distribute
  imports Prelude
begin

section \<open>Distributing freed identifiers over the shards\<close>

text \<open>
  The function \<open>distribute_sorted\<close> of \<open>src/entity/ealloc/recycling.rs\<close>: given the sizes of the
  shards in increasing order and a number of identifiers, the sizes to fill the shards up to.
  \<open>usize\<close> subtractions panic when they underflow.
\<close>

text \<open>The \<open>for\<close> loop: it ends at the first shard that the identifiers do not suffice to reach.\<close>

fun distribute_loop :: "nat \<Rightarrow> nat list \<Rightarrow> nat \<Rightarrow> nat \<Rightarrow> nat \<Rightarrow> nat \<Rightarrow> (nat \<times> nat \<times> nat) res" where
  "distribute_loop tot [] i added target shards_used = Inr (added, target, shards_used)"
| "distribute_loop tot (sz # sizes) i added target shards_used =
     (if sz < target then Inl IntegerOverflow
      else
        (let delta = (sz - target) * i in
         if added + delta \<ge> tot then Inr (added, target, shards_used)
         else distribute_loop tot sizes (i + 1) (added + delta) sz (shards_used + 1)))"

definition distribute_sorted :: "nat list \<Rightarrow> nat \<Rightarrow> nat list res" where
  "distribute_sorted sizes tot =
     bind_res (distribute_loop tot sizes 0 0 0 0) (\<lambda>(added, target, shards_used).
     if shards_used = 0 then Inr sizes
     else if tot < added then Inl IntegerOverflow
     else
       (let deficit = tot - added;
            target' = target + deficit div shards_used;
            remainder = deficit mod shards_used
        in Inr (replicate (shards_used - remainder) target' @ replicate remainder (target' + 1)
                @ drop shards_used sizes)))"

subsection \<open>The loop\<close>

text \<open>
  After the loop \<open>k\<close> more shards are used; raising all used shards to the target costs what was
  added, and the next shard is out of reach.
\<close>

lemma distribute_loop_outcome:
  assumes "sorted rest" and "\<forall>x \<in> set rest. target \<le> x" and "added + S = i * target"
    and "i = 0 \<or> added < tot"
  shows "\<exists>added' target' k. distribute_loop tot rest i added target i = Inr (added', target', i + k) \<and>
     k \<le> length rest \<and> target \<le> target' \<and>
     added' + S + sum_list (take k rest) = (i + k) * target' \<and>
     (\<forall>x \<in> set (take k rest). x \<le> target') \<and>
     (i + k = 0 \<or> added' < tot) \<and>
     (k < length rest \<longrightarrow> target' \<le> rest ! k \<and> tot \<le> added' + (rest ! k - target') * (i + k))"
  using assms
proof (induction rest arbitrary: i added target S)
  case Nil
  then show ?case by auto
next
  case (Cons s rest)
  let ?delta = "(s - target) * i"
  have st: "target \<le> s" using Cons.prems(2) by simp
  show ?case
  proof (cases "added + ?delta \<ge> tot")
    case True
    then show ?thesis using st Cons.prems by (intro exI [of _ added] exI [of _ target] exI [of _ 0]) auto
  next
    case False
    have cost: "(added + ?delta) + (S + s) = (i + 1) * s"
    proof -
      have "(added + ?delta) + (S + s) = i * target + (s - target) * i + s"
        using Cons.prems(3) by simp
      also have "\<dots> = i * (target + (s - target)) + s" by (simp add: algebra_simps)
      finally show ?thesis using st by simp
    qed
    have "\<exists>added' target' k. distribute_loop tot rest (i + 1) (added + ?delta) s (i + 1) =
          Inr (added', target', i + 1 + k) \<and>
       k \<le> length rest \<and> s \<le> target' \<and>
       added' + (S + s) + sum_list (take k rest) = (i + 1 + k) * target' \<and>
       (\<forall>x \<in> set (take k rest). x \<le> target') \<and>
       (i + 1 + k = 0 \<or> added' < tot) \<and>
       (k < length rest \<longrightarrow> target' \<le> rest ! k \<and> tot \<le> added' + (rest ! k - target') * (i + 1 + k))"
      by (rule Cons.IH) (use Cons.prems(1) cost False in auto)
    then obtain added' target' k where IH:
      "distribute_loop tot rest (i + 1) (added + ?delta) s (i + 1) = Inr (added', target', i + 1 + k)"
      "k \<le> length rest" "s \<le> target'"
      "added' + (S + s) + sum_list (take k rest) = (i + 1 + k) * target'"
      "\<forall>x \<in> set (take k rest). x \<le> target'" "added' < tot"
      "k < length rest \<longrightarrow> target' \<le> rest ! k \<and> tot \<le> added' + (rest ! k - target') * (i + 1 + k)"
      by auto
    from IH False st show ?thesis
      by (intro exI [of _ added'] exI [of _ target'] exI [of _ "Suc k"]) (auto simp: algebra_simps)
  qed
qed

subsection \<open>The distribution\<close>

text \<open>
  What \<open>flush\<close> needs: the total is distributed exactly, no shard shrinks, the order is kept, and
  the filling is level: a shard that received something exceeds no other by more than one.
\<close>

definition level_filling :: "nat list \<Rightarrow> nat \<Rightarrow> nat list \<Rightarrow> bool" where
  "level_filling sizes tot out \<longleftrightarrow>
     length out = length sizes \<and> sum_list out = sum_list sizes + tot \<and>
     list_all2 (\<le>) sizes out \<and> sorted out \<and>
     (\<forall>i < length sizes. sizes ! i < out ! i \<longrightarrow> (\<forall>j < length sizes. out ! i \<le> out ! j + 1))"

lemma level_filling_zero: "sorted sizes \<Longrightarrow> level_filling sizes 0 sizes"
  by (simp add: level_filling_def list_all2_refl)

lemma level_filling_total:
  assumes "level_filling sizes tot out"
  shows "(\<Sum>(s, t) \<leftarrow> zip sizes out. t - s) = tot"
proof -
  have "(\<Sum>(s, t) \<leftarrow> zip xs ys. t - s) + sum_list xs = sum_list ys"
    if "list_all2 (\<le>) xs ys" for xs ys :: "nat list"
    using that by (induction rule: list_all2_induct) auto
  from this [of sizes out] assms show ?thesis by (simp add: level_filling_def)
qed

lemma filled_sum:
  fixes tot added target n :: nat
  assumes "added + sum_list used = n * target" and "length used = n" and "0 < n" and "added \<le> tot"
  shows "(n - (tot - added) mod n) * (target + (tot - added) div n) +
         ((tot - added) mod n) * (target + (tot - added) div n + 1) = sum_list used + tot"
proof -
  define d q r where "d = tot - added" and "q = d div n" and "r = d mod n"
  have d: "d = n * q + r" by (simp add: q_def r_def)
  have r: "r < n" using assms(3) by (simp add: r_def)
  have "(n - r) * (target + q) + r * (target + q + 1) = n * (target + q) + r"
  proof -
    have "n * (target + q) = (n - r) * (target + q) + r * (target + q)"
      using r by (metis add_mult_distrib le_add_diff_inverse2 less_imp_le)
    then show ?thesis by simp
  qed
  also have "\<dots> = n * target + d" using d by (simp add: algebra_simps)
  also have "\<dots> = sum_list used + tot" using assms(1,4) by (simp add: d_def)
  finally show ?thesis by (simp add: d_def q_def r_def)
qed

text \<open>The raised part stays below the shards that were not reached.\<close>

lemma filled_below:
  fixes tot added s target n :: nat
  assumes "tot \<le> added + (s - target) * n" and "target \<le> s" and "added \<le> tot" and "0 < n"
  shows "target + (tot - added) div n \<le> s"
    and "0 < (tot - added) mod n \<Longrightarrow> target + (tot - added) div n + 1 \<le> s"
proof -
  define d where "d = tot - added"
  have d: "d \<le> (s - target) * n" using diff_le_mono [OF assms(1), of added] by (simp only: d_def diff_add_inverse)
  have "d div n \<le> s - target"
    using div_le_mono [OF d, of n] assms(4) by simp
  then show "target + (tot - added) div n \<le> s" using assms(2) by (simp add: d_def)
  assume "0 < (tot - added) mod n"
  then have "0 < d mod n" by (simp add: d_def)
  then have "d div n * n < d" by (metis add.right_neutral div_mult_mod_eq nat_add_left_cancel_less)
  then have "d div n * n < (s - target) * n" using d by (rule less_le_trans)
  then have "d div n < s - target" by simp
  then show "target + (tot - added) div n + 1 \<le> s" using assms(2) by (simp add: d_def)
qed

lemma level_filling_append:
  assumes sorted: "sorted sizes" and n: "n \<le> length sizes" and r: "r < n"
    and le: "\<forall>x \<in> set (take n sizes). x \<le> t"
    and next1: "n < length sizes \<Longrightarrow> t \<le> sizes ! n" and next2: "n < length sizes \<Longrightarrow> 0 < r \<Longrightarrow> t + 1 \<le> sizes ! n"
    and sum: "(n - r) * t + r * (t + 1) = sum_list (take n sizes) + tot"
  shows "level_filling sizes tot (replicate (n - r) t @ replicate r (t + 1) @ drop n sizes)"
    (is "level_filling _ _ ?out")
proof -
  let ?new = "replicate (n - r) t @ replicate r (t + 1)"
  have len: "length ?new = n" using r by simp
  have rest: "t \<le> x \<and> (0 < r \<longrightarrow> t + 1 \<le> x)" if "x \<in> set (drop n sizes)" for x
  proof -
    from that obtain j where j: "n + j < length sizes" "x = sizes ! (n + j)"
      by (metis add.commute in_set_conv_nth length_drop less_diff_conv nth_drop n)
    then have "sizes ! n \<le> x" using sorted by (simp add: sorted_nth_mono)
    with j next1 next2 show ?thesis by fastforce
  qed
  have "sum_list sizes = sum_list (take n sizes) + sum_list (drop n sizes)"
    by (metis append_take_drop_id sum_list_append)
  then have "sum_list ?out = sum_list sizes + tot"
    using sum by (simp add: sum_list_replicate)
  moreover have "list_all2 (\<le>) sizes ?out"
  proof -
    have "list_all2 (\<le>) (take n sizes) ?new"
      unfolding list_all2_conv_all_nth
    proof (intro conjI allI impI)
      show "length (take n sizes) = length ?new" using n len by simp
      fix i assume i: "i < length (take n sizes)"
      have "take n sizes ! i \<in> set (take n sizes)" using i by (rule nth_mem)
      then have "take n sizes ! i \<le> t" using le by blast
      moreover have "t \<le> ?new ! i" using i len n by (auto simp: nth_append)
      ultimately show "take n sizes ! i \<le> ?new ! i" by simp
    qed
    then have "list_all2 (\<le>) (take n sizes @ drop n sizes) (?new @ drop n sizes)"
      by (rule list_all2_appendI) (simp add: list_all2_refl)
    then show ?thesis by simp
  qed
  moreover have "sorted ?out"
    using sorted rest by (auto simp: sorted_append sorted_wrt_drop)
  moreover have "\<forall>i < length sizes. sizes ! i < ?out ! i \<longrightarrow> (\<forall>j < length sizes. ?out ! i \<le> ?out ! j + 1)"
  proof (intro allI impI)
    fix i j assume i: "i < length sizes" "sizes ! i < ?out ! i" and j: "j < length sizes"
    have "i < n"
    proof (rule ccontr)
      assume "\<not> i < n"
      then have "?out ! i = sizes ! i"
        using i(1) len n by (simp add: append_assoc [symmetric] nth_append del: append_assoc)
      with i(2) show False by simp
    qed
    then have "?out ! i \<le> t + 1"
      using len by (auto simp: nth_append)
    moreover have "t \<le> ?out ! j"
    proof (cases "j < n")
      case True
      then show ?thesis using len by (auto simp: nth_append)
    next
      case False
      then have "?out ! j = drop n sizes ! (j - n)"
        using j len n by (simp add: append_assoc [symmetric] nth_append del: append_assoc)
      moreover have "drop n sizes ! (j - n) \<in> set (drop n sizes)"
        using False j by (intro nth_mem) auto
      ultimately show ?thesis using rest by metis
    qed
    ultimately show "?out ! i \<le> ?out ! j + 1" by linarith
  qed
  ultimately show ?thesis using n len by (simp add: level_filling_def)
qed

lemma distribute_sorted_outcome:
  assumes "sorted sizes" and "sizes \<noteq> []"
  shows "\<exists>out. distribute_sorted sizes tot = Inr out \<and> level_filling sizes tot out"
proof -
  obtain added target n where loop: "distribute_loop tot sizes 0 0 0 0 = Inr (added, target, n)"
    and n: "n \<le> length sizes" and sum: "added + sum_list (take n sizes) = n * target"
    and le: "\<forall>x \<in> set (take n sizes). x \<le> target" and added: "n = 0 \<or> added < tot"
    and nxt: "n < length sizes \<longrightarrow> target \<le> sizes ! n \<and> tot \<le> added + (sizes ! n - target) * n"
    using distribute_loop_outcome [of sizes 0 0 0 0 tot] assms(1) by auto
  show ?thesis
  proof (cases "n = 0")
    case True
    have "0 < length sizes" using assms(2) by simp
    with nxt sum True have "tot = 0" by auto
    with True loop assms(1) show ?thesis
      by (simp add: distribute_sorted_def level_filling_zero)
  next
    case False
    let ?q = "(tot - added) div n" and ?r = "(tot - added) mod n"
    have a: "added \<le> tot" "0 < n" using False added by auto
    have "level_filling sizes tot (replicate (n - ?r) (target + ?q) @ replicate ?r (target + ?q + 1)
        @ drop n sizes)"
    proof (rule level_filling_append [OF assms(1) n])
      show "?r < n" using a by simp
      show "\<forall>x \<in> set (take n sizes). x \<le> target + ?q" using le by (auto intro: trans_le_add1)
      show "(n - ?r) * (target + ?q) + ?r * (target + ?q + 1) = sum_list (take n sizes) + tot"
        by (rule filled_sum [OF sum]) (use n a in auto)
      assume lt: "n < length sizes"
      show "target + ?q \<le> sizes ! n" by (rule filled_below) (use nxt lt a in auto)
      show "0 < ?r \<Longrightarrow> target + ?q + 1 \<le> sizes ! n" by (rule filled_below) (use nxt lt a in auto)
    qed
    then show ?thesis using loop a False by (simp add: distribute_sorted_def Let_def)
  qed
qed

end
