(* ===== verification/Recycling.thy ===== *)
theory Recycling
  imports Recycler Snapshot Distribute
begin

section \<open>The recycling allocator\<close>

text \<open>
  \<open>src/entity/ealloc/recycling.rs\<close> and \<open>src/entity/ealloc/sharding.rs\<close>. The allocator keeps one
  recycler and one queue of reused identifiers per shard; a gauge hands out fresh identifiers.
  Every operation is a function on the record \<open>recycling\<close>, with the methods of the recycler as a
  parameter \<open>ops\<close>. The \<open>Arc\<close>s of the source are shared only while shards or snapshots are lent
  out: \<open>shards_lent\<close> and \<open>snapshots_lent\<close> stand for their reference counts, and \<open>Arc::get_mut\<close>
  fails while they say so. An allocation also returns the state when it panics, since the gauge is
  shared between threads.
\<close>

subsection \<open>Shard assigners\<close>

text \<open>
  The random source behind \<open>ThreadRngShardAssigner\<close> is a parameter: \<open>rng n\<close> is what
  \<open>gen_range(0..n)\<close> returns, \<open>perm\<close> what \<open>shuffle\<close> does.
\<close>

datatype shard_assigner = ThreadRngShardAssigner | StaticShardAssigner nat

definition rng_ok :: "(nat \<Rightarrow> nat) \<Rightarrow> bool" where
  "rng_ok rng \<longleftrightarrow> (\<forall>n > 0. rng n < n)"

fun select_for_offline_allocation :: "(nat \<Rightarrow> nat) \<Rightarrow> shard_assigner \<Rightarrow> nat \<Rightarrow> nat res" where
  "select_for_offline_allocation rng ThreadRngShardAssigner num_shards =
     (if num_shards = 0 then Inl IndexOutOfBounds else Inr (rng num_shards))"
| "select_for_offline_allocation rng (StaticShardAssigner allocating_shard) num_shards =
     Inr allocating_shard"

fun shuffle_shards :: "('a list \<Rightarrow> 'a list) \<Rightarrow> shard_assigner \<Rightarrow> 'a list \<Rightarrow> 'a list" where
  "shuffle_shards perm ThreadRngShardAssigner xs = perm xs"
| "shuffle_shards perm (StaticShardAssigner _) xs = xs"

subsection \<open>The allocator\<close>

record ('e, 'r) recycling =
  flush_mark :: bool
  global_gauge :: 'e
  recyclable :: "'e set"
  recycler_shards :: "'r list"
  shard_assigner :: shard_assigner
  dealloc_queue :: "'e list"
  reuse_queue_shards :: "'e list list"
  shards_lent :: bool
  snapshots_lent :: nat

definition new_with_shard_assigner ::
    "('w::len raw, 'r, 'h) recycler_ops \<Rightarrow> nat \<Rightarrow> shard_assigner \<Rightarrow> ('w raw, 'r) recycling" where
  "new_with_shard_assigner ops num_shards sa =
     \<lparr>flush_mark = False, global_gauge = raw_new, recyclable = {},
      recycler_shards = replicate num_shards (rc_default ops), shard_assigner = sa,
      dealloc_queue = [], reuse_queue_shards = replicate num_shards [],
      shards_lent = False, snapshots_lent = 0\<rparr>"

text \<open>\<open>get_recycler_offline\<close> and \<open>get_reuse_queue_offline\<close>.\<close>

definition get_offline :: "bool \<Rightarrow> 'a list \<Rightarrow> nat \<Rightarrow> 'a res" where
  "get_offline lent xs i =
     bind_res (expect IndexOutOfBounds (list_get xs i)) (\<lambda>x. if lent then Inl ArcShared else Inr x)"

text \<open>The allocation of a shard in offline mode records a recycled identifier as reused.\<close>

definition offline_shard_allocate ::
    "('w::len raw, 'r, 'h) recycler_ops \<Rightarrow> 'h \<Rightarrow> nat \<Rightarrow> ('w raw, 'r) recycling
     \<Rightarrow> 'w raw res \<times> ('w raw, 'r) recycling" where
  "offline_shard_allocate ops hint i a =
     (case rc_poll ops hint (recycler_shards a ! i) of
        Inl e \<Rightarrow> (Inl e, a)
      | Inr (Some eid, r) \<Rightarrow>
          (Inr eid, a\<lparr>recycler_shards := (recycler_shards a)[i := r],
                     reuse_queue_shards := (reuse_queue_shards a)[i := reuse_queue_shards a ! i @ [eid]]\<rparr>)
      | Inr (None, r) \<Rightarrow>
          (let (x, g) = raw_fetch_add (global_gauge a) 1
           in (x, a\<lparr>global_gauge := g, recycler_shards := (recycler_shards a)[i := r]\<rparr>)))"

text \<open>The allocation of the trait \<open>Shard\<close>, which the worker threads use.\<close>

definition online_shard_allocate ::
    "('w::len raw, 'r, 'h) recycler_ops \<Rightarrow> 'h \<Rightarrow> nat \<Rightarrow> ('w raw, 'r) recycling
     \<Rightarrow> 'w raw res \<times> ('w raw, 'r) recycling" where
  "online_shard_allocate ops hint i a =
     (case rc_poll ops hint (recycler_shards a ! i) of
        Inl e \<Rightarrow> (Inl e, a)
      | Inr (Some eid, r) \<Rightarrow> (Inr eid, a\<lparr>recycler_shards := (recycler_shards a)[i := r]\<rparr>)
      | Inr (None, r) \<Rightarrow>
          (let (x, g) = raw_fetch_add (global_gauge a) 1
           in (x, a\<lparr>global_gauge := g, recycler_shards := (recycler_shards a)[i := r]\<rparr>)))"

definition allocate ::
    "('w::len raw, 'r, 'h) recycler_ops \<Rightarrow> (nat \<Rightarrow> nat) \<Rightarrow> 'h \<Rightarrow> ('w raw, 'r) recycling
     \<Rightarrow> 'w raw res \<times> ('w raw, 'r) recycling" where
  "allocate ops rng hint a =
     (case bind_res (select_for_offline_allocation rng (shard_assigner a) (length (recycler_shards a)))
             (\<lambda>shard_id.
              bind_res (get_offline (shards_lent a) (recycler_shards a) shard_id) (\<lambda>_.
              bind_res (get_offline (shards_lent a) (reuse_queue_shards a) shard_id) (\<lambda>_.
              Inr shard_id))) of
        Inl e \<Rightarrow> (Inl e, a)
      | Inr shard_id \<Rightarrow> offline_shard_allocate ops hint shard_id a)"

definition queue_deallocate :: "'e \<Rightarrow> ('e, 'r) recycling \<Rightarrow> ('e, 'r) recycling" where
  "queue_deallocate eid a = a\<lparr>dealloc_queue := dealloc_queue a @ [eid]\<rparr>"

text \<open>
  \<open>shards\<close> lends every shard, identified by its position, in the order the assigner shuffles them
  into; locking a shard that is still lent would wait for ever.
\<close>

definition shards :: "(nat list \<Rightarrow> nat list) \<Rightarrow> ('e, 'r) recycling
    \<Rightarrow> (nat list \<times> ('e, 'r) recycling) res" where
  "shards perm a =
     (if shards_lent a then Inl DeadlockDetected
      else Inr (shuffle_shards perm (shard_assigner a)
                  [0 ..< min (length (recycler_shards a)) (length (reuse_queue_shards a))],
                a\<lparr>shards_lent := True\<rparr>))"

definition drop_shards :: "('e, 'r) recycling \<Rightarrow> ('e, 'r) recycling" where
  "drop_shards a = a\<lparr>shards_lent := False\<rparr>"

definition take_snapshot :: "('w::len raw, 'r) recycling \<Rightarrow> ('w raw snapshot \<times> ('w raw, 'r) recycling) res" where
  "take_snapshot a =
     bind_res (raw_load (global_gauge a)) (\<lambda>g.
     Inr (\<lparr>gauge = g, sn_recyclable = recyclable a\<rparr>, a\<lparr>snapshots_lent := Suc (snapshots_lent a)\<rparr>))"

definition drop_snapshot :: "('e, 'r) recycling \<Rightarrow> ('e, 'r) recycling" where
  "drop_snapshot a = a\<lparr>snapshots_lent := snapshots_lent a - 1\<rparr>"

definition iter_allocated_chunks_offline :: "('w::len raw, 'r) recycling \<Rightarrow> 'w raw chunk list res" where
  "iter_allocated_chunks_offline a =
     bind_res (raw_load (global_gauge a)) (\<lambda>g. iter_gaps g (sorted_list_of_set (recyclable a)))"

text \<open>
  \<open>flush\<close>: the loop over the shards in increasing order of size, each with the size it is filled up
  to; \<open>split_at\<close> panics when it asks for more than is left.
\<close>

fun flush_shards :: "('w::len raw, 'r, 'h) recycler_ops \<Rightarrow> (nat \<times> nat) list \<Rightarrow> 'w raw list \<Rightarrow> 'r list
    \<Rightarrow> 'r list res" where
  "flush_shards ops [] ids rs = Inr rs"
| "flush_shards ops ((i, target) # its) ids rs =
     (let n = rc_len ops (rs ! i) in
      if target < n then Inl IntegerOverflow
      else if length ids < target - n then Inl IndexOutOfBounds
      else flush_shards ops its (drop (target - n) ids)
             (rs[i := rc_extend ops (take (target - n) ids) (rs ! i)]))"

definition flush_order :: "('w::len raw, 'r, 'h) recycler_ops \<Rightarrow> 'r list \<Rightarrow> nat list" where
  "flush_order ops rs = sort_key (\<lambda>i. rc_len ops (rs ! i)) [0 ..< length rs]"

definition flush :: "('w::len raw, 'r, 'h) recycler_ops \<Rightarrow> ('w raw, 'r) recycling
    \<Rightarrow> ('w raw, 'r) recycling res" where
  "flush ops a =
     (let ids = dealloc_queue a in
      if snapshots_lent a \<noteq> 0 then Inl ArcShared
      else if shards_lent a \<and> (reuse_queue_shards a \<noteq> [] \<or> recycler_shards a \<noteq> []) then Inl ArcShared
      else
        (let order = flush_order ops (recycler_shards a) in
         bind_res (distribute_sorted (map (\<lambda>i. rc_len ops (recycler_shards a ! i)) order) (length ids))
           (\<lambda>target_sizes.
         bind_res (flush_shards ops (zip order target_sizes) ids (recycler_shards a)) (\<lambda>rs.
         Inr (a\<lparr>flush_mark := False,
                recyclable := (recyclable a \<union> set ids) - \<Union> (set ` set (reuse_queue_shards a)),
                recycler_shards := rs,
                dealloc_queue := [],
                reuse_queue_shards := map (\<lambda>_. []) (reuse_queue_shards a)\<rparr>)))))"

definition mark_need_flush :: "('e, 'r) recycling \<Rightarrow> ('e, 'r) recycling" where
  "mark_need_flush a = a\<lparr>flush_mark := True\<rparr>"

definition flush_if_marked :: "('w::len raw, 'r, 'h) recycler_ops \<Rightarrow> ('w raw, 'r) recycling
    \<Rightarrow> ('w raw, 'r) recycling res" where
  "flush_if_marked ops a = (if flush_mark a then flush ops a else Inr a)"


subsection \<open>Who owns an identifier\<close>

text \<open>
  Every identifier the gauge has handed out has one owner: a live entity (or an entity whose
  creation is queued), the recycler of one shard, or the deallocation queue. The equation counts
  with multiplicity, so it also says that nobody owns an identifier twice. A gauge of zero has
  wrapped around: all identifiers are handed out.
\<close>

definition handed_out :: "'w::len word \<Rightarrow> 'w raw set" where
  "handed_out g = (if g = 0 then UNIV - {0} else {1 ..< g})"

definition held_mset :: "('r \<Rightarrow> 'e set) \<Rightarrow> 'r list \<Rightarrow> 'e multiset" where
  "held_mset held rs = (\<Sum>r \<leftarrow> rs. mset_set (held r))"

definition assigner_ok :: "shard_assigner \<Rightarrow> nat \<Rightarrow> bool" where
  "assigner_ok sa n \<longleftrightarrow> (case sa of ThreadRngShardAssigner \<Rightarrow> 0 < n | StaticShardAssigner i \<Rightarrow> i < n)"

definition ealloc_inv ::
    "('r \<Rightarrow> bool) \<Rightarrow> ('r \<Rightarrow> 'w::len raw set) \<Rightarrow> 'w raw set \<Rightarrow> ('w raw, 'r) recycling \<Rightarrow> bool" where
  "ealloc_inv rc_inv held live a \<longleftrightarrow>
     (\<forall>r \<in> set (recycler_shards a). rc_inv r) \<and>
     assigner_ok (shard_assigner a) (length (recycler_shards a)) \<and>
     length (reuse_queue_shards a) = length (recycler_shards a) \<and>
     mset_set (handed_out (global_gauge a)) =
       mset_set live + held_mset held (recycler_shards a) + mset (dealloc_queue a)"

lemma held_mset_update:
  "i < length rs \<Longrightarrow> held_mset held (rs[i := r]) + mset_set (held (rs ! i)) =
     held_mset held rs + mset_set (held r)"
proof (induction rs arbitrary: i)
  case (Cons y ys)
  then show ?case by (cases i) (auto simp: held_mset_def ac_simps)
qed simp

lemma held_mset_replicate [simp]: "held r = {} \<Longrightarrow> held_mset held (replicate n r) = {#}"
  by (induction n) (simp_all add: held_mset_def)

lemma set_held_mset: "(\<And>r. r \<in> set rs \<Longrightarrow> finite (held r)) \<Longrightarrow> set_mset (held_mset held rs) = \<Union> (held ` set rs)"
  by (induction rs) (auto simp: held_mset_def)

lemma handed_out_nonzero: "x \<in> handed_out g \<Longrightarrow> x \<noteq> 0"
  by (auto simp: handed_out_def word_le_nat_alt split: if_splits)

lemma handed_out_new [simp]: "handed_out raw_new = {}"
  by (simp add: handed_out_def raw_new_def)

text \<open>A fresh identifier was not handed out, and the gauge then hands out exactly it in addition.\<close>

lemma handed_out_succ:
  fixes g :: "'w::len word"
  assumes "g \<noteq> 0"
  shows "g \<notin> handed_out g" and "handed_out (g + 1) = insert g (handed_out g)"
proof -
  show "g \<notin> handed_out g" using assms by (simp add: handed_out_def)
  show "handed_out (g + 1) = insert g (handed_out g)"
  proof (cases "g + 1 = 0")
    case True
    then have "g = - 1" by (simp add: eq_neg_iff_add_eq_0)
    then have max: "x < g \<longleftrightarrow> x \<noteq> g" for x by (simp add: order_less_le)
    have pos: "1 \<le> x \<longleftrightarrow> x \<noteq> 0" for x :: "'w word"
      by (simp add: word_le_nat_alt Suc_le_eq unat_gt_0)
    have "{1 ..< g} = UNIV - {0, g}"
      unfolding atLeastLessThan_def atLeast_def lessThan_def pos max by blast
    with True assms show ?thesis by (auto simp: handed_out_def)
  next
    case False
    have g: "unat (g + 1) = unat g + 1"
      using False unatSuc [of g] by (simp add: add.commute)
    then have lt: "x < g + 1 \<longleftrightarrow> x = g \<or> x < g" for x
      unfolding word_less_nat_alt word_unat_eq_iff g by linarith
    have "1 \<le> g" using assms by (simp add: word_le_nat_alt Suc_le_eq unat_gt_0)
    then have "{1 ..< g + 1} = insert g {1 ..< g}"
      unfolding atLeastLessThan_def atLeast_def lessThan_def lt by blast
    then show ?thesis using False assms by (simp add: handed_out_def)
  qed
qed

lemma mset_handed_out_succ:
  fixes g :: "'w::len word"
  shows "g \<noteq> 0 \<Longrightarrow> mset_set (handed_out (g + 1)) = add_mset g (mset_set (handed_out g))"
  by (simp add: handed_out_succ)

text \<open>Reading the ownership equation.\<close>

lemma mset_set_split:
  assumes "mset_set M = A + B" and "finite M"
  shows "x \<in># A \<Longrightarrow> x \<notin># B" and "set_mset A \<union> set_mset B = M"
proof -
  show "set_mset A \<union> set_mset B = M" using arg_cong [OF assms(1), of set_mset] assms(2) by simp
  assume x: "x \<in># A"
  have "count (mset_set M) x \<le> 1" using assms(2) by (cases "x \<in> M") simp_all
  moreover have "count A x \<noteq> 0" using x by (simp add: count_eq_zero_iff)
  moreover have "count (mset_set M) x = count A x + count B x" using assms(1) by simp
  ultimately have "count B x = 0" by linarith
  then show "x \<notin># B" by (simp add: count_eq_zero_iff)
qed

lemma mset_set_distinct:
  assumes "mset_set M = A + mset xs" and "finite M"
  shows "distinct xs"
  unfolding distinct_count_atmost_1
proof
  fix x
  have "count (mset_set M) x \<le> 1" using assms(2) by (cases "x \<in> M") simp_all
  with assms(1) have "count (mset xs) x \<le> 1" by simp
  moreover have "count (mset xs) x \<noteq> 0 \<longleftrightarrow> x \<in> set xs" by (simp add: count_eq_zero_iff)
  ultimately show "count (mset xs) x = (if x \<in> set xs then 1 else 0)" by (auto simp: le_Suc_eq)
qed

lemma mset_set_part:
  assumes "mset_set M = A + B" and "finite M" and "set_mset B = N"
  shows "B = mset_set N"
proof (rule multiset_eqI)
  fix x
  have "finite N" using assms(3) by auto
  have "count (mset_set M) x \<le> 1" using assms(2) by (cases "x \<in> M") simp_all
  with assms(1) have "count B x \<le> 1" by simp
  moreover have "count B x = 0 \<longleftrightarrow> x \<notin> N" using assms(3) by (simp add: count_eq_zero_iff)
  ultimately show "count B x = count (mset_set N) x"
    using \<open>finite N\<close> by (cases "x \<in> N") (auto simp: le_Suc_eq)
qed

subsection \<open>Every operation keeps the ownership\<close>

context recycler
begin

abbreviation inv_of :: "'w raw set \<Rightarrow> ('w raw, 'r) recycling \<Rightarrow> bool" where
  "inv_of \<equiv> ealloc_inv rc_inv held"

lemma new_inv:
  assumes "assigner_ok sa n"
  shows "inv_of {} (new_with_shard_assigner ops n sa)"
  using assms by (auto simp: ealloc_inv_def new_with_shard_assigner_def inv_default held_default)

lemma shard_poll_some:
  assumes inv: "inv_of live a" and i: "i < length (recycler_shards a)"
    and poll: "rc_poll ops h (recycler_shards a ! i) = Inr (Some x, r)"
  shows "x \<notin> live" and "x \<in> handed_out (global_gauge a)"
    and "mset_set (handed_out (global_gauge a)) = mset_set (insert x live) +
           held_mset held ((recycler_shards a)[i := r]) + mset (dealloc_queue a)"
    and "\<forall>r \<in> set ((recycler_shards a)[i := r]). rc_inv r"
    and "\<Union> (held ` set (recycler_shards a)) = insert x (\<Union> (held ` set ((recycler_shards a)[i := r])))"
    and "x \<notin> \<Union> (held ` set ((recycler_shards a)[i := r]))" and "x \<notin> set (dealloc_queue a)"
proof -
  let ?rs = "recycler_shards a"
  have ri: "rc_inv (?rs ! i)" using inv i by (simp add: ealloc_inv_def)
  note p = mset_poll [OF ri poll]
  have "held_mset held (?rs[i := r]) + mset_set (held (?rs ! i)) = held_mset held ?rs + mset_set (held r)"
    by (rule held_mset_update [OF i])
  then have h: "held_mset held ?rs = add_mset x (held_mset held (?rs[i := r]))" by (simp add: p(1))
  have eq: "mset_set (handed_out (global_gauge a)) = mset_set live +
      (add_mset x (held_mset held (?rs[i := r])) + mset (dealloc_queue a))"
    using inv by (simp add: ealloc_inv_def h ac_simps)
  note split = mset_set_split [OF eq finite]
  show x: "x \<notin> live" using split(1) [of x] by auto
  show "x \<in> handed_out (global_gauge a)" using split(2) by auto
  show "mset_set (handed_out (global_gauge a)) = mset_set (insert x live) +
           held_mset held (?rs[i := r]) + mset (dealloc_queue a)"
    using eq x by simp
  show "\<forall>r \<in> set (?rs[i := r]). rc_inv r"
    using inv p(2) set_update_subset_insert [of ?rs i r] by (auto simp: ealloc_inv_def)
  have sets: "set_mset (held_mset held rs) = \<Union> (held ` set rs)" for rs
    by (rule set_held_mset) simp
  show "\<Union> (held ` set ?rs) = insert x (\<Union> (held ` set (?rs[i := r])))"
    using arg_cong [OF h, of set_mset] by (simp add: sets)
  have "mset_set (handed_out (global_gauge a)) = (mset_set live + {#x#}) +
      (held_mset held (?rs[i := r]) + mset (dealloc_queue a))"
    using eq by (simp add: ac_simps)
  from mset_set_split(1) [OF this finite, of x] sets
  show "x \<notin> \<Union> (held ` set (?rs[i := r]))" "x \<notin> set (dealloc_queue a)" by auto
qed

text \<open>
  An allocation, in either mode: it yields an identifier that nobody owns, and only panics when the
  shard has none to recycle and the gauge has wrapped around.
\<close>

lemma shard_allocate_outcome:
  assumes inv: "inv_of live a" and i: "i < length (recycler_shards a)"
    and f: "f = offline_shard_allocate \<or> f = online_shard_allocate"
  shows "(\<exists>x a'. f ops h i a = (Inr x, a') \<and> x \<notin> live \<and> x \<noteq> 0 \<and> inv_of (insert x live) a') \<or>
         (\<exists>a'. f ops h i a = (Inl IntegerOverflow, a') \<and> held (recycler_shards a ! i) = {} \<and>
               global_gauge a = 0)"
proof -
  let ?rs = "recycler_shards a" and ?g = "global_gauge a"
  have ri: "rc_inv (?rs ! i)" using inv i by (simp add: ealloc_inv_def)
  then show ?thesis
  proof (rule poll_outcome [where h = h])
    assume e: "held (?rs ! i) = {}" and poll: "rc_poll ops h (?rs ! i) = Inr (None, ?rs ! i)"
    let ?a = "a\<lparr>global_gauge := ?g + 1, recycler_shards := ?rs[i := ?rs ! i]\<rparr>"
    have fa: "f ops h i a = (if ?g = 0 then Inl IntegerOverflow else Inr ?g, ?a)"
      using f poll
      by (auto simp: offline_shard_allocate_def online_shard_allocate_def raw_fetch_add_1 simp del: One_nat_def)
    show ?thesis
    proof (cases "?g = 0")
      case False
      have eq: "mset_set (handed_out ?g) =
          mset_set live + (held_mset held ?rs + mset (dealloc_queue a))"
        using inv by (simp add: ealloc_inv_def ac_simps)
      have g: "?g \<notin> live"
        using mset_set_split(2) [OF eq finite] handed_out_succ(1) [OF False] by auto
      then have "inv_of (insert ?g live) ?a"
        using inv eq False by (simp add: ealloc_inv_def mset_handed_out_succ handed_out_succ(1))
      with False g fa show ?thesis by simp
    qed (use e fa in simp)
  next
    fix x r assume poll: "rc_poll ops h (?rs ! i) = Inr (Some x, r)"
    note p = shard_poll_some [OF inv i poll]
    have "\<exists>a'. f ops h i a = (Inr x, a') \<and> inv_of (insert x live) a'"
      using f poll p inv
      by (auto simp: ealloc_inv_def offline_shard_allocate_def online_shard_allocate_def)
    with p(1) handed_out_nonzero [OF p(2)] show ?thesis by blast
  qed
qed

lemma allocate_shard:
  assumes "inv_of live a" and "rng_ok rng" and "\<not> shards_lent a"
  obtains i where "i < length (recycler_shards a)"
    and "\<And>h. allocate ops rng h a = offline_shard_allocate ops h i a"
proof -
  let ?n = "length (recycler_shards a)"
  obtain i where i: "i < ?n" "select_for_offline_allocation rng (shard_assigner a) ?n = Inr i"
    using assms by (cases "shard_assigner a") (auto simp: ealloc_inv_def assigner_ok_def rng_ok_def)
  moreover have "length (reuse_queue_shards a) = ?n" using assms(1) by (simp add: ealloc_inv_def)
  ultimately have "allocate ops rng h a = offline_shard_allocate ops h i a" for h
    using assms(3) by (simp add: allocate_def get_offline_def list_get_def)
  with i that show ?thesis by blast
qed

lemma queue_deallocate_inv:
  assumes "inv_of live a" and "x \<in> live"
  shows "inv_of (live - {x}) (queue_deallocate x a)"
proof -
  have "mset_set live = add_mset x (mset_set (live - {x}))"
    using assms(2) by (simp add: mset_set.remove)
  with assms(1) show ?thesis by (simp add: ealloc_inv_def queue_deallocate_def)
qed

subsection \<open>Flushing\<close>

lemma flush_shards_outcome:
  assumes "\<forall>(i, t) \<in> set its. i < length rs \<and> rc_len ops (rs ! i) \<le> t"
    and "distinct (map fst its)"
    and "(\<Sum>(i, t) \<leftarrow> its. t - rc_len ops (rs ! i)) = length ids"
    and "\<forall>r \<in> set rs. rc_inv r"
    and "held_mset held rs + mset ids = mset_set M"
  shows "\<exists>rs'. flush_shards ops its ids rs = Inr rs' \<and> length rs' = length rs \<and>
           (\<forall>r \<in> set rs'. rc_inv r) \<and> held_mset held rs' = mset_set M \<and>
           (\<forall>(i, t) \<in> set its. rc_len ops (rs' ! i) = t) \<and>
           (\<forall>i. i \<notin> fst ` set its \<longrightarrow> rs' ! i = rs ! i)"
  using assms
proof (induction its arbitrary: ids rs)
  case Nil
  then show ?case by simp
next
  case (Cons it its)
  obtain i t where it: "it = (i, t)" by (cases it)
  let ?n = "rc_len ops (rs ! i)"
  define left where "left = take (t - ?n) ids"
  define right where "right = drop (t - ?n) ids"
  have ids: "ids = left @ right" by (simp add: left_def right_def)
  have it_ok: "i < length rs" "?n \<le> t" "i \<notin> fst ` set its" using Cons.prems(1,2) it by auto
  have enough: "t - ?n \<le> length ids" using Cons.prems(3) it by simp
  then have len: "length left = t - ?n" by (simp add: left_def)
  have ri: "rc_inv (rs ! i)" using Cons.prems(4) it_ok(1) by simp
  have part: "held_mset held rs = mset_set (held (rs ! i)) + held_mset held (rs[i := rc_default ops])"
    using held_mset_update [OF it_ok(1), of held "rc_default ops"] by (simp add: held_default ac_simps)
  have eq: "mset_set M =
      (mset_set (held (rs ! i)) + held_mset held (rs[i := rc_default ops])) + mset (left @ right)"
    using Cons.prems(5) part by (simp add: ids [symmetric])
  have dist: "distinct (left @ right)" by (rule mset_set_distinct [OF eq finite])
  have disj: "set left \<inter> held (rs ! i) = {}"
    using mset_set_split(1) [OF eq finite] by auto
  let ?r = "rc_extend ops left (rs ! i)" and ?rs = "rs[i := rc_extend ops left (rs ! i)]"
  note ext = extend_inv [OF ri _ disj] mset_extend [OF ri _ disj]
  have r: "rc_inv ?r" "held ?r = held (rs ! i) \<union> set left"
    "mset_set (held ?r) = mset_set (held (rs ! i)) + mset left" using dist ext by simp_all
  have lenr: "rc_len ops ?r = t"
    using r dist disj len it_ok(2) ri
    by (simp add: len_held [OF r(1)] len_held [OF ri] card_Un_disjoint Int_commute distinct_card)
  have other: "?rs ! j = rs ! j" if "(j, t) \<in> set its" for j t
  proof -
    have "j \<noteq> i" using that it_ok(3) by force
    then show ?thesis by simp
  qed
  have "\<exists>rs'. flush_shards ops its right ?rs = Inr rs' \<and> length rs' = length ?rs \<and>
           (\<forall>r \<in> set rs'. rc_inv r) \<and> held_mset held rs' = mset_set M \<and>
           (\<forall>(i, t) \<in> set its. rc_len ops (rs' ! i) = t) \<and>
           (\<forall>i. i \<notin> fst ` set its \<longrightarrow> rs' ! i = ?rs ! i)"
  proof (rule Cons.IH)
    show "\<forall>(j, t) \<in> set its. j < length ?rs \<and> rc_len ops (?rs ! j) \<le> t"
      using Cons.prems(1) other by auto
    show "distinct (map fst its)" using Cons.prems(2) by simp
    have "map (\<lambda>(j, t). t - rc_len ops (?rs ! j)) its = map (\<lambda>(j, t). t - rc_len ops (rs ! j)) its"
      using other by auto
    then have "(\<Sum>(j, t) \<leftarrow> its. t - rc_len ops (?rs ! j)) = (\<Sum>(j, t) \<leftarrow> its. t - rc_len ops (rs ! j))"
      by (rule arg_cong)
    then show "(\<Sum>(j, t) \<leftarrow> its. t - rc_len ops (?rs ! j)) = length right"
      using Cons.prems(3) it by (simp add: right_def)
    show "\<forall>r \<in> set ?rs. rc_inv r"
      using Cons.prems(4) r(1) set_update_subset_insert [of rs i ?r] by auto
    have "held_mset held ?rs = held_mset held rs + mset left"
      using held_mset_update [OF it_ok(1), of held ?r] by (simp add: r(3))
    then show "held_mset held ?rs + mset right = mset_set M"
      using Cons.prems(5) by (simp add: ids add.assoc)
  qed
  then obtain rs' where rs': "flush_shards ops its right ?rs = Inr rs'" "length rs' = length rs"
    "\<forall>r \<in> set rs'. rc_inv r" "held_mset held rs' = mset_set M"
    "\<forall>(i, t) \<in> set its. rc_len ops (rs' ! i) = t" "\<forall>i. i \<notin> fst ` set its \<longrightarrow> rs' ! i = ?rs ! i"
    by auto
  then have "rs' ! i = ?r" using it_ok by simp
  moreover have "rs' ! j = rs ! j" if "j \<notin> fst ` set (it # its)" for j
    using that rs'(6) it by simp
  moreover have "flush_shards ops (it # its) ids rs = Inr rs'"
    using rs'(1) it it_ok(2) enough by (simp add: Let_def left_def right_def not_less)
  ultimately show ?case using rs' lenr it by (intro exI [of _ rs']) auto
qed

text \<open>What a flush changes: the queue is empty, the freed identifiers are spread over the shards.\<close>

lemma flush_outcome:
  assumes inv: "inv_of live a" and idle: "\<not> shards_lent a" "snapshots_lent a = 0"
  shows "\<exists>a'. flush ops a = Inr a' \<and> inv_of live a' \<and> dealloc_queue a' = [] \<and> \<not> flush_mark a' \<and>
     global_gauge a' = global_gauge a \<and> \<not> shards_lent a' \<and> snapshots_lent a' = 0 \<and>
     recyclable a' = (recyclable a \<union> set (dealloc_queue a)) - \<Union> (set ` set (reuse_queue_shards a)) \<and>
     set (concat (reuse_queue_shards a')) = {} \<and>
     held_mset held (recycler_shards a') = held_mset held (recycler_shards a) + mset (dealloc_queue a) \<and>
     length (recycler_shards a') = length (recycler_shards a) \<and>
     (\<forall>i < length (recycler_shards a). \<forall>j < length (recycler_shards a).
        rc_len ops (recycler_shards a ! i) < rc_len ops (recycler_shards a' ! i) \<longrightarrow>
        rc_len ops (recycler_shards a' ! i) \<le> rc_len ops (recycler_shards a' ! j) + 1)"
proof -
  let ?rs = "recycler_shards a" and ?ids = "dealloc_queue a"
  let ?order = "flush_order ops ?rs"
  let ?sizes = "map (\<lambda>i. rc_len ops (?rs ! i)) ?order"
  have order: "set ?order = {0 ..< length ?rs}" "distinct ?order" "length ?order = length ?rs"
    by (simp_all add: flush_order_def)
  have "?rs \<noteq> []" using inv by (auto simp: ealloc_inv_def assigner_ok_def split: shard_assigner.splits)
  then have ne: "?sizes \<noteq> []" using order(3) by auto
  have "sorted ?sizes" by (simp add: flush_order_def)
  from distribute_sorted_outcome [OF this ne] obtain ts where
    ts: "distribute_sorted ?sizes (length ?ids) = Inr ts" and lvl: "level_filling ?sizes (length ?ids) ts"
    by blast
  have tlen: "length ts = length ?order" and le: "list_all2 (\<le>) ?sizes ts"
    and flat: "\<forall>i < length ?sizes. ?sizes ! i < ts ! i \<longrightarrow> (\<forall>j < length ?sizes. ts ! i \<le> ts ! j + 1)"
    using lvl unfolding level_filling_def length_map by (blast+)
  have at: "rc_len ops (?rs ! (?order ! k)) \<le> ts ! k" if "k < length ?order" for k
    using list_all2_nthD [OF le, of k] that by simp
  have sum: "(\<Sum>(i, t) \<leftarrow> zip ?order ts. t - rc_len ops (?rs ! i)) = length ?ids"
  proof -
    have "map (\<lambda>(i, t). t - rc_len ops (?rs ! i)) (zip ?order ts) =
        map (\<lambda>(s, t). t - s) (zip ?sizes ts)"
      by (rule nth_equalityI) (auto simp: tlen)
    with level_filling_total [OF lvl] show ?thesis by simp
  qed
  define M where "M = \<Union> (held ` set ?rs) \<union> set ?ids"
  have eq: "mset_set (handed_out (global_gauge a)) = mset_set live + (held_mset held ?rs + mset ?ids)"
    using inv by (simp add: ealloc_inv_def ac_simps)
  have rsM: "held_mset held ?rs + mset ?ids = mset_set M"
    by (rule mset_set_part [OF eq]) (simp_all add: M_def set_held_mset)
  obtain rs' where rs': "flush_shards ops (zip ?order ts) ?ids ?rs = Inr rs'" "length rs' = length ?rs"
    "\<forall>r \<in> set rs'. rc_inv r" "held_mset held rs' = mset_set M"
    "\<forall>(i, t) \<in> set (zip ?order ts). rc_len ops (rs' ! i) = t"
    using flush_shards_outcome [of "zip ?order ts" ?rs ?ids M] at order tlen sum rsM inv
    by (fastforce simp: in_set_zip ealloc_inv_def)
  have sz: "rc_len ops (rs' ! (?order ! k)) = ts ! k" if "k < length ?rs" for k
    using rs'(5) that order(3) tlen by (force simp: in_set_zip)
  have level: "rc_len ops (rs' ! i) \<le> rc_len ops (rs' ! j) + 1"
    if ij: "i < length ?rs" "j < length ?rs" "rc_len ops (?rs ! i) < rc_len ops (rs' ! i)" for i j
  proof -
    from ij order obtain k l where kl: "k < length ?rs" "i = ?order ! k" "l < length ?rs" "j = ?order ! l"
      by (metis atLeastLessThan_iff in_set_conv_nth zero_le)
    moreover from kl ij(3) have "?sizes ! k < ts ! k" by (simp add: sz order(3))
    ultimately have "ts ! k \<le> ts ! l + 1" using flat order(3) by (metis length_map)
    with kl show ?thesis by (simp add: sz)
  qed
  have inv': "inv_of live (a\<lparr>flush_mark := False, recyclable := R, recycler_shards := rs',
      dealloc_queue := [], reuse_queue_shards := map (\<lambda>_. []) (reuse_queue_shards a)\<rparr>)" for R
    using inv rs' eq rsM by (simp add: ealloc_inv_def)
  show ?thesis
    unfolding flush_def Let_def using idle ts rs'(1) inv' level rs'(2,4) rsM by (simp add: set_concat)
qed

end

subsection \<open>Reachable allocators\<close>

text \<open>
  The states an allocator goes through, with the identifiers that are live: whatever the random
  source and the hints, in any order of offline and online allocations, deallocations of live
  identifiers, flushes and lendings. Other threads may allocate while the shards are lent.
\<close>

inductive ealloc_reach ::
    "('w::len raw, 'r, 'h) recycler_ops \<Rightarrow> nat \<Rightarrow> shard_assigner \<Rightarrow> 'w raw set \<Rightarrow> ('w raw, 'r) recycling \<Rightarrow> bool"
  for ops n sa where
  new: "ealloc_reach ops n sa {} (new_with_shard_assigner ops n sa)"
| offline: "ealloc_reach ops n sa live a \<Longrightarrow> rng_ok rng \<Longrightarrow> allocate ops rng h a = (Inr x, a') \<Longrightarrow>
    ealloc_reach ops n sa (insert x live) a'"
| online: "ealloc_reach ops n sa live a \<Longrightarrow> shards_lent a \<Longrightarrow> i < length (recycler_shards a) \<Longrightarrow>
    online_shard_allocate ops h i a = (Inr x, a') \<Longrightarrow> ealloc_reach ops n sa (insert x live) a'"
| dealloc: "ealloc_reach ops n sa live a \<Longrightarrow> x \<in> live \<Longrightarrow>
    ealloc_reach ops n sa (live - {x}) (queue_deallocate x a)"
| flush: "ealloc_reach ops n sa live a \<Longrightarrow> flush ops a = Inr a' \<Longrightarrow> ealloc_reach ops n sa live a'"
| flush_if_marked: "ealloc_reach ops n sa live a \<Longrightarrow> flush_if_marked ops a = Inr a' \<Longrightarrow>
    ealloc_reach ops n sa live a'"
| mark: "ealloc_reach ops n sa live a \<Longrightarrow> ealloc_reach ops n sa live (mark_need_flush a)"
| lend: "ealloc_reach ops n sa live a \<Longrightarrow> shards perm a = Inr (is, a') \<Longrightarrow> ealloc_reach ops n sa live a'"
| return: "ealloc_reach ops n sa live a \<Longrightarrow> ealloc_reach ops n sa live (drop_shards a)"
| snapshot: "ealloc_reach ops n sa live a \<Longrightarrow> take_snapshot a = Inr (sn, a') \<Longrightarrow> ealloc_reach ops n sa live a'"
| drop_snapshot: "ealloc_reach ops n sa live a \<Longrightarrow> ealloc_reach ops n sa live (drop_snapshot a)"

lemma flush_idle:
  assumes "flush ops a = Inr a'" and "recycler_shards a \<noteq> []"
  shows "\<not> shards_lent a" and "snapshots_lent a = 0"
  using assms by (auto simp: flush_def Let_def split: if_splits)

lemma allocate_not_lent:
  assumes "allocate ops rng h a = (Inr x, a')" shows "\<not> shards_lent a"
  using assms
  by (auto simp: allocate_def get_offline_def split: sum.splits if_splits simp: bind_res_eq_Inl)

lemma lending_fields:
  "recycler_shards (drop_shards a) = recycler_shards a" "global_gauge (drop_shards a) = global_gauge a"
  "recycler_shards (drop_snapshot a) = recycler_shards a" "global_gauge (drop_snapshot a) = global_gauge a"
  "recycler_shards (mark_need_flush a) = recycler_shards a" "global_gauge (mark_need_flush a) = global_gauge a"
  by (simp_all add: drop_shards_def drop_snapshot_def mark_need_flush_def)

lemma ealloc_inv_lending [simp]:
  "ealloc_inv P held live (drop_shards a) = ealloc_inv P held live a"
  "ealloc_inv P held live (drop_snapshot a) = ealloc_inv P held live a"
  "ealloc_inv P held live (mark_need_flush a) = ealloc_inv P held live a"
  "shards perm a = Inr (is, a') \<Longrightarrow> ealloc_inv P held live a' = ealloc_inv P held live a"
  "take_snapshot a = Inr (sn, a') \<Longrightarrow> ealloc_inv P held live a' = ealloc_inv P held live a"
  by (auto simp: ealloc_inv_def drop_shards_def drop_snapshot_def mark_need_flush_def shards_def
      take_snapshot_def split: if_splits)

context recycler
begin

lemma inv_has_shards: "inv_of live a \<Longrightarrow> recycler_shards a \<noteq> []"
  by (auto simp: ealloc_inv_def assigner_ok_def split: shard_assigner.splits)

lemma flush_keeps_inv:
  assumes "inv_of live a" and "flush ops a = Inr a'"
  shows "inv_of live a'"
  using flush_outcome [OF assms(1) flush_idle [OF assms(2) inv_has_shards [OF assms(1)]]] assms(2) by auto

lemma allocate_keeps_inv:
  assumes "inv_of live a" and "rng_ok rng" and "allocate ops rng h a = (Inr x, a')"
  shows "x \<notin> live \<and> x \<noteq> 0 \<and> inv_of (insert x live) a'"
proof -
  from allocate_shard [OF assms(1,2) allocate_not_lent [OF assms(3)]] obtain i where
    i: "i < length (recycler_shards a)" and eq: "allocate ops rng h a = offline_shard_allocate ops h i a"
    by metis
  from shard_allocate_outcome [OF assms(1) i, of offline_shard_allocate h] assms(3) eq
  show ?thesis by auto
qed

lemma online_keeps_inv:
  assumes "inv_of live a" and "i < length (recycler_shards a)"
    and "online_shard_allocate ops h i a = (Inr x, a')"
  shows "x \<notin> live \<and> x \<noteq> 0 \<and> inv_of (insert x live) a'"
  using shard_allocate_outcome [OF assms(1,2), of online_shard_allocate h] assms(3) by auto

lemma reach_inv: "ealloc_reach ops n sa live a \<Longrightarrow> assigner_ok sa n \<Longrightarrow> inv_of live a"
proof (induction rule: ealloc_reach.induct)
  case new
  then show ?case by (rule new_inv)
next
  case (flush_if_marked live a a')
  then show ?case by (auto simp: flush_if_marked_def flush_keeps_inv split: if_splits)
qed (auto simp: queue_deallocate_inv dest: allocate_keeps_inv online_keeps_inv flush_keeps_inv)

text \<open>Allocation from a reachable state: fresh, or the identifiers have run out.\<close>

lemma allocate_total:
  assumes "inv_of live a" and "rng_ok rng" and "\<not> shards_lent a"
  shows "(\<exists>x a'. allocate ops rng h a = (Inr x, a') \<and> x \<notin> live \<and> x \<noteq> 0) \<or>
         (\<exists>a'. allocate ops rng h a = (Inl IntegerOverflow, a') \<and> global_gauge a = 0)"
proof -
  from allocate_shard [OF assms] obtain i where
    i: "i < length (recycler_shards a)" and eq: "allocate ops rng h a = offline_shard_allocate ops h i a"
    by metis
  from shard_allocate_outcome [OF assms(1) i, of offline_shard_allocate h] show ?thesis
    unfolding eq by auto
qed

end

subsection \<open>When snapshots are exact\<close>

text \<open>
  The set \<open>recyclable\<close> that snapshots show is meant to be what the recyclers hold. Between flushes it
  also contains what was reused offline.
\<close>

definition reused :: "('e, 'r) recycling \<Rightarrow> 'e set" where
  "reused a = \<Union> (set ` set (reuse_queue_shards a))"

definition exact_inv :: "('r \<Rightarrow> 'e set) \<Rightarrow> ('e, 'r) recycling \<Rightarrow> bool" where
  "exact_inv held a \<longleftrightarrow>
     recyclable a = \<Union> (held ` set (recycler_shards a)) \<union> reused a \<and>
     reused a \<inter> \<Union> (held ` set (recycler_shards a)) = {} \<and>
     reused a \<inter> set (dealloc_queue a) = {}"

text \<open>
  Two kinds of step break it, and the states reached without them are the quiet ones: an online
  allocation that takes a recycled identifier, and the deallocation of an identifier that was reused
  since the last flush.
\<close>

inductive quiet_reach ::
    "('w::len raw, 'r, 'h) recycler_ops \<Rightarrow> nat \<Rightarrow> shard_assigner \<Rightarrow> 'w raw set \<Rightarrow> ('w raw, 'r) recycling \<Rightarrow> bool"
  for ops n sa where
  new: "quiet_reach ops n sa {} (new_with_shard_assigner ops n sa)"
| offline: "quiet_reach ops n sa live a \<Longrightarrow> rng_ok rng \<Longrightarrow> allocate ops rng h a = (Inr x, a') \<Longrightarrow>
    quiet_reach ops n sa (insert x live) a'"
| online: "quiet_reach ops n sa live a \<Longrightarrow> shards_lent a \<Longrightarrow> i < length (recycler_shards a) \<Longrightarrow>
    rc_is_empty ops (recycler_shards a ! i) \<Longrightarrow>
    online_shard_allocate ops h i a = (Inr x, a') \<Longrightarrow> quiet_reach ops n sa (insert x live) a'"
| dealloc: "quiet_reach ops n sa live a \<Longrightarrow> x \<in> live \<Longrightarrow> x \<notin> reused a \<Longrightarrow>
    quiet_reach ops n sa (live - {x}) (queue_deallocate x a)"
| flush: "quiet_reach ops n sa live a \<Longrightarrow> flush ops a = Inr a' \<Longrightarrow> quiet_reach ops n sa live a'"
| lend: "quiet_reach ops n sa live a \<Longrightarrow> shards perm a = Inr (is, a') \<Longrightarrow> quiet_reach ops n sa live a'"
| return: "quiet_reach ops n sa live a \<Longrightarrow> quiet_reach ops n sa live (drop_shards a)"

lemma quiet_reach_reach: "quiet_reach ops n sa live a \<Longrightarrow> ealloc_reach ops n sa live a"
  by (induction rule: quiet_reach.induct) (auto intro: ealloc_reach.intros)

lemma exact_inv_lending [simp]:
  "exact_inv held (drop_shards a) = exact_inv held a"
  "shards perm a = Inr (is, a') \<Longrightarrow> exact_inv held a' = exact_inv held a"
  by (simp add: exact_inv_def reused_def drop_shards_def)
    (clarsimp simp: exact_inv_def reused_def shards_def split: if_splits)

lemma set_update_Union:
  assumes "i < length xs"
  shows "\<Union> (f ` set (xs[i := x])) = \<Union> (f ` set (take i xs @ drop (Suc i) xs)) \<union> f x"
    and "\<Union> (f ` set xs) = \<Union> (f ` set (take i xs @ drop (Suc i) xs)) \<union> f (xs ! i)"
proof -
  show "\<Union> (f ` set (xs[i := x])) = \<Union> (f ` set (take i xs @ drop (Suc i) xs)) \<union> f x"
    using assms by (auto simp: upd_conv_take_nth_drop)
  show "\<Union> (f ` set xs) = \<Union> (f ` set (take i xs @ drop (Suc i) xs)) \<union> f (xs ! i)"
    by (subst id_take_nth_drop [OF assms]) auto
qed

context recycler
begin

text \<open>The sets behind the ownership equation.\<close>

lemma inv_sets:
  assumes "inv_of live a"
  shows "handed_out (global_gauge a) =
           live \<union> \<Union> (held ` set (recycler_shards a)) \<union> set (dealloc_queue a)"
    and "live \<inter> \<Union> (held ` set (recycler_shards a)) = {}" and "live \<inter> set (dealloc_queue a) = {}"
proof -
  let ?H = "held_mset held (recycler_shards a)" and ?D = "mset (dealloc_queue a)"
  have eq: "mset_set (handed_out (global_gauge a)) = mset_set live + (?H + ?D)"
    using assms by (simp add: ealloc_inv_def ac_simps)
  note split = mset_set_split [OF eq finite]
  have H: "set_mset ?H = \<Union> (held ` set (recycler_shards a))" by (rule set_held_mset) simp
  show "handed_out (global_gauge a) = live \<union> \<Union> (held ` set (recycler_shards a)) \<union> set (dealloc_queue a)"
    using split(2) by (simp add: H Un_assoc)
  show "live \<inter> \<Union> (held ` set (recycler_shards a)) = {}" "live \<inter> set (dealloc_queue a) = {}"
    using split(1) H by auto
qed

lemma exact_offline:
  assumes inv: "inv_of live a" and ex: "exact_inv held a" and i: "i < length (recycler_shards a)"
    and alloc: "offline_shard_allocate ops h i a = (Inr x, a')"
  shows "exact_inv held a'"
proof -
  have ri: "rc_inv (recycler_shards a ! i)" using inv i by (simp add: ealloc_inv_def)
  then show ?thesis
  proof (rule poll_outcome [where h = h])
    assume "rc_poll ops h (recycler_shards a ! i) = Inr (None, recycler_shards a ! i)"
    with alloc ex show ?thesis
      by (simp add: offline_shard_allocate_def exact_inv_def reused_def raw_fetch_add_def split: option.splits)
        (clarsimp simp: exact_inv_def reused_def)
  next
    fix y r assume poll: "rc_poll ops h (recycler_shards a ! i) = Inr (Some y, r)"
    note p = shard_poll_some [OF inv i poll]
    have a': "a' = a\<lparr>recycler_shards := (recycler_shards a)[i := r],
        reuse_queue_shards := (reuse_queue_shards a)[i := reuse_queue_shards a ! i @ [y]]\<rparr>"
      using alloc poll by (auto simp: offline_shard_allocate_def)
    have "i < length (reuse_queue_shards a)" using inv i by (simp add: ealloc_inv_def)
    then have "reused a' = insert y (reused a)"
      unfolding a' reused_def by (simp add: set_update_Union)
    with ex p(5,6,7) show ?thesis by (auto simp: exact_inv_def a')
  qed
qed

lemma exact_online_fresh:
  assumes inv: "inv_of live a" and ex: "exact_inv held a" and i: "i < length (recycler_shards a)"
    and empty: "rc_is_empty ops (recycler_shards a ! i)"
    and alloc: "online_shard_allocate ops h i a = (Inr x, a')"
  shows "exact_inv held a'"
proof -
  have ri: "rc_inv (recycler_shards a ! i)" using inv i by (simp add: ealloc_inv_def)
  with empty have "rc_poll ops h (recycler_shards a ! i) = Inr (None, recycler_shards a ! i)"
    by (simp add: is_empty_iff poll_none)
  with alloc ex show ?thesis
    by (simp add: online_shard_allocate_def raw_fetch_add_def split: option.splits)
      (clarsimp simp: exact_inv_def reused_def)
qed

lemma exact_flush:
  assumes inv: "inv_of live a" and ex: "exact_inv held a" and fl: "flush ops a = Inr a'"
  shows "exact_inv held a'" and "reused a' = {}" and "dealloc_queue a' = []"
    and "inv_of live a'" and "\<not> shards_lent a'"
proof -
  have sets: "set_mset (held_mset held rs) = \<Union> (held ` set rs)" for rs
    by (rule set_held_mset) simp
  note out = flush_outcome [OF inv flush_idle [OF fl inv_has_shards [OF inv]]]
  from out fl have a': "inv_of live a'" "dealloc_queue a' = []" "\<not> shards_lent a'"
    "recyclable a' = (recyclable a \<union> set (dealloc_queue a)) - reused a"
    "set (concat (reuse_queue_shards a')) = {}"
    "held_mset held (recycler_shards a') = held_mset held (recycler_shards a) + mset (dealloc_queue a)"
    by (auto simp: reused_def)
  show r: "reused a' = {}" using a'(5) by (auto simp: reused_def)
  have "\<Union> (held ` set (recycler_shards a')) = \<Union> (held ` set (recycler_shards a)) \<union> set (dealloc_queue a)"
    using arg_cong [OF a'(6), of set_mset] by (simp add: sets)
  with ex a'(2,4) r show "exact_inv held a'" by (auto simp: exact_inv_def)
  show "dealloc_queue a' = []" "inv_of live a'" "\<not> shards_lent a'" by (fact a')+
qed

lemma quiet_exact: "quiet_reach ops n sa live a \<Longrightarrow> assigner_ok sa n \<Longrightarrow> exact_inv held a"
proof (induction rule: quiet_reach.induct)
  case new
  then show ?case
    by (auto simp: exact_inv_def reused_def new_with_shard_assigner_def held_default)
next
  case (offline live a rng h x a')
  have inv: "inv_of live a" using offline reach_inv quiet_reach_reach by blast
  from allocate_shard [OF inv offline(2) allocate_not_lent [OF offline(3)]] obtain i where
    i: "i < length (recycler_shards a)" and eq: "allocate ops rng h a = offline_shard_allocate ops h i a"
    by metis
  from exact_offline [OF inv _ i] offline eq show ?case by simp
next
  case (online live a i h x a')
  have inv: "inv_of live a" using online reach_inv quiet_reach_reach by blast
  from exact_online_fresh [OF inv] online show ?case by blast
next
  case (dealloc live a x)
  have inv: "inv_of live a" using dealloc reach_inv quiet_reach_reach by blast
  with inv_sets [OF inv] dealloc show ?case
    by (auto simp: exact_inv_def reused_def queue_deallocate_def)
next
  case (flush live a a')
  have inv: "inv_of live a" using flush reach_inv quiet_reach_reach by blast
  from exact_flush(1) [OF inv] flush show ?case by blast
qed simp_all

text \<open>A snapshot right after a flush of a quiet state shows exactly the live entities.\<close>

lemma quiet_snapshot:
  assumes quiet: "quiet_reach ops n sa live a" "assigner_ok sa n"
    and fl: "flush ops a = Inr a'" and g: "global_gauge a \<noteq> 0"
  shows "\<exists>sn a'' cs. take_snapshot a' = Inr (sn, a'') \<and> iter_allocated_chunks sn = Inr cs \<and>
           separated cs \<and> set (chunk_ids cs) = live"
proof -
  have inv: "inv_of live a" by (rule reach_inv [OF quiet_reach_reach [OF quiet(1)] quiet(2)])
  note ex = exact_flush [OF inv quiet_exact [OF quiet] fl]
  have g': "global_gauge a' \<noteq> 0"
    using flush_outcome [OF inv flush_idle [OF fl inv_has_shards [OF inv]]] fl g by auto
  let ?H = "\<Union> (held ` set (recycler_shards a'))"
  have rec: "recyclable a' = ?H" using ex(1,2) by (simp add: exact_inv_def)
  note sets = inv_sets [OF ex(4)]
  let ?sn = "\<lparr>gauge = global_gauge a', sn_recyclable = recyclable a'\<rparr>"
  have wf: "snapshot_wf ?sn" using sets(1) g' rec by (auto simp: snapshot_wf_def handed_out_def)
  from iter_allocated_chunks_outcome [OF wf] obtain cs where cs:
    "iter_allocated_chunks ?sn = Inr cs" "separated cs"
    "chunk_ids cs = filter (\<lambda>x. x \<notin> recyclable a') (raw_range 1 (global_gauge a'))" by auto
  have "set (chunk_ids cs) = handed_out (global_gauge a') - ?H"
    using g' by (auto simp: cs(3) set_raw_range rec handed_out_def)
  also have "\<dots> = live" using sets ex(3) by auto
  finally show ?thesis using cs g' by (simp add: take_snapshot_def raw_load_def nonzero_new_def)
qed

end

end
