(* ===== verification/Ealloc.thy ===== *)
theory Ealloc
  imports Recycling "HOL-Library.AList"
begin

section \<open>The allocators of all archetypes\<close>

text \<open>
  The maps of \<open>src/entity/ealloc.rs\<close>: \<open>Map\<close>, one allocator per archetype, and \<open>ShardMap\<close>, the
  shards lent to one worker thread for a cycle. A \<open>HashMap\<close> is an association list with distinct
  keys whose order is the order it iterates in, which nothing relies on. All archetypes share one
  type of allocator here; the downcasts of the source always succeed, since the keys are the types.
\<close>

type_synonym ('t, 'w, 'r) ealloc_map = "('t \<times> ('w raw, 'r) recycling) list"

text \<open>\<open>Map::get\<close> and the update through the reference it returns.\<close>

definition ealloc_get :: "'t \<Rightarrow> ('t, 'w::len, 'r) ealloc_map \<Rightarrow> ('w raw, 'r) recycling res" where
  "ealloc_get ty m = expect UnknownArchetype (map_of m ty)"

definition ealloc_put :: "'t \<Rightarrow> ('w::len raw, 'r) recycling \<Rightarrow> ('t, 'w, 'r) ealloc_map \<Rightarrow> ('t, 'w, 'r) ealloc_map" where
  "ealloc_put ty a m = map (\<lambda>(ty', b). if ty' = ty then (ty', a) else (ty', b)) m"

record 'w shard_entry =
  se_snapshot :: "'w snapshot"
  se_shard :: nat
  se_borrowed :: bool

type_synonym ('t, 'w) shard_map = "('t \<times> 'w raw shard_entry) list"

text \<open>\<open>Map::shards\<close>: the inner loop hands the shards of one archetype to the workers in turn.\<close>

fun assign_shards :: "'t \<Rightarrow> nat \<Rightarrow> nat list \<Rightarrow> ('t, 'w::len) shard_map list \<times> ('w raw, 'r) recycling
    \<Rightarrow> (('t, 'w) shard_map list \<times> ('w raw, 'r) recycling) res" where
  "assign_shards ty shard_id [] s = Inr s"
| "assign_shards ty shard_id (sh # shs) (maps, a) =
     bind_res (expect IndexOutOfBounds (list_get maps shard_id)) (\<lambda>mp.
     bind_res (take_snapshot a) (\<lambda>(sn, a').
     assign_shards ty (Suc shard_id) shs
       (maps[shard_id := AList.update ty \<lparr>se_snapshot = sn, se_shard = sh, se_borrowed = False\<rparr> mp], a')))"

fun ealloc_map_shards_loop :: "('t \<Rightarrow> nat list \<Rightarrow> nat list) \<Rightarrow> ('t, 'w::len, 'r) ealloc_map
    \<Rightarrow> ('t, 'w) shard_map list \<Rightarrow> (('t, 'w) shard_map list \<times> ('t, 'w, 'r) ealloc_map) res" where
  "ealloc_map_shards_loop perm [] maps = Inr (maps, [])"
| "ealloc_map_shards_loop perm ((ty, a) # m) maps =
     bind_res (shards (perm ty) a) (\<lambda>(shs, a1).
     bind_res (assign_shards ty 0 shs (maps, a1)) (\<lambda>(maps1, a2).
     bind_res (ealloc_map_shards_loop perm m maps1) (\<lambda>(maps2, m2).
     Inr (maps2, (ty, a2) # m2))))"

definition ealloc_map_shards :: "('t \<Rightarrow> nat list \<Rightarrow> nat list) \<Rightarrow> nat \<Rightarrow> ('t, 'w::len, 'r) ealloc_map
    \<Rightarrow> (('t, 'w) shard_map list \<times> ('t, 'w, 'r) ealloc_map) res" where
  "ealloc_map_shards perm num_shards m = ealloc_map_shards_loop perm m (replicate num_shards [])"

text \<open>Dropping the shard maps at the end of a cycle drops their shards and snapshots.\<close>

definition release :: "('t, 'w::len) shard_map list \<Rightarrow> 't \<times> ('w raw, 'r) recycling \<Rightarrow> 't \<times> ('w raw, 'r) recycling" where
  "release maps = (\<lambda>(ty, a).
     (ty, (drop_snapshot ^^ length (filter (\<lambda>mp. map_of mp ty \<noteq> None) maps)) (drop_shards a)))"

definition drop_shard_maps :: "('t, 'w::len) shard_map list \<Rightarrow> ('t, 'w, 'r) ealloc_map \<Rightarrow> ('t, 'w, 'r) ealloc_map" where
  "drop_shard_maps maps m = map (release maps) m"

definition ealloc_map_mark_need_flush :: "'t \<Rightarrow> ('t, 'w::len, 'r) ealloc_map \<Rightarrow> ('t, 'w, 'r) ealloc_map res" where
  "ealloc_map_mark_need_flush ty m =
     (case map_of m ty of
        None \<Rightarrow> Inl UnknownArchetype
      | Some a \<Rightarrow> Inr (ealloc_put ty (mark_need_flush a) m))"

text \<open>A loop over the values of the map.\<close>

fun map_values_res :: "('a \<Rightarrow> 'a res) \<Rightarrow> ('t \<times> 'a) list \<Rightarrow> ('t \<times> 'a) list res" where
  "map_values_res f [] = Inr []"
| "map_values_res f ((ty, a) # m) =
     bind_res (f a) (\<lambda>a'. bind_res (map_values_res f m) (\<lambda>m'. Inr ((ty, a') # m')))"

definition ealloc_map_flush_if_marked :: "('w::len raw, 'r, 'h) recycler_ops \<Rightarrow> ('t, 'w, 'r) ealloc_map
    \<Rightarrow> ('t, 'w, 'r) ealloc_map res" where
  "ealloc_map_flush_if_marked ops m = map_values_res (flush_if_marked ops) m"

text \<open>The flush of every allocator at the end of \<open>execute_full_cycle\<close>.\<close>

definition ealloc_map_flush :: "('w::len raw, 'r, 'h) recycler_ops \<Rightarrow> ('t, 'w, 'r) ealloc_map
    \<Rightarrow> ('t, 'w, 'r) ealloc_map res" where
  "ealloc_map_flush ops m = map_values_res (flush ops) m"

definition ealloc_map_snapshot :: "'t \<Rightarrow> ('t, 'w::len, 'r) ealloc_map
    \<Rightarrow> ('w raw snapshot \<times> ('t, 'w, 'r) ealloc_map) res" where
  "ealloc_map_snapshot ty m =
     bind_res (ealloc_get ty m) (\<lambda>a.
     bind_res (take_snapshot a) (\<lambda>(sn, a'). Inr (sn, ealloc_put ty a' m)))"

text \<open>\<open>ShardMap::get\<close>, \<open>snapshot\<close> and \<open>borrow\<close>.\<close>

definition shard_map_get :: "'t \<Rightarrow> ('t, 'w::len) shard_map \<Rightarrow> nat res" where
  "shard_map_get ty sm = bind_res (expect UnknownArchetype (map_of sm ty)) (\<lambda>e. Inr (se_shard e))"

definition shard_map_snapshot :: "'t \<Rightarrow> ('t, 'w::len) shard_map \<Rightarrow> 'w raw snapshot res" where
  "shard_map_snapshot ty sm = bind_res (expect UnknownArchetype (map_of sm ty)) (\<lambda>e. Inr (se_snapshot e))"

definition shard_map_borrow :: "'t \<Rightarrow> ('t, 'w::len) shard_map \<Rightarrow> (nat \<times> ('t, 'w) shard_map) res" where
  "shard_map_borrow ty sm =
     bind_res (expect UnknownArchetype (map_of sm ty)) (\<lambda>e.
     if se_borrowed e then Inl StorageLocked
     else Inr (se_shard e, AList.update ty (e\<lparr>se_borrowed := True\<rparr>) sm))"

subsection \<open>Lending is exclusive\<close>

lemma map_of_ealloc_put:
  "map_of (ealloc_put ty a m) ty' = (if ty' = ty \<and> map_of m ty \<noteq> None then Some a else map_of m ty')"
  by (induction m) (auto simp: ealloc_put_def)

lemma map_fst_ealloc_put [simp]: "map fst (ealloc_put ty a m) = map fst m"
  by (induction m) (auto simp: ealloc_put_def)

lemma map_values_res_Inr:
  "map_values_res f m = Inr m' \<longleftrightarrow> map fst m' = map fst m \<and> list_all2 (\<lambda>p q. f (snd p) = Inr (snd q)) m m'"
proof (induction m arbitrary: m')
  case Nil
  then show ?case by auto
next
  case (Cons p m)
  then show ?case by (cases p; cases m') auto
qed

lemma map_values_res_total:
  "(\<And>ty a. (ty, a) \<in> set m \<Longrightarrow> \<exists>a'. f a = Inr a') \<Longrightarrow> \<exists>m'. map_values_res f m = Inr m'"
proof (induction m)
  case (Cons p m)
  obtain ty a where p: "p = (ty, a)" by (cases p)
  have "\<exists>a'. f a = Inr a'" using Cons.prems [of ty a] p by simp
  moreover have "\<exists>m'. map_values_res f m = Inr m'" by (rule Cons.IH) (use Cons.prems in auto)
  ultimately show ?case by (auto simp: p)
qed simp

lemma assign_shards_outcome:
  assumes "shard_id + length shs \<le> length maps" and "global_gauge a \<noteq> 0"
  shows "\<exists>maps'. assign_shards ty shard_id shs (maps, a) =
      Inr (maps', a\<lparr>snapshots_lent := snapshots_lent a + length shs\<rparr>) \<and>
    length maps' = length maps \<and>
    (\<forall>j < length maps. maps' ! j =
       (if shard_id \<le> j \<and> j < shard_id + length shs
        then AList.update ty \<lparr>se_snapshot = \<lparr>gauge = global_gauge a, sn_recyclable = recyclable a\<rparr>,
               se_shard = shs ! (j - shard_id), se_borrowed = False\<rparr> (maps ! j)
        else maps ! j))"
  using assms
proof (induction shs arbitrary: shard_id maps a)
  case Nil
  then show ?case by (simp, linarith)
next
  case (Cons sh shs)
  let ?e = "\<lparr>se_snapshot = \<lparr>gauge = global_gauge a, sn_recyclable = recyclable a\<rparr>,
      se_shard = sh, se_borrowed = False\<rparr>"
  let ?maps = "maps[shard_id := AList.update ty ?e (maps ! shard_id)]"
  let ?a = "a\<lparr>snapshots_lent := Suc (snapshots_lent a)\<rparr>"
  have snap: "take_snapshot a = Inr (\<lparr>gauge = global_gauge a, sn_recyclable = recyclable a\<rparr>, ?a)"
    using Cons.prems(2) by (simp add: take_snapshot_def raw_load_def nonzero_new_def)
  obtain maps' where IH: "assign_shards ty (Suc shard_id) shs (?maps, ?a) =
      Inr (maps', ?a\<lparr>snapshots_lent := snapshots_lent ?a + length shs\<rparr>)" "length maps' = length maps"
    "\<forall>j < length maps. maps' ! j =
       (if Suc shard_id \<le> j \<and> j < Suc shard_id + length shs
        then AList.update ty \<lparr>se_snapshot = \<lparr>gauge = global_gauge a, sn_recyclable = recyclable a\<rparr>,
               se_shard = shs ! (j - Suc shard_id), se_borrowed = False\<rparr> (?maps ! j)
        else ?maps ! j)"
    using Cons.IH [of "Suc shard_id" ?maps ?a] Cons.prems by auto
  have step: "assign_shards ty shard_id (sh # shs) (maps, a) = assign_shards ty (Suc shard_id) shs (?maps, ?a)"
    using snap Cons.prems(1) by (simp add: list_get_def)
  have "maps' ! j = (if shard_id \<le> j \<and> j < shard_id + length (sh # shs)
        then AList.update ty \<lparr>se_snapshot = \<lparr>gauge = global_gauge a, sn_recyclable = recyclable a\<rparr>,
               se_shard = (sh # shs) ! (j - shard_id), se_borrowed = False\<rparr> (maps ! j)
        else maps ! j)" if j: "j < length maps" for j
  proof -
    consider "j < shard_id" | "j = shard_id" | "shard_id < j" by linarith
    then show ?thesis
    proof cases
      case 3
      then have "(sh # shs) ! (j - shard_id) = shs ! (j - Suc shard_id)" by (simp add: nth_Cons' diff_Suc)
      with 3 IH(3) j show ?thesis by auto
    qed (use IH(3) j in auto)
  qed
  with IH(1,2) step show ?case by (intro exI [of _ maps']) simp
qed

text \<open>
  An allocator map ready for a cycle with \<open>num_shards\<close> workers: every allocator has that many shards,
  none is lent, and no gauge has wrapped around.
\<close>

definition lendable :: "nat \<Rightarrow> ('w::len raw, 'r) recycling \<Rightarrow> bool" where
  "lendable n a \<longleftrightarrow> \<not> shards_lent a \<and> global_gauge a \<noteq> 0 \<and>
     length (recycler_shards a) = n \<and> length (reuse_queue_shards a) = n"

lemma shards_outcome:
  assumes "lendable n a" and "hash_order_ok perm"
  shows "\<exists>shs. shards perm a = Inr (shs, a\<lparr>shards_lent := True\<rparr>) \<and> mset shs = mset [0 ..< n]"
proof -
  have "mset (shuffle_shards perm sa xs) = mset xs" for sa xs
    using assms(2) by (cases sa) (auto simp: hash_order_ok_def)
  with assms(1) show ?thesis by (simp add: shards_def lendable_def)
qed

definition lent_to :: "'t \<Rightarrow> ('t, 'w::len) shard_map list \<Rightarrow> nat list" where
  "lent_to ty maps = map (\<lambda>mp. se_shard (the (map_of mp ty))) maps"

lemma ealloc_map_shards_loop_outcome:
  assumes "\<forall>(ty, a) \<in> set m. lendable (length maps) a" and "distinct (map fst m)"
    and "\<And>ty. hash_order_ok (perm ty)"
  shows "\<exists>maps' m'. ealloc_map_shards_loop perm m maps = Inr (maps', m') \<and> length maps' = length maps \<and>
     map fst m' = map fst m \<and>
     (\<forall>ty a. map_of m ty = Some a \<longrightarrow>
        map_of m' ty = Some (a\<lparr>shards_lent := True, snapshots_lent := snapshots_lent a + length maps\<rparr>) \<and>
        mset (lent_to ty maps') = mset [0 ..< length maps] \<and>
        (\<forall>mp \<in> set maps'. \<exists>e. map_of mp ty = Some e \<and> \<not> se_borrowed e \<and>
           se_snapshot e = \<lparr>gauge = global_gauge a, sn_recyclable = recyclable a\<rparr>)) \<and>
     (\<forall>j < length maps. \<forall>ty. map_of m ty = None \<longrightarrow> map_of (maps' ! j) ty = map_of (maps ! j) ty)"
  using assms(1,2)
proof (induction m arbitrary: maps)
  case Nil
  then show ?case by simp
next
  case (Cons p m)
  obtain ty a where p: "p = (ty, a)" by (cases p)
  have a: "lendable (length maps) a" using Cons.prems(1) p by simp
  from shards_outcome [OF a assms(3)] obtain shs where
    shs: "shards (perm ty) a = Inr (shs, a\<lparr>shards_lent := True\<rparr>)" "mset shs = mset [0 ..< length maps]"
    by blast
  have len: "length shs = length maps" using mset_eq_length [OF shs(2)] by simp
  let ?a = "a\<lparr>shards_lent := True\<rparr>"
  let ?sn = "\<lparr>gauge = global_gauge a, sn_recyclable = recyclable a\<rparr>"
  obtain maps1 where maps1: "assign_shards ty 0 shs (maps, ?a) =
      Inr (maps1, ?a\<lparr>snapshots_lent := snapshots_lent a + length maps\<rparr>)" "length maps1 = length maps"
    "\<forall>j < length maps. maps1 ! j = AList.update ty \<lparr>se_snapshot = ?sn, se_shard = shs ! j, se_borrowed = False\<rparr> (maps ! j)"
    using assign_shards_outcome [of 0 shs maps ?a ty] a len by (auto simp: lendable_def)
  obtain maps' m' where IH: "ealloc_map_shards_loop perm m maps1 = Inr (maps', m')" "length maps' = length maps"
    "map fst m' = map fst m"
    "\<forall>ty a. map_of m ty = Some a \<longrightarrow>
        map_of m' ty = Some (a\<lparr>shards_lent := True, snapshots_lent := snapshots_lent a + length maps\<rparr>) \<and>
        mset (lent_to ty maps') = mset [0 ..< length maps] \<and>
        (\<forall>mp \<in> set maps'. \<exists>e. map_of mp ty = Some e \<and> \<not> se_borrowed e \<and>
           se_snapshot e = \<lparr>gauge = global_gauge a, sn_recyclable = recyclable a\<rparr>)"
    "\<forall>j < length maps. \<forall>ty. map_of m ty = None \<longrightarrow> map_of (maps' ! j) ty = map_of (maps1 ! j) ty"
    using Cons.IH [of maps1] Cons.prems maps1(2) by auto
  have fresh: "map_of m ty = None" using Cons.prems(2) p by (simp add: map_of_eq_None_iff)
  have entry: "map_of (maps' ! j) ty = Some \<lparr>se_snapshot = ?sn, se_shard = shs ! j, se_borrowed = False\<rparr>"
    if "j < length maps" for j
    using that IH(5) fresh maps1(3) by (simp add: update_conv)
  have "lent_to ty maps' = shs"
    by (rule nth_equalityI) (auto simp: lent_to_def IH(2) len entry)
  moreover have "\<forall>mp \<in> set maps'. \<exists>e. map_of mp ty = Some e \<and> \<not> se_borrowed e \<and> se_snapshot e = ?sn"
    by (auto simp: in_set_conv_nth IH(2) entry)
  moreover have "map_of (maps' ! j) ty' = map_of (maps ! j) ty'"
    if "j < length maps" "map_of (p # m) ty' = None" for j ty'
    using that IH(5) maps1(3) p by (auto simp: update_conv split: if_splits)
  moreover have "ealloc_map_shards_loop perm (p # m) maps =
      Inr (maps', (ty, ?a\<lparr>snapshots_lent := snapshots_lent a + length maps\<rparr>) # m')"
    using shs(1) maps1(1) IH(1) by (simp add: p)
  ultimately show ?case
    using IH(2,3,4) shs(2) fresh p
    by (intro exI [of _ maps'] exI [of _ "(ty, ?a\<lparr>snapshots_lent := snapshots_lent a + length maps\<rparr>) # m'"]) auto
qed

subsection \<open>A cycle's loan is returned\<close>

lemma drop_snapshot_pow:
  "(drop_snapshot ^^ n) a = a\<lparr>snapshots_lent := snapshots_lent a - n\<rparr>"
  by (induction n) (simp_all add: drop_snapshot_def)

lemma release_lent:
  assumes "\<forall>mp \<in> set maps. map_of mp ty \<noteq> None" and "\<not> shards_lent a"
  shows "release maps (ty, a\<lparr>shards_lent := True, snapshots_lent := snapshots_lent a + length maps\<rparr>) = (ty, a)"
proof -
  have "filter (\<lambda>mp. map_of mp ty \<noteq> None) maps = maps" using assms(1) by (simp add: filter_id_conv)
  then show ?thesis using assms(2) by (simp add: release_def drop_snapshot_pow drop_shards_def)
qed

definition map_lendable :: "nat \<Rightarrow> ('t, 'w::len, 'r) ealloc_map \<Rightarrow> bool" where
  "map_lendable n m \<longleftrightarrow> distinct (map fst m) \<and> (\<forall>(ty, a) \<in> set m. lendable n a)"

lemma ealloc_map_shards_outcome:
  assumes "map_lendable n m" and "\<And>ty. hash_order_ok (perm ty)"
  shows "\<exists>maps m'. ealloc_map_shards perm n m = Inr (maps, m') \<and> length maps = n \<and>
     map fst m' = map fst m \<and>
     (\<forall>ty a. map_of m ty = Some a \<longrightarrow>
        map_of m' ty = Some (a\<lparr>shards_lent := True, snapshots_lent := snapshots_lent a + n\<rparr>) \<and>
        mset (lent_to ty maps) = mset [0 ..< n] \<and>
        (\<forall>mp \<in> set maps. \<exists>e. map_of mp ty = Some e \<and> \<not> se_borrowed e \<and>
           se_snapshot e = \<lparr>gauge = global_gauge a, sn_recyclable = recyclable a\<rparr>)) \<and>
     drop_shard_maps maps m' = m"
proof -
  obtain maps m' where out: "ealloc_map_shards perm n m = Inr (maps, m')" "length maps = n"
    "map fst m' = map fst m"
    "\<forall>ty a. map_of m ty = Some a \<longrightarrow>
        map_of m' ty = Some (a\<lparr>shards_lent := True, snapshots_lent := snapshots_lent a + n\<rparr>) \<and>
        mset (lent_to ty maps) = mset [0 ..< n] \<and>
        (\<forall>mp \<in> set maps. \<exists>e. map_of mp ty = Some e \<and> \<not> se_borrowed e \<and>
           se_snapshot e = \<lparr>gauge = global_gauge a, sn_recyclable = recyclable a\<rparr>)"
    using ealloc_map_shards_loop_outcome [of m "replicate n []" perm] assms
    by (auto simp: ealloc_map_shards_def map_lendable_def)
  have len: "length m' = length m" using arg_cong [OF out(3), of length] by simp
  have "drop_shard_maps maps m' = m"
  proof (rule nth_equalityI)
    fix j assume j: "j < length (drop_shard_maps maps m')"
    then have jm: "j < length m" by (simp add: drop_shard_maps_def len)
    obtain ty a where ja: "m ! j = (ty, a)" by (cases "m ! j")
    have mem: "(ty, a) \<in> set m" using jm ja by (metis nth_mem)
    then have lk: "map_of m ty = Some a" using assms(1) by (simp add: map_lendable_def)
    have nl: "\<not> shards_lent a" using mem assms(1) by (auto simp: map_lendable_def lendable_def)
    have "fst (m' ! j) = ty" using out(3) jm len ja by (metis fst_conv nth_map)
    moreover have "map_of m' (fst (m' ! j)) = Some (snd (m' ! j))"
      using out(3) assms(1) jm len
      by (metis map_lendable_def map_of_eq_Some_iff nth_mem prod.collapse)
    ultimately have "m' ! j = (ty, a\<lparr>shards_lent := True, snapshots_lent := snapshots_lent a + length maps\<rparr>)"
      using out(2,4) lk by (metis option.inject prod.collapse)
    moreover have "\<forall>mp \<in> set maps. map_of mp ty \<noteq> None" using out(4) lk by fastforce
    ultimately show "drop_shard_maps maps m' ! j = m ! j"
      using jm len ja nl release_lent [of maps ty a] by (simp add: drop_shard_maps_def)
  qed (simp add: drop_shard_maps_def len)
  with out show ?thesis by blast
qed

subsection \<open>Properties of the allocator\<close>

text \<open>
  C13. No identifier is handed out while somebody owns it. In every state an allocator over the
  ordered recycler can reach, an allocation offline, or online from any shard, yields an identifier
  that is not zero and not live, or panics; and it only panics when the gauge has wrapped around,
  that is when every identifier of the width has been handed out.
\<close>

theorem fresh_identifiers:
  fixes a :: "('w::len raw, 'w raw set) recycling"
  assumes "ealloc_reach btree_recycler n sa live a" and "assigner_ok sa n" and "rng_ok rng"
    and "f = allocate btree_recycler rng h \<and> \<not> shards_lent a \<or>
         f = online_shard_allocate btree_recycler h i \<and> i < length (recycler_shards a)"
  shows "(\<exists>x a'. f a = (Inr x, a') \<and> x \<notin> live \<and> x \<noteq> 0) \<or>
         (\<exists>a'. f a = (Inl IntegerOverflow, a')) \<and> handed_out (global_gauge a) = UNIV - {0}"
proof -
  have inv: "ealloc_inv (\<lambda>_. True) (\<lambda>r. r) live a" by (rule btree_rc.reach_inv [OF assms(1,2)])
  from assms(4) show ?thesis
  proof
    assume "f = allocate btree_recycler rng h \<and> \<not> shards_lent a"
    with btree_rc.allocate_total [OF inv assms(3), of h] show ?thesis
      by (auto simp: handed_out_def)
  next
    assume *: "f = online_shard_allocate btree_recycler h i \<and> i < length (recycler_shards a)"
    then have i: "i < length (recycler_shards a)" by simp
    from btree_rc.shard_allocate_outcome [OF inv i, of online_shard_allocate h] * show ?thesis
      by (auto simp: handed_out_def)
  qed
qed

text \<open>The allocator of the witnesses: two entities, the first of which is freed and recycled.\<close>

abbreviation demo_ops :: "(16 raw, 16 raw set, 16 btree_hint) recycler_ops" where
  "demo_ops \<equiv> btree_recycler"

definition demo_new :: "(16 raw, 16 raw set) recycling" where
  "demo_new = new_with_shard_assigner demo_ops 2 (StaticShardAssigner 0)"

definition demo_one :: "(16 raw, 16 raw set) recycling" where
  "demo_one = snd (allocate demo_ops (\<lambda>_. 0) None demo_new)"

definition demo_two :: "(16 raw, 16 raw set) recycling" where
  "demo_two = snd (allocate demo_ops (\<lambda>_. 0) None demo_one)"

definition returned :: "'a res \<Rightarrow> 'a" where
  "returned r = (case r of Inr x \<Rightarrow> x | Inl _ \<Rightarrow> undefined)"

definition demo_freed :: "(16 raw, 16 raw set) recycling" where
  "demo_freed = returned (flush demo_ops (queue_deallocate 1 demo_two))"

lemma returned_eq: "isl r = False \<Longrightarrow> r = Inr (returned r)"
  by (cases r) (simp_all add: returned_def)

lemma demo_rng: "rng_ok (\<lambda>_. 0)"
  by (simp add: rng_ok_def)

lemma demo_assigner: "assigner_ok (StaticShardAssigner 0) 2"
  by (simp add: assigner_ok_def)

lemma demo_quiet_two: "quiet_reach demo_ops 2 (StaticShardAssigner 0) {2, 1} demo_two"
proof (rule quiet_reach.offline [OF quiet_reach.offline [OF quiet_reach.new demo_rng] demo_rng])
  show "allocate demo_ops (\<lambda>_. 0) None (new_with_shard_assigner demo_ops 2 (StaticShardAssigner 0)) = (Inr 1, demo_one)"
    by code_simp
  show "allocate demo_ops (\<lambda>_. 0) None demo_one = (Inr 2, demo_two)" by code_simp
qed

lemma demo_quiet_freeing: "quiet_reach demo_ops 2 (StaticShardAssigner 0) ({2, 1} - {1}) (queue_deallocate 1 demo_two)"
proof (rule quiet_reach.dealloc [OF demo_quiet_two])
  show "1 \<notin> reused demo_two" unfolding reused_def by code_simp
qed simp

lemma demo_flush: "flush demo_ops (queue_deallocate 1 demo_two) = Inr demo_freed"
  unfolding demo_freed_def by (rule returned_eq) code_simp

lemma demo_quiet: "quiet_reach demo_ops 2 (StaticShardAssigner 0) {2} demo_freed"
proof -
  have "{2, 1 :: 16 raw} - {1} = {2}" by auto
  with quiet_reach.flush [OF demo_quiet_freeing demo_flush] show ?thesis by metis
qed

theorem fresh_identifiers_witness:
  "(\<exists>x a'. allocate demo_ops (\<lambda>_. 0) None demo_freed = (Inr x, a') \<and> x \<notin> {2} \<and> x \<noteq> 0) \<or>
   (\<exists>a'. allocate demo_ops (\<lambda>_. 0) None demo_freed = (Inl IntegerOverflow, a')) \<and>
     handed_out (global_gauge demo_freed) = UNIV - {0}"
proof (rule fresh_identifiers [OF quiet_reach_reach [OF demo_quiet] demo_assigner demo_rng])
  show "allocate demo_ops (\<lambda>_. 0) None = allocate demo_ops (\<lambda>_. 0) None \<and> \<not> shards_lent demo_freed \<or>
      allocate demo_ops (\<lambda>_. 0) None = online_shard_allocate demo_ops None 0 \<and> 0 < length (recycler_shards demo_freed)"
    by (rule disjI1, rule conjI [OF refl]) code_simp
qed

text \<open>
  C14. A flush loses nothing and spreads evenly. In every reachable state without lent shards or
  snapshots a flush returns; the recyclers then hold what they held and every queued identifier
  besides, once each; and a shard that received identifiers has at most one more than any other.
\<close>

theorem flush_spreads_evenly:
  fixes a :: "('w::len raw, 'w raw set) recycling"
  assumes "ealloc_reach btree_recycler n sa live a" and "assigner_ok sa n"
    and "\<not> shards_lent a" and "snapshots_lent a = 0"
  shows "\<exists>a'. flush btree_recycler a = Inr a' \<and> dealloc_queue a' = [] \<and>
     (\<Sum>r \<leftarrow> recycler_shards a'. mset_set r) = (\<Sum>r \<leftarrow> recycler_shards a. mset_set r) + mset (dealloc_queue a) \<and>
     length (recycler_shards a') = length (recycler_shards a) \<and>
     (\<forall>i < length (recycler_shards a). \<forall>j < length (recycler_shards a).
        card (recycler_shards a ! i) < card (recycler_shards a' ! i) \<longrightarrow>
        card (recycler_shards a' ! i) \<le> card (recycler_shards a' ! j) + 1)"
  using btree_rc.flush_outcome [OF btree_rc.reach_inv [OF assms(1,2)] assms(3,4)]
  unfolding held_mset_def by (simp add: btree_recycler_def) blast

theorem flush_spreads_evenly_witness:
  "\<exists>a'. flush demo_ops (queue_deallocate 1 demo_two) = Inr a' \<and> dealloc_queue a' = []"
proof -
  have "\<not> shards_lent (queue_deallocate 1 demo_two)" "snapshots_lent (queue_deallocate 1 demo_two) = 0"
    by code_simp+
  from flush_spreads_evenly [OF quiet_reach_reach [OF demo_quiet_freeing] demo_assigner this]
  show ?thesis by blast
qed

text \<open>
  C15. Snapshots show the live entities. If no identifier was recycled online, and none was freed
  between its reuse and the next flush, then a snapshot taken after a flush lists exactly the live
  entities, in maximal ranges in increasing order.
\<close>

theorem snapshot_shows_live_entities:
  fixes a :: "('w::len raw, 'w raw set) recycling"
  assumes "quiet_reach btree_recycler n sa live a" and "assigner_ok sa n"
    and "flush btree_recycler a = Inr a'" and "global_gauge a \<noteq> 0"
  shows "\<exists>sn a'' cs. take_snapshot a' = Inr (sn, a'') \<and> iter_allocated_chunks sn = Inr cs \<and>
           separated cs \<and> set (chunk_ids cs) = live"
  by (rule btree_rc.quiet_snapshot [OF assms])

theorem snapshot_shows_live_entities_witness:
  "\<exists>sn a'' cs. take_snapshot demo_freed = Inr (sn, a'') \<and> iter_allocated_chunks sn = Inr cs \<and>
     separated cs \<and> set (chunk_ids cs) = {2, 1} - {1}"
proof (rule snapshot_shows_live_entities [OF demo_quiet_freeing demo_assigner demo_flush])
  show "global_gauge (queue_deallocate 1 demo_two) \<noteq> 0" by code_simp
qed

text \<open>
  C16. The first exception of C15 occurs. A worker thread that creates an entity from a recycled
  identifier does not record the reuse: the identifier stays in the set \<open>recyclable\<close>, and after the
  flush at the end of the cycle the snapshot omits the live entity 1.
\<close>

definition demo_online :: "(16 raw, 16 raw set) recycling" where
  "demo_online = snd (online_shard_allocate demo_ops None 1 (snd (returned (shards (\<lambda>is. is) demo_freed))))"

theorem online_reuse_hidden_from_snapshot:
  "ealloc_reach demo_ops 2 (StaticShardAssigner 0) {1, 2} demo_online \<and>
   bind_res (flush demo_ops (drop_shards demo_online)) iter_allocated_chunks_offline = Inr [(2, 3)]"
proof
  let ?lent = "snd (returned (shards (\<lambda>is. is) demo_freed))"
  have "shards (\<lambda>is. is) demo_freed = Inr (fst (returned (shards (\<lambda>is. is) demo_freed)), ?lent)"
    unfolding prod.collapse by (rule returned_eq) code_simp
  from ealloc_reach.lend [OF quiet_reach_reach [OF demo_quiet] this]
  have reach: "ealloc_reach demo_ops 2 (StaticShardAssigner 0) {2} ?lent" .
  have lent: "shards_lent ?lent" "1 < length (recycler_shards ?lent)" by code_simp+
  have "fst (online_shard_allocate demo_ops None 1 ?lent) = Inr 1" by code_simp
  then have "online_shard_allocate demo_ops None 1 ?lent = (Inr 1, demo_online)"
    unfolding demo_online_def by (metis prod.collapse)
  from ealloc_reach.online [OF reach lent this]
  show "ealloc_reach demo_ops 2 (StaticShardAssigner 0) {1, 2} demo_online" .
  show "bind_res (flush demo_ops (drop_shards demo_online)) iter_allocated_chunks_offline = Inr [(2, 3)]"
    by code_simp
qed




text \<open>
  C19. Every worker gets its own shard. Preparing a cycle gives each of the \<open>n\<close> workers an entry for
  every archetype; the shards of an archetype go to the workers one each, none twice; every entry
  carries the snapshot at that time; and dropping them returns the map as it was.
\<close>

theorem shards_lent_exclusively:
  assumes "map_lendable n m" and "\<And>ty. hash_order_ok (perm ty)"
  shows "\<exists>maps m'. ealloc_map_shards perm n m = Inr (maps, m') \<and> length maps = n \<and>
     (\<forall>ty a. map_of m ty = Some a \<longrightarrow>
        mset (lent_to ty maps) = mset [0 ..< n] \<and>
        (\<forall>mp \<in> set maps. \<exists>e. map_of mp ty = Some e \<and> \<not> se_borrowed e \<and>
           se_snapshot e = \<lparr>gauge = global_gauge a, sn_recyclable = recyclable a\<rparr>)) \<and>
     drop_shard_maps maps m' = m"
  using ealloc_map_shards_outcome [OF assms(1), of perm] assms(2) by blast

theorem shards_lent_exclusively_witness:
  "\<exists>maps m'. ealloc_map_shards (\<lambda>_. rev) 2 [(''A'', demo_freed), (''B'', demo_two)] = Inr (maps, m') \<and>
     mset (lent_to ''A'' maps) = mset [0 ..< 2] \<and> drop_shard_maps maps m' = [(''A'', demo_freed), (''B'', demo_two)]"
proof -
  have "lendable 2 demo_freed" "lendable 2 demo_two" unfolding lendable_def by code_simp+
  then have "map_lendable 2 [(''A'', demo_freed), (''B'', demo_two)]" by (simp add: map_lendable_def)
  from shards_lent_exclusively [OF this, of "\<lambda>_. rev"] show ?thesis by auto
qed

text \<open>
  C20. Identifiers survive the conversion to indices. Every identifier comes back from its index,
  the index orders like the identifier, and an index that is zero or too wide is refused.
\<close>

theorem raw_primitive_roundtrip:
  fixes x y :: "'w::len raw"
  assumes "x \<noteq> 0"
  shows "from_primitive (to_primitive x) = Inr x \<and>
     (to_primitive x < to_primitive y \<longleftrightarrow> x < y) \<and>
     (n = 0 \<or> 2 ^ LENGTH('w) \<le> n \<longrightarrow> (from_primitive n :: 'w raw res) = Inl IntegerOverflow)"
proof (intro conjI impI)
  show "from_primitive (to_primitive x) = Inr x" using assms by (simp add: from_primitive_Inr)
  show "to_primitive x < to_primitive y \<longleftrightarrow> x < y" by (rule to_primitive_mono)
  assume n: "n = 0 \<or> 2 ^ LENGTH('w) \<le> n"
  show "(from_primitive n :: 'w raw res) = Inl IntegerOverflow"
  proof (cases "from_primitive n :: 'w raw res")
    case (Inl e)
    then show ?thesis by (simp add: from_primitive_def expect_eq_Inl)
  next
    case (Inr z)
    then have "n = unat z" "z \<noteq> 0" by (simp_all add: from_primitive_Inr to_primitive_def)
    then have "\<not> 2 ^ LENGTH('w) \<le> n" "n \<noteq> 0" by (simp_all add: not_le unat_eq_0)
    with n show ?thesis by blast
  qed
qed

theorem raw_primitive_roundtrip_witness:
  "from_primitive (to_primitive (7 :: 16 raw)) = Inr (7 :: 16 raw) \<and> (from_primitive 0 :: 16 raw res) = Inl IntegerOverflow"
  using raw_primitive_roundtrip [of "7 :: 16 raw" 7 0] by simp

end
