(* ===== verification/Storage_Spec.thy ===== *)
theory Storage_Spec
  imports Raw
begin

section \<open>The contract of a component storage\<close>

text \<open>
  The traits of \<open>src/storage.rs\<close>. What a storage keeps is a partial map from entities to
  components, the abstraction \<open>\<alpha>\<close> of the locale; \<open>get\<close> reads it, \<open>set\<close> updates one entry and returns
  the old one, \<open>cardinality\<close> counts the entries and the iterators list them in entity order. The
  vector and the tree storage interpret the locale in their theories.
\<close>

text \<open>The methods of the trait \<open>Storage\<close>; a chunk is its first entity and its components.\<close>

record ('e, 'v, 's) storage_ops =
  st_default :: 's
  st_get :: "'e \<Rightarrow> 's \<Rightarrow> 'v option res"
  st_set :: "'e \<Rightarrow> 'v option \<Rightarrow> 's \<Rightarrow> ('v option \<times> 's) res"
  st_cardinality :: "'s \<Rightarrow> nat"
  st_iter :: "'s \<Rightarrow> ('e \<times> 'v) list res"
  st_iter_chunks :: "'s \<Rightarrow> ('e \<times> 'v list) list res"

text \<open>What a list of chunks stands for: component \<open>k\<close> of a chunk belongs to entity \<open>start + k\<close>.\<close>

definition chunk_entries :: "'w::len raw \<times> 'v list \<Rightarrow> ('w raw \<times> 'v) list" where
  "chunk_entries c = zip (map (\<lambda>k. of_nat (unat (fst c) + k)) [0 ..< length (snd c)]) (snd c)"

definition chunks_entries :: "('w::len raw \<times> 'v list) list \<Rightarrow> ('w raw \<times> 'v) list" where
  "chunks_entries cs = concat (map chunk_entries cs)"

text \<open>The entries of a map in key order.\<close>

definition entries_of :: "('k::linorder \<rightharpoonup> 'v) \<Rightarrow> ('k \<times> 'v) list \<Rightarrow> bool" where
  "entries_of f xs \<longleftrightarrow> sorted_wrt (<) (map fst xs) \<and> map_of xs = f"

lemma entries_of_distinct: "entries_of f xs \<Longrightarrow> distinct (map fst xs)"
  by (simp add: entries_of_def strict_sorted_iff)

lemma entries_of_unique:
  assumes "entries_of f xs" and "entries_of f ys"
  shows "xs = ys"
proof -
  have "set (map fst xs) = set (map fst ys)"
    using assms by (metis entries_of_def dom_map_of_conv_image_fst list.set_map)
  then have keys: "map fst xs = map fst ys"
    using assms by (intro sorted_distinct_set_unique) (auto simp: entries_of_def strict_sorted_iff)
  show ?thesis
  proof (rule nth_equalityI)
    show len: "length xs = length ys" using keys by (metis length_map)
    fix i assume i: "i < length xs"
    have k: "fst (xs ! i) = fst (ys ! i)" using keys i len by (metis nth_map)
    have "map_of xs (fst (xs ! i)) = Some (snd (xs ! i))"
      using entries_of_distinct [OF assms(1)] i by (intro map_of_is_SomeI) auto
    moreover have "map_of ys (fst (ys ! i)) = Some (snd (ys ! i))"
      using entries_of_distinct [OF assms(2)] i len by (intro map_of_is_SomeI) auto
    ultimately have "snd (xs ! i) = snd (ys ! i)" using k assms by (simp add: entries_of_def)
    with k show "xs ! i = ys ! i" by (simp add: prod_eq_iff)
  qed
qed

lemma entries_of_card: "entries_of f xs \<Longrightarrow> length xs = card (dom f)"
proof -
  assume e: "entries_of f xs"
  then have "dom f = set (map fst xs)" by (metis entries_of_def dom_map_of_conv_image_fst list.set_map)
  then show ?thesis using distinct_card [OF entries_of_distinct [OF e]] by simp
qed

locale storage =
  fixes ops :: "('w::len raw, 'v, 's) storage_ops"
    and st_inv :: "'s \<Rightarrow> bool"
    and \<alpha> :: "'s \<Rightarrow> 'w raw \<rightharpoonup> 'v"
  assumes default: "st_inv (st_default ops) \<and> \<alpha> (st_default ops) = Map.empty"
    and get: "st_inv s \<Longrightarrow> e \<noteq> 0 \<Longrightarrow> st_get ops e s = Inr (\<alpha> s e)"
    and set_law: "st_inv s \<Longrightarrow> e \<noteq> 0 \<Longrightarrow>
          \<exists>s'. st_set ops e v s = Inr (\<alpha> s e, s') \<and> st_inv s' \<and> \<alpha> s' = (\<alpha> s)(e := v)"
    and cardinality: "st_inv s \<Longrightarrow> st_cardinality ops s = card (dom (\<alpha> s))"
    and iter: "st_inv s \<Longrightarrow> \<exists>xs. st_iter ops s = Inr xs \<and> entries_of (\<alpha> s) xs"
    and iter_chunks: "st_inv s \<Longrightarrow> \<exists>cs. st_iter_chunks ops s = Inr cs \<and>
          st_iter ops s = Inr (chunks_entries cs) \<and> (\<forall>(e, vs) \<in> set cs. vs \<noteq> [])"
begin

lemma set_then_get:
  assumes "st_inv s" and "e \<noteq> 0" and "e' \<noteq> 0" and "st_set ops e v s = Inr (old, s')"
  shows "st_get ops e' s' = (if e' = e then Inr v else st_get ops e' s)" and "st_inv s'"
    and "st_get ops e s = Inr old"
proof -
  from set_law [OF assms(1,2), of v] assms(4) have s': "old = \<alpha> s e" "st_inv s'" "\<alpha> s' = (\<alpha> s)(e := v)"
    by auto
  then show "st_get ops e' s' = (if e' = e then Inr v else st_get ops e' s)" "st_inv s'"
    "st_get ops e s = Inr old"
    using assms by (simp_all add: get)
qed

end

subsection \<open>Programs over a storage\<close>

text \<open>
  A client of a storage runs a list of operations and sees their results. Two storages that satisfy
  the contract cannot be told apart.
\<close>

datatype ('e, 'v) storage_op = Get 'e | Set 'e "'v option" | Cardinality | Iter

datatype ('e, 'v) storage_result = Value "'v option" | Count nat | Entries "('e \<times> 'v) list"

fun run_storage_op :: "('e, 'v, 's) storage_ops \<Rightarrow> ('e, 'v) storage_op \<Rightarrow> 's
    \<Rightarrow> (('e, 'v) storage_result \<times> 's) res" where
  "run_storage_op ops (Get e) s = bind_res (st_get ops e s) (\<lambda>v. Inr (Value v, s))"
| "run_storage_op ops (Set e v) s = bind_res (st_set ops e v s) (\<lambda>(old, s'). Inr (Value old, s'))"
| "run_storage_op ops Cardinality s = Inr (Count (st_cardinality ops s), s)"
| "run_storage_op ops Iter s = bind_res (st_iter ops s) (\<lambda>xs. Inr (Entries xs, s))"

fun run_storage :: "('e, 'v, 's) storage_ops \<Rightarrow> ('e, 'v) storage_op list \<Rightarrow> 's
    \<Rightarrow> ('e, 'v) storage_result list res" where
  "run_storage ops [] s = Inr []"
| "run_storage ops (p # ps) s =
     bind_res (run_storage_op ops p s) (\<lambda>(r, s').
     bind_res (run_storage ops ps s') (\<lambda>rs. Inr (r # rs)))"

fun op_valid :: "('w::len raw, 'v) storage_op \<Rightarrow> bool" where
  "op_valid (Get e) = (e \<noteq> 0)"
| "op_valid (Set e v) = (e \<noteq> 0)"
| "op_valid _ = True"

text \<open>The reference: the same program on the partial map itself.\<close>

fun spec_op :: "('w::len raw, 'v) storage_op \<Rightarrow> ('w raw \<rightharpoonup> 'v) \<Rightarrow> ('w raw, 'v) storage_result \<times> ('w raw \<rightharpoonup> 'v)" where
  "spec_op (Get e) f = (Value (f e), f)"
| "spec_op (Set e v) f = (Value (f e), f(e := v))"
| "spec_op Cardinality f = (Count (card (dom f)), f)"
| "spec_op Iter f = (Entries (map (\<lambda>e. (e, the (f e))) (sorted_list_of_set (dom f))), f)"

fun run_spec :: "('w::len raw, 'v) storage_op list \<Rightarrow> ('w raw \<rightharpoonup> 'v) \<Rightarrow> ('w raw, 'v) storage_result list" where
  "run_spec [] f = []"
| "run_spec (p # ps) f = (case spec_op p f of (r, f') \<Rightarrow> r # run_spec ps f')"

lemma entries_of_sorted_dom:
  fixes f :: "'w::len raw \<rightharpoonup> 'v"
  shows "entries_of f (map (\<lambda>e. (e, the (f e))) (sorted_list_of_set (dom f)))"
proof -
  let ?xs = "map (\<lambda>e. (e, the (f e))) (sorted_list_of_set (dom f))"
  have keys: "map fst ?xs = sorted_list_of_set (dom f)" by (simp add: comp_def)
  have "map_of ?xs e = f e" for e
  proof (cases "e \<in> dom f")
    case True
    then have "(e, the (f e)) \<in> set ?xs" by simp
    moreover have "distinct (map fst ?xs)" unfolding keys by simp
    ultimately have "map_of ?xs e = Some (the (f e))" by (simp add: map_of_is_SomeI)
    with True show ?thesis by auto
  next
    case False
    then have "e \<notin> set (map fst ?xs)" unfolding keys by simp
    then have "map_of ?xs e = None" unfolding map_of_eq_None_iff list.set_map .
    with False show ?thesis by (metis domIff)
  qed
  then show ?thesis by (auto simp: entries_of_def keys simp del: map_map)
qed

context storage
begin

lemma run_op_refines:
  assumes "st_inv s" and "op_valid p"
  shows "\<exists>s'. run_storage_op ops p s = Inr (fst (spec_op p (\<alpha> s)), s') \<and> st_inv s' \<and>
           \<alpha> s' = snd (spec_op p (\<alpha> s))"
proof (cases p)
  case (Get e)
  with assms show ?thesis by (simp add: get)
next
  case (Set e v)
  with assms set_law [of s e v] show ?thesis by auto
next
  case Cardinality
  with assms show ?thesis by (simp add: cardinality)
next
  case Iter
  with iter [OF assms(1)] entries_of_unique [OF _ entries_of_sorted_dom] assms show ?thesis by auto
qed

lemma run_refines:
  "st_inv s \<Longrightarrow> list_all op_valid ps \<Longrightarrow> run_storage ops ps s = Inr (run_spec ps (\<alpha> s))"
proof (induction ps arbitrary: s)
  case (Cons p ps)
  from run_op_refines [of s p] Cons.prems obtain s' where
    s': "run_storage_op ops p s = Inr (fst (spec_op p (\<alpha> s)), s')" "st_inv s'"
      "\<alpha> s' = snd (spec_op p (\<alpha> s))" by auto
  with Cons show ?case by (simp add: case_prod_beta)
qed simp

end

end
