(* ===== verification/Vec_Storage.thy ===== *)
theory Vec_Storage
  imports Storage_Spec
begin

section \<open>The vector storage\<close>

text \<open>
  \<open>src/storage/vec.rs\<close>: a bit per index, and a slot of possibly uninitialized memory per index.
  A slot is \<open>None\<close> while it holds no value; \<open>assume_init\<close> of such a slot is undefined behaviour,
  the outcome \<open>UninitRead\<close>. A mutable reference into the storage is the index of its slot.

  Proved: no operation reaches undefined behaviour or a \<open>bits mismatch\<close>, the storage satisfies the
  contract \<open>storage\<close>, chunks cover exactly the present components, references handed out together
  never alias, and a split gives every entity to exactly one side.
\<close>

record 'v vec_storage =
  vs_cardinality :: nat
  vs_bits :: "bool list"
  vs_data :: "'v option list"

definition vec_default :: "'v vec_storage" where
  "vec_default = \<lparr>vs_cardinality = 0, vs_bits = [], vs_data = []\<rparr>"

text \<open>\<open>bits.get(index)\<close> with absent bits read as false.\<close>

definition bit_at :: "bool list \<Rightarrow> nat \<Rightarrow> bool" where
  "bit_at bits index = (case list_get bits index of Some b \<Rightarrow> b | None \<Rightarrow> False)"

definition vec_bit :: "'v vec_storage \<Rightarrow> nat \<Rightarrow> bool" where
  "vec_bit s index = bit_at (vs_bits s) index"

definition vec_set_bit :: "nat \<Rightarrow> bool \<Rightarrow> 'v vec_storage \<Rightarrow> 'v vec_storage res" where
  "vec_set_bit index b s =
     (let bits = (if length (vs_bits s) \<le> index then list_grow (index + 1) False (vs_bits s) else vs_bits s);
          delta_old = (if bits ! index then 1 else 0);
          delta_new = (if b then 1 else 0)
      in if vs_cardinality s < delta_old then Inl IntegerOverflow
         else Inr (s\<lparr>vs_cardinality := vs_cardinality s - delta_old + delta_new, vs_bits := bits[index := b]\<rparr>))"

text \<open>\<open>data.get(index).expect("bits mismatch")\<close> followed by \<open>assume_init\<close>.\<close>

definition read_slot :: "'v option list \<Rightarrow> nat \<Rightarrow> 'v res" where
  "read_slot data index =
     bind_res (expect BitsMismatch (list_get data index)) (\<lambda>slot. expect UninitRead slot)"

definition vec_get :: "'w::len raw \<Rightarrow> 'v vec_storage \<Rightarrow> 'v option res" where
  "vec_get e s =
     (let index = to_primitive e in
      if vec_bit s index then bind_res (read_slot (vs_data s) index) (\<lambda>v. Inr (Some v)) else Inr None)"

definition vec_get_mut :: "'w::len raw \<Rightarrow> 'v vec_storage \<Rightarrow> nat option res" where
  "vec_get_mut e s =
     (let index = to_primitive e in
      if vec_bit s index then bind_res (read_slot (vs_data s) index) (\<lambda>_. Inr (Some index)) else Inr None)"

text \<open>\<open>slice::get_many_mut\<close> refuses indices out of bounds and repeated indices.\<close>

definition slice_get_many_mut :: "'a list \<Rightarrow> nat list \<Rightarrow> nat list option" where
  "slice_get_many_mut xs is = (if distinct is \<and> (\<forall>i \<in> set is. i < length xs) then Some is else None)"

fun assume_init_all :: "'v option list \<Rightarrow> nat list \<Rightarrow> unit res" where
  "assume_init_all data [] = Inr ()"
| "assume_init_all data (i # is) = bind_res (expect UninitRead (data ! i)) (\<lambda>_. assume_init_all data is)"

definition vec_get_many_mut :: "'w::len raw list \<Rightarrow> 'v vec_storage \<Rightarrow> nat list option res" where
  "vec_get_many_mut entities s =
     (let indices = map to_primitive entities in
      if \<not> list_all (vec_bit s) indices then Inr None
      else (case slice_get_many_mut (vs_data s) indices of
              None \<Rightarrow> Inr None
            | Some slots \<Rightarrow> bind_res (assume_init_all (vs_data s) slots) (\<lambda>_. Inr (Some slots))))"

text \<open>\<open>assume_init_read\<close> moves the old value out, which leaves its slot uninitialized.\<close>

definition vec_set :: "'w::len raw \<Rightarrow> 'v option \<Rightarrow> 'v vec_storage \<Rightarrow> ('v option \<times> 'v vec_storage) res" where
  "vec_set e new s =
     (let index = to_primitive e in
      bind_res (if vec_bit s index
                then bind_res (read_slot (vs_data s) index)
                       (\<lambda>v. Inr (Some v, s\<lparr>vs_data := (vs_data s)[index := None]\<rparr>))
                else Inr (None, s)) (\<lambda>(old, s1).
      case new of
        Some v \<Rightarrow>
          bind_res (vec_set_bit index True s1) (\<lambda>s2.
          let data = (if length (vs_data s2) \<le> index then list_grow (index + 1) None (vs_data s2)
                      else vs_data s2)
          in Inr (old, s2\<lparr>vs_data := data[index := Some v]\<rparr>))
      | None \<Rightarrow> bind_res (vec_set_bit index False s1) (\<lambda>s2. Inr (old, s2))))"

subsection \<open>Iteration\<close>

definition iter_ones :: "bool list \<Rightarrow> nat list" where
  "iter_ones bits = filter (\<lambda>i. bits ! i) [0 ..< length bits]"

definition iter_zeros :: "bool list \<Rightarrow> nat list" where
  "iter_zeros bits = filter (\<lambda>i. \<not> bits ! i) [0 ..< length bits]"

text \<open>The shared loop of \<open>iter\<close> and \<open>iter_mut\<close> over the set bits.\<close>

fun iter_entries :: "nat \<Rightarrow> 'v option list \<Rightarrow> nat list \<Rightarrow> ('w::len raw \<times> 'v) list res" where
  "iter_entries start_offset data [] = Inr []"
| "iter_entries start_offset data (i # is) =
     bind_res (from_primitive (start_offset + i)) (\<lambda>e.
     bind_res (read_slot data i) (\<lambda>v.
     bind_res (iter_entries start_offset data is) (\<lambda>xs. Inr ((e, v) # xs))))"

definition vec_iter :: "'v vec_storage \<Rightarrow> ('w::len raw \<times> 'v) list res" where
  "vec_iter s = iter_entries 0 (vs_data s) (iter_ones (vs_bits s))"

text \<open>\<open>trisplit_fn_ref\<close> and \<open>trisplit_fn_mut\<close>; \<open>split_at\<close> panics out of bounds.\<close>

definition trisplit :: "'a list \<Rightarrow> nat \<Rightarrow> ('a list \<times> 'a list \<times> 'a list) res" where
  "trisplit data index =
     (if length data < index then Inl IndexOutOfBounds
      else let left = take index data; rest = drop index data in
           Inr (if rest = [] then (left, [], []) else (left, take 1 rest, drop 1 rest)))"

text \<open>Draining \<open>IterChunks\<close>: the loop of \<open>next\<close> over the zeros.\<close>

fun vec_chunks_loop :: "nat option \<Rightarrow> nat list \<Rightarrow> 'a list \<Rightarrow> (nat \<times> 'a list) list res" where
  "vec_chunks_loop last_zero [] data = Inr []"
| "vec_chunks_loop last_zero (next_zero # zeros) data =
     (let first_one = (case last_zero of Some index \<Rightarrow> index + 1 | None \<Rightarrow> 0) in
      if first_one = next_zero then
        bind_res (trisplit data 0) (\<lambda>(_, _, rest). vec_chunks_loop (Some next_zero) zeros rest)
      else if next_zero < first_one then Inl IntegerOverflow
      else
        bind_res (trisplit data (next_zero - first_one)) (\<lambda>(chunk, _, rest).
        bind_res (vec_chunks_loop (Some next_zero) zeros rest) (\<lambda>cs.
        Inr ((first_one, chunk) # cs))))"

definition new_iter_chunks :: "bool list \<Rightarrow> 'a list \<Rightarrow> (nat \<times> 'a list) list res" where
  "new_iter_chunks bits data = vec_chunks_loop None (iter_zeros bits @ [length bits]) data"

fun slice_assume_init :: "'v option list \<Rightarrow> 'v list res" where
  "slice_assume_init [] = Inr []"
| "slice_assume_init (x # xs) =
     bind_res (expect UninitRead x) (\<lambda>v. bind_res (slice_assume_init xs) (\<lambda>vs. Inr (v # vs)))"

fun typed_chunks :: "nat \<Rightarrow> (nat \<times> 'v option list) list \<Rightarrow> ('w::len raw \<times> 'v list) list res" where
  "typed_chunks offset [] = Inr []"
| "typed_chunks offset ((start_index, chunk) # cs) =
     bind_res (slice_assume_init chunk) (\<lambda>slice.
     bind_res (from_primitive (start_index + offset)) (\<lambda>start.
     bind_res (typed_chunks offset cs) (\<lambda>xs. Inr ((start, slice) # xs))))"

definition vec_iter_chunks :: "'v vec_storage \<Rightarrow> ('w::len raw \<times> 'v list) list res" where
  "vec_iter_chunks s = bind_res (new_iter_chunks (vs_bits s) (vs_data s)) (typed_chunks 0)"

definition bits_get_range :: "'a list \<Rightarrow> nat \<Rightarrow> nat \<Rightarrow> 'a list option" where
  "bits_get_range xs s e = (if s \<le> e \<and> e \<le> length xs then Some (take (e - s) (drop s xs)) else None)"

text \<open>The body shared by \<open>get_chunk\<close>, \<open>get_chunk_mut\<close> and \<open>into_chunk_mut\<close>.\<close>

definition chunk_in :: "bool list \<Rightarrow> 'v option list \<Rightarrow> nat \<Rightarrow> nat \<Rightarrow> 'v list option res" where
  "chunk_in bits data s e =
     (case bits_get_range bits s e of
        None \<Rightarrow> Inr None
      | Some bs \<Rightarrow>
          if \<not> list_all id bs then Inr None
          else bind_res (expect BitsMismatch (bits_get_range data s e)) (\<lambda>slots.
               bind_res (slice_assume_init slots) (\<lambda>vs. Inr (Some vs))))"

definition vec_get_chunk :: "'w::len raw \<Rightarrow> 'w raw \<Rightarrow> 'v vec_storage \<Rightarrow> 'v list option res" where
  "vec_get_chunk s e st = chunk_in (vs_bits st) (vs_data st) (to_primitive s) (to_primitive e)"

subsection \<open>Partitions\<close>

record 'v vec_partition =
  vp_bits :: "bool list"
  vp_data :: "'v option list"
  vp_offset :: nat

definition vec_as_partition :: "'v vec_storage \<Rightarrow> 'v vec_partition" where
  "vec_as_partition s = \<lparr>vp_bits = vs_bits s, vp_data = vs_data s, vp_offset = 0\<rparr>"

definition vec_into_iter_mut :: "'v vec_partition \<Rightarrow> ('w::len raw \<times> 'v) list res" where
  "vec_into_iter_mut p = iter_entries (vp_offset p) (vp_data p) (iter_ones (vp_bits p))"

definition partition_index :: "'w::len raw \<Rightarrow> 'v vec_partition \<Rightarrow> nat res" where
  "partition_index e p =
     (if to_primitive e < vp_offset p then Inl OutsidePartition else Inr (to_primitive e - vp_offset p))"

text \<open>A reference is the position of its slot in the whole storage, so that partitions compare.\<close>

definition vec_into_mut :: "'w::len raw \<Rightarrow> 'v vec_partition \<Rightarrow> (nat \<times> 'v) option res" where
  "vec_into_mut e p =
     bind_res (partition_index e p) (\<lambda>index.
     if bit_at (vp_bits p) index
     then bind_res (read_slot (vp_data p) index) (\<lambda>v. Inr (Some (vp_offset p + index, v)))
     else Inr None)"

fun partition_indices :: "'w::len raw list \<Rightarrow> 'v vec_partition \<Rightarrow> nat list option res" where
  "partition_indices [] p = Inr (Some [])"
| "partition_indices (e # es) p =
     bind_res (partition_index e p) (\<lambda>index.
     if \<not> bit_at (vp_bits p) index then Inr None
     else bind_res (partition_indices es p) (\<lambda>r. Inr (map_option ((#) index) r)))"

definition vec_into_many_mut :: "'w::len raw list \<Rightarrow> 'v vec_partition \<Rightarrow> nat list option res" where
  "vec_into_many_mut entities p =
     bind_res (partition_indices entities p) (\<lambda>r.
     case Option.bind r (slice_get_many_mut (vp_data p)) of
       None \<Rightarrow> Inr None
     | Some slots \<Rightarrow> bind_res (assume_init_all (vp_data p) slots)
         (\<lambda>_. Inr (Some (map (\<lambda>i. vp_offset p + i) slots))))"

text \<open>\<open>split_out\<close>: the left partition and the right one.\<close>

definition vec_split_out :: "'w::len raw \<Rightarrow> 'v vec_partition \<Rightarrow> ('v vec_partition \<times> 'v vec_partition) res" where
  "vec_split_out e p =
     bind_res (if to_primitive e < vp_offset p then Inl IndexOutOfBounds
               else Inr (to_primitive e - vp_offset p)) (\<lambda>index.
     if index > length (vp_bits p)
     then Inr (p, \<lparr>vp_bits = [], vp_data = [], vp_offset = vp_offset p + index\<rparr>)
     else if length (vp_data p) < index then Inl IndexOutOfBounds
     else Inr (p\<lparr>vp_bits := take index (vp_bits p), vp_data := take index (vp_data p)\<rparr>,
               \<lparr>vp_bits = drop index (vp_bits p), vp_data = drop index (vp_data p),
                vp_offset = vp_offset p + index\<rparr>))"

definition vec_into_chunk_mut :: "'w::len raw \<Rightarrow> 'w raw \<Rightarrow> 'v vec_partition \<Rightarrow> 'v list option res" where
  "vec_into_chunk_mut s e p =
     (if to_primitive s < vp_offset p \<or> to_primitive e < vp_offset p then Inl IntegerOverflow
      else chunk_in (vp_bits p) (vp_data p) (to_primitive s - vp_offset p) (to_primitive e - vp_offset p))"

definition vec_into_iter_chunks_mut :: "'v vec_partition \<Rightarrow> ('w::len raw \<times> 'v list) list res" where
  "vec_into_iter_chunks_mut p = bind_res (new_iter_chunks (vp_bits p) (vp_data p)) (typed_chunks (vp_offset p))"

definition vec_ops :: "('w::len raw, 'v, 'v vec_storage) storage_ops" where
  "vec_ops = \<lparr>st_default = vec_default, st_get = vec_get, st_set = vec_set,
     st_cardinality = vs_cardinality, st_iter = vec_iter, st_iter_chunks = vec_iter_chunks\<rparr>"

subsection \<open>The invariant\<close>

text \<open>
  Set bits have initialized slots, and the cardinality counts them; the slot vector may be shorter
  than the bits, since removing an absent component grows only the bits. Index 0 is no entity.
\<close>

definition slots_ok :: "bool list \<Rightarrow> 'v option list \<Rightarrow> bool" where
  "slots_ok bits data \<longleftrightarrow> (\<forall>i < length bits. bits ! i \<longrightarrow> i < length data \<and> data ! i \<noteq> None)"

definition vec_inv :: "'w::len itself \<Rightarrow> 'v vec_storage \<Rightarrow> bool" where
  "vec_inv w s \<longleftrightarrow> slots_ok (vs_bits s) (vs_data s) \<and> length (vs_data s) \<le> length (vs_bits s) \<and>
     vs_cardinality s = length (iter_ones (vs_bits s)) \<and> length (vs_bits s) \<le> 2 ^ LENGTH('w) \<and> \<not> bit_at (vs_bits s) 0"

definition slot_value :: "bool list \<Rightarrow> 'v option list \<Rightarrow> nat \<Rightarrow> 'v option" where
  "slot_value bits data i = (if bit_at bits i then data ! i else None)"

definition vec_map :: "'v vec_storage \<Rightarrow> 'w::len raw \<rightharpoonup> 'v" where
  "vec_map s e = slot_value (vs_bits s) (vs_data s) (to_primitive e)"

subsection \<open>Bits and slots\<close>

lemma bit_at_iff: "bit_at bits i \<longleftrightarrow> i < length bits \<and> bits ! i"
  by (simp add: bit_at_def list_get_def)

lemma set_iter_ones [simp]: "set (iter_ones bits) = {i. bit_at bits i}"
  by (auto simp: iter_ones_def bit_at_iff)

lemma sorted_iter_ones: "sorted_wrt (<) (iter_ones bits)"
  by (simp add: iter_ones_def sorted_wrt_filter)

lemma length_iter_ones: "length (iter_ones bits) = length (filter id bits)"
proof -
  have "filter id bits = filter id (map (nth bits) [0 ..< length bits])" by (simp add: map_nth)
  also have "\<dots> = map (nth bits) (iter_ones bits)" by (simp add: filter_map iter_ones_def comp_def)
  finally show ?thesis by simp
qed

lemma read_slot_ok: "i < length data \<Longrightarrow> data ! i = Some v \<Longrightarrow> read_slot data i = Inr v"
  by (simp add: read_slot_def list_get_def)

lemma slots_okD:
  assumes "slots_ok bits data" and "bit_at bits i"
  obtains v where "i < length data" "data ! i = Some v" "read_slot data i = Inr v"
    "slot_value bits data i = Some v"
proof -
  from assms have "i < length data" "data ! i \<noteq> None" by (auto simp: slots_ok_def bit_at_iff)
  then obtain v where "i < length data" "data ! i = Some v" by auto
  with assms(2) that show ?thesis by (simp add: read_slot_ok slot_value_def)
qed

lemma slots_ok_slot: "slots_ok bits data \<Longrightarrow> bit_at bits i \<Longrightarrow> i < length data \<and> data ! i \<noteq> None"
  by (simp add: slots_ok_def bit_at_iff)

lemma slot_value_present: "slots_ok bits data \<Longrightarrow> slot_value bits data i \<noteq> None \<longleftrightarrow> bit_at bits i"
  by (auto simp: slot_value_def dest: slots_ok_slot)

lemma vec_set_bit_outcome:
  assumes "vs_cardinality s = length (iter_ones (vs_bits s))"
  shows "\<exists>s'. vec_set_bit i b s = Inr s' \<and> vs_data s' = vs_data s \<and>
     vs_cardinality s' = length (iter_ones (vs_bits s')) \<and>
     length (vs_bits s') = max (length (vs_bits s)) (i + 1) \<and>
     (\<forall>j. bit_at (vs_bits s') j = (if j = i then b else bit_at (vs_bits s) j))"
proof -
  define bits where
    "bits = (if length (vs_bits s) \<le> i then list_grow (i + 1) False (vs_bits s) else vs_bits s)"
  define old :: nat where "old = (if bits ! i then 1 else 0)"
  define s' where "s' = s\<lparr>vs_cardinality := vs_cardinality s - old + (if b then 1 else 0),
      vs_bits := bits[i := b]\<rparr>"
  have len: "length bits = max (length (vs_bits s)) (i + 1)" by (auto simp: bits_def)
  then have i: "i < length bits" by simp
  have same: "length (filter id bits) = length (filter id (vs_bits s))"
    by (simp add: bits_def list_grow_def)
  have bit: "bit_at bits j = bit_at (vs_bits s) j" for j
    by (auto simp: bits_def bit_at_iff list_grow_def nth_append)
  have upd: "length (filter id (bits[i := b])) + old = length (filter id bits) + (if b then 1 else 0)"
    using length_filter_update [OF i, of id b] by (simp add: old_def)
  have le: "old \<le> vs_cardinality s"
  proof (cases "bits ! i")
    case True
    then have "True \<in> set (filter id bits)" using nth_mem [OF i] by simp
    then have "0 < length (filter id bits)" by (rule length_pos_if_in_set)
    moreover have "vs_cardinality s = length (filter id bits)"
      using assms same by (simp only: length_iter_ones)
    ultimately have "1 \<le> vs_cardinality s" by linarith
    then show ?thesis by (simp add: old_def)
  qed (simp add: old_def)
  have "vec_set_bit i b s = Inr s'"
    using le by (simp add: vec_set_bit_def Let_def s'_def bits_def [symmetric] old_def [symmetric])
  moreover have "vs_cardinality s' = length (iter_ones (vs_bits s'))"
    using upd le assms same by (simp add: length_iter_ones s'_def)
  moreover have "bit_at (vs_bits s') j = (if j = i then b else bit_at (vs_bits s) j)" for j
    using i bit [of j] by (simp add: s'_def bit_at_iff nth_list_update)
  ultimately show ?thesis using len by (intro exI [of _ s']) (simp add: s'_def)
qed

lemma vec_get_outcome: "slots_ok (vs_bits s) (vs_data s) \<Longrightarrow> vec_get e s = Inr (vec_map s e)"
  by (cases "bit_at (vs_bits s) (to_primitive e)")
    (auto simp: vec_get_def vec_map_def Let_def vec_bit_def slot_value_def elim: slots_okD)

text \<open>\<open>set\<close> on all its branches: the old value is returned, exactly one entry changes.\<close>

lemma vec_set_outcome:
  fixes e :: "'w::len raw"
  assumes inv: "vec_inv TYPE('w) s" and e: "e \<noteq> 0"
  shows "\<exists>s'. vec_set e new s = Inr (vec_map s e, s') \<and> vec_inv TYPE('w) s' \<and>
     (vec_map s' :: 'w raw \<rightharpoonup> 'v) = (vec_map s)(e := new)"
proof -
  let ?i = "to_primitive e"
  have bound: "?i + 1 \<le> 2 ^ LENGTH('w)" using unat_bound [of e] by (simp add: to_primitive_def Suc_le_eq)
  have i0: "?i \<noteq> 0" using e by (simp add: to_primitive_def unat_eq_0)
  have ok: "slots_ok (vs_bits s) (vs_data s)" using inv by (simp add: vec_inv_def)
  define s1 where "s1 = (if vec_bit s ?i then s\<lparr>vs_data := (vs_data s)[?i := None]\<rparr> else s)"
  have first: "(if vec_bit s ?i then bind_res (read_slot (vs_data s) ?i)
        (\<lambda>v. Inr (Some v, s\<lparr>vs_data := (vs_data s)[?i := None]\<rparr>)) else Inr (None, s)) = Inr (vec_map s e, s1)"
    using ok by (auto simp: s1_def vec_map_def vec_bit_def slot_value_def elim: slots_okD)
  have s1: "vs_bits s1 = vs_bits s" "vs_cardinality s1 = length (iter_ones (vs_bits s1))"
    "length (vs_data s1) = length (vs_data s)" "\<And>j. j \<noteq> ?i \<Longrightarrow> vs_data s1 ! j = vs_data s ! j"
    using inv by (auto simp: s1_def vec_inv_def)
  from vec_set_bit_outcome [OF s1(2), of ?i "new \<noteq> None"] obtain s2 where
    s2: "vec_set_bit ?i (new \<noteq> None) s1 = Inr s2" "vs_data s2 = vs_data s1"
      "vs_cardinality s2 = length (iter_ones (vs_bits s2))"
      "length (vs_bits s2) = max (length (vs_bits s1)) (?i + 1)"
      "\<forall>j. bit_at (vs_bits s2) j = (if j = ?i then new \<noteq> None else bit_at (vs_bits s1) j)" by blast
  define data where "data = (case new of
      Some v \<Rightarrow> (if length (vs_data s2) \<le> ?i then list_grow (?i + 1) None (vs_data s2) else vs_data s2)[?i := Some v]
    | None \<Rightarrow> vs_data s2)"
  let ?s = "s2\<lparr>vs_data := data\<rparr>"
  have set: "vec_set e new s = Inr (vec_map s e, ?s)"
    unfolding vec_set_def Let_def first using s2(1) by (cases new) (simp_all add: data_def)
  have at: "data ! j = vs_data s ! j" "j < length data" if "j \<noteq> ?i" "j < length (vs_data s)" for j
    using that s1(3,4) s2(2) by (auto simp: data_def nth_list_grow split: option.splits)
  have here: "?i < length data \<and> data ! ?i = new" if "new \<noteq> None"
    using that by (auto simp: data_def split: option.splits)
  have slot: "slots_ok (vs_bits ?s) (vs_data ?s)"
    unfolding slots_ok_def
  proof (intro allI impI)
    fix j assume "j < length (vs_bits ?s)" "vs_bits ?s ! j"
    then have b: "bit_at (vs_bits s2) j" by (simp add: bit_at_iff)
    show "j < length (vs_data ?s) \<and> vs_data ?s ! j \<noteq> None"
    proof (cases "j = ?i")
      case True
      with b s2(5) here show ?thesis by auto
    next
      case False
      with b s2(5) s1(1) have "bit_at (vs_bits s) j" by auto
      with ok obtain v where "j < length (vs_data s)" "vs_data s ! j = Some v" by (rule slots_okD)
      with at [OF False] show ?thesis by simp
    qed
  qed
  have "length data \<le> length (vs_bits s2)"
    using inv s1(1,3) s2(2,4) by (auto simp: data_def vec_inv_def split: option.splits)
  then have inv': "vec_inv TYPE('w) ?s"
    using inv slot s1(1) s2(3,4,5) bound i0 by (auto simp: vec_inv_def)
  have "vec_map ?s e' = ((vec_map s)(e := new)) e'" for e' :: "'w raw"
  proof (cases "e' = e")
    case True
    then show ?thesis using s2(5) here by (auto simp: vec_map_def slot_value_def)
  next
    case False
    then have ne: "to_primitive e' \<noteq> ?i" by (simp add: to_primitive_inj)
    show ?thesis
    proof (cases "bit_at (vs_bits s) (to_primitive e')")
      case True
      with ok obtain v where "to_primitive e' < length (vs_data s)" by (rule slots_okD)
      with at [OF ne] True False ne s2(5) s1(1) show ?thesis by (simp add: vec_map_def slot_value_def)
    qed (use False ne s2(5) s1(1) in \<open>simp add: vec_map_def slot_value_def\<close>)
  qed
  then have "(vec_map ?s :: 'w raw \<rightharpoonup> 'v) = (vec_map s)(e := new)" by (rule ext)
  with set inv' show ?thesis by blast
qed

subsection \<open>Iteration lists the present components\<close>

text \<open>What a stretch of bits and slots that starts at \<open>offset\<close> stores.\<close>

definition part_map :: "nat \<Rightarrow> bool list \<Rightarrow> 'v option list \<Rightarrow> 'w::len raw \<rightharpoonup> 'v" where
  "part_map offset bits data e =
     (if to_primitive e < offset then None else slot_value bits data (to_primitive e - offset))"

definition part_ok :: "'w::len itself \<Rightarrow> nat \<Rightarrow> bool list \<Rightarrow> 'v option list \<Rightarrow> bool" where
  "part_ok w offset bits data \<longleftrightarrow> slots_ok bits data \<and> offset + length bits \<le> 2 ^ LENGTH('w) \<and>
     (\<forall>i. bit_at bits i \<longrightarrow> 0 < offset + i)"

lemma vec_map_part: "vec_map s = part_map 0 (vs_bits s) (vs_data s)"
  by (rule ext) (simp add: vec_map_def part_map_def)

lemma vec_inv_part: "vec_inv TYPE('w::len) s \<Longrightarrow> part_ok TYPE('w) 0 (vs_bits s) (vs_data s)"
  by (auto simp: vec_inv_def part_ok_def intro: Nat.gr0I)

definition entry_list :: "nat \<Rightarrow> bool list \<Rightarrow> 'v option list \<Rightarrow> ('w::len raw \<times> 'v) list" where
  "entry_list offset bits data = map (\<lambda>i. (of_nat (offset + i), the (data ! i))) (iter_ones bits)"

lemma part_ok_index:
  assumes "part_ok TYPE('w::len) offset bits data" and "bit_at bits i"
  shows "from_primitive (offset + i) = Inr (of_nat (offset + i) :: 'w raw)"
    and "unat (of_nat (offset + i) :: 'w raw) = offset + i"
    and "read_slot data i = Inr (the (data ! i))" and "data ! i \<noteq> None" and "i < length data"
proof -
  have lt: "offset + i < 2 ^ LENGTH('w)" using assms by (auto simp: part_ok_def bit_at_iff)
  show u: "unat (of_nat (offset + i) :: 'w raw) = offset + i" using lt by (simp add: unat_of_nat del: of_nat_add)
  have "(of_nat (offset + i) :: 'w raw) \<noteq> 0"
  proof
    assume "(of_nat (offset + i) :: 'w raw) = 0"
    then have "offset + i = 0" using u by (simp only: unsigned_0)
    with assms show False by (auto simp: part_ok_def)
  qed
  with u show "from_primitive (offset + i) = Inr (of_nat (offset + i) :: 'w raw)"
    by (simp add: from_primitive_Inr to_primitive_def del: of_nat_add)
  from assms have "slots_ok bits data" by (simp add: part_ok_def)
  then show "read_slot data i = Inr (the (data ! i))" "data ! i \<noteq> None" "i < length data"
    using assms(2) by (auto elim: slots_okD)
qed

lemma iter_entries_outcome:
  assumes "part_ok TYPE('w::len) offset bits data" and "\<forall>i \<in> set is. bit_at bits i"
  shows "iter_entries offset data is =
     Inr (map (\<lambda>i. (of_nat (offset + i) :: 'w raw, the (data ! i))) is)"
  using assms(2) by (induction "is") (simp_all add: part_ok_index [OF assms(1)] del: of_nat_add)

lemma entry_list_entries:
  assumes ok: "part_ok TYPE('w::len) offset bits data"
  shows "entries_of (part_map offset bits data) (entry_list offset bits data :: ('w raw \<times> 'v) list)"
proof -
  let ?key = "\<lambda>i. of_nat (offset + i) :: 'w raw"
  have keys: "map fst (entry_list offset bits data :: ('w raw \<times> 'v) list) = map ?key (iter_ones bits)"
    by (simp add: entry_list_def comp_def)
  have "sorted_wrt (\<lambda>i j. ?key i < ?key j) (iter_ones bits)"
    by (rule sorted_wrt_mono_rel [OF _ sorted_iter_ones])
      (simp add: word_less_nat_alt part_ok_index(2) [OF ok] del: of_nat_add)
  then have sorted: "sorted_wrt (<) (map ?key (iter_ones bits))" by (simp add: sorted_wrt_map)
  have "map_of (entry_list offset bits data) e = part_map offset bits data e" for e :: "'w raw"
  proof (cases "\<exists>i. bit_at bits i \<and> e = ?key i")
    case True
    then obtain i where i: "bit_at bits i" "e = ?key i" by blast
    have "(e, the (data ! i)) \<in> set (entry_list offset bits data)" using i by (auto simp: entry_list_def)
    moreover have "distinct (map fst (entry_list offset bits data :: ('w raw \<times> 'v) list))"
      using sorted unfolding keys by (simp add: strict_sorted_iff)
    ultimately have "map_of (entry_list offset bits data) e = Some (the (data ! i))"
      by (rule map_of_is_SomeI [rotated])
    moreover have "to_primitive e = offset + i" using i part_ok_index(2) [OF ok] by (simp add: to_primitive_def del: of_nat_add)
    ultimately show ?thesis using i part_ok_index(4) [OF ok i(1)] by (auto simp: part_map_def slot_value_def)
  next
    case False
    then have "e \<notin> set (map fst (entry_list offset bits data :: ('w raw \<times> 'v) list))" unfolding keys by auto
    then have "map_of (entry_list offset bits data) e = None" unfolding map_of_eq_None_iff list.set_map .
    moreover have "\<not> bit_at bits (to_primitive e - offset)" if "offset \<le> to_primitive e"
    proof
      assume "bit_at bits (to_primitive e - offset)"
      moreover have "e = ?key (to_primitive e - offset)" using that by (simp add: to_primitive_def del: of_nat_add)
      ultimately show False using False by blast
    qed
    ultimately show ?thesis by (auto simp: part_map_def slot_value_def)
  qed
  then show ?thesis using sorted unfolding entries_of_def keys by auto
qed

lemma iter_entries_ones:
  assumes "part_ok TYPE('w::len) offset bits data"
  shows "iter_entries offset data (iter_ones bits) = Inr (entry_list offset bits data :: ('w raw \<times> 'v) list)"
  using iter_entries_outcome [OF assms, of "iter_ones bits"] by (simp add: entry_list_def)

subsection \<open>Chunks\<close>

definition chunk_slots :: "(nat \<times> 'a list) list \<Rightarrow> (nat \<times> 'a) list" where
  "chunk_slots cs = concat (map (\<lambda>(s, c). zip [s ..< s + length c] c) cs)"

lemma trisplit_drop:
  assumes "pos \<le> z" and "pos = z \<or> z \<le> length data"
  shows "\<exists>mid. trisplit (drop pos data) (z - pos) =
    Inr (take (z - pos) (drop pos data), mid, drop (Suc z) data)"
proof -
  have rest: "drop (z - pos) (drop pos data) = drop z data" using assms(1) by simp
  show ?thesis
  proof (cases "drop z data = []")
    case True
    then have "drop (Suc z) data = []" by simp
    with True assms rest show ?thesis by (auto simp: trisplit_def)
  next
    case False
    then have "drop 1 (drop z data) = drop (Suc z) data" by simp
    with False assms rest show ?thesis by (auto simp: trisplit_def Let_def)
  qed
qed

lemma first_zero:
  assumes "pos \<le> n" and "filter (\<lambda>i. \<not> P i) [pos ..< n] @ [n] = z # zs"
  shows "pos \<le> z \<and> z \<le> n \<and> (\<forall>i. pos \<le> i \<and> i < z \<longrightarrow> P i) \<and>
     (z < n \<longrightarrow> \<not> P z \<and> zs = filter (\<lambda>i. \<not> P i) [Suc z ..< n] @ [n]) \<and> (z = n \<longrightarrow> zs = [])"
  using assms
proof (induction "n - pos" arbitrary: pos)
  case 0
  then show ?case by (simp, linarith)
next
  case (Suc k)
  then have lt: "pos < n" by simp
  show ?case
  proof (cases "P pos")
    case True
    with Suc lt have "filter (\<lambda>i. \<not> P i) [Suc pos ..< n] @ [n] = z # zs" by (simp add: upt_conv_Cons)
    with Suc.hyps(1) [of "Suc pos"] Suc.hyps(2) lt
    have "Suc pos \<le> z \<and> z \<le> n \<and> (\<forall>i. Suc pos \<le> i \<and> i < z \<longrightarrow> P i) \<and>
       (z < n \<longrightarrow> \<not> P z \<and> zs = filter (\<lambda>i. \<not> P i) [Suc z ..< n] @ [n]) \<and> (z = n \<longrightarrow> zs = [])" by simp
    with True show ?thesis by (metis Suc_leD le_eq_less_or_eq Suc_leI)
  next
    case False
    with Suc.prems lt show ?thesis by (auto simp: upt_conv_Cons)
  qed
qed

text \<open>From a position on, the loop yields the runs of ones behind it.\<close>

lemma vec_chunks_loop_outcome:
  assumes "slots_ok bits data" and "pos \<le> length bits"
    and "(case lz of Some i \<Rightarrow> i + 1 | None \<Rightarrow> 0) = pos"
  shows "\<exists>cs. vec_chunks_loop lz (filter (\<lambda>i. \<not> bits ! i) [pos ..< length bits] @ [length bits]) (drop pos data) = Inr cs \<and>
     chunk_slots cs = map (\<lambda>i. (i, data ! i)) (filter (\<lambda>i. bits ! i) [pos ..< length bits]) \<and>
     (\<forall>(s, c) \<in> set cs. c \<noteq> [])"
  using assms(2,3)
proof (induction "length bits - pos" arbitrary: pos lz rule: less_induct)
  case less
  let ?n = "length bits"
  obtain z zs where zs: "filter (\<lambda>i. \<not> bits ! i) [pos ..< ?n] @ [?n] = z # zs" by (cases "filter (\<lambda>i. \<not> bits ! i) [pos ..< ?n]") auto
  have z: "pos \<le> z \<and> z \<le> ?n \<and> (\<forall>i. pos \<le> i \<and> i < z \<longrightarrow> bits ! i) \<and>
      (z < ?n \<longrightarrow> \<not> bits ! z \<and> zs = filter (\<lambda>i. \<not> bits ! i) [Suc z ..< ?n] @ [?n]) \<and> (z = ?n \<longrightarrow> zs = [])"
    by (rule first_zero [OF less.prems(1) zs])
  have data: "pos = z \<or> z \<le> length data"
  proof (cases "pos < z")
    case True
    then have "bit_at bits (z - 1)" using z by (auto simp: bit_at_iff)
    with assms(1) have "z - 1 < length data" by (rule slots_okD)
    with True show ?thesis by linarith
  qed (use z in simp)
  obtain mid where tri: "trisplit (drop pos data) (z - pos) =
      Inr (take (z - pos) (drop pos data), mid, drop (Suc z) data)"
    using trisplit_drop [OF _ data] z by blast
  have rest: "\<exists>cs. vec_chunks_loop (Some z) zs (drop (Suc z) data) = Inr cs \<and>
     chunk_slots cs = map (\<lambda>i. (i, data ! i)) (filter (\<lambda>i. bits ! i) [Suc z ..< ?n]) \<and>
     (\<forall>(s, c) \<in> set cs. c \<noteq> [])"
  proof (cases "z < ?n")
    case True
    moreover have "?n - Suc z < ?n - pos" using True z by linarith
    ultimately show ?thesis using less.hyps [of "Suc z" "Some z"] z by simp
  qed (use z in \<open>simp add: chunk_slots_def\<close>)
  then obtain cs where cs: "vec_chunks_loop (Some z) zs (drop (Suc z) data) = Inr cs"
    "chunk_slots cs = map (\<lambda>i. (i, data ! i)) (filter (\<lambda>i. bits ! i) [Suc z ..< ?n])"
    "\<forall>(s, c) \<in> set cs. c \<noteq> []" by blast
  have ones: "filter (\<lambda>i. bits ! i) [pos ..< ?n] = [pos ..< z] @ filter (\<lambda>i. bits ! i) [Suc z ..< ?n]"
  proof -
    have "[pos ..< ?n] = [pos ..< z] @ [z ..< ?n]"
      using upt_add_eq_append [of pos z "?n - z"] z by simp
    moreover have "filter (\<lambda>i. bits ! i) [pos ..< z] = [pos ..< z]" using z by (simp add: filter_id_conv)
    moreover have "filter (\<lambda>i. bits ! i) [z ..< ?n] = filter (\<lambda>i. bits ! i) [Suc z ..< ?n]"
      using z by (cases "z < ?n") (simp_all add: upt_conv_Cons)
    ultimately show ?thesis by simp
  qed
  show ?case
  proof (cases "pos = z")
    case True
    then show ?thesis unfolding zs using cs tri ones less.prems(2) by simp
  next
    case False
    then have lt: "pos < z" "z \<le> length data" using z data by auto
    let ?chunk = "take (z - pos) (drop pos data)"
    have len: "length ?chunk = z - pos" using lt by simp
    have "zip [pos ..< pos + length ?chunk] ?chunk = map (\<lambda>i. (i, data ! i)) [pos ..< z]"
      by (rule nth_equalityI) (use lt in \<open>auto simp: len\<close>)
    then have "chunk_slots ((pos, ?chunk) # cs) = map (\<lambda>i. (i, data ! i)) (filter (\<lambda>i. bits ! i) [pos ..< ?n])"
      using cs(2) by (simp add: ones chunk_slots_def)
    moreover have "?chunk \<noteq> []" using len lt by auto
    ultimately show ?thesis unfolding zs using lt tri cs(1,3) less.prems(2)
      by (intro exI [of _ "(pos, ?chunk) # cs"]) (simp del: take_drop)
  qed
qed

lemma new_iter_chunks_outcome:
  assumes "slots_ok bits data"
  shows "\<exists>cs. new_iter_chunks bits data = Inr cs \<and>
     chunk_slots cs = map (\<lambda>i. (i, data ! i)) (iter_ones bits) \<and> (\<forall>(s, c) \<in> set cs. c \<noteq> [])"
  using vec_chunks_loop_outcome [OF assms, of 0 None]
  by (simp add: new_iter_chunks_def iter_zeros_def iter_ones_def)

lemma slice_assume_init_ok:
  "\<forall>x \<in> set xs. x \<noteq> None \<Longrightarrow> slice_assume_init xs = Inr (map the xs)"
  by (induction xs) auto

lemma typed_chunks_outcome:
  fixes w :: "'w::len itself"
  assumes "\<forall>(i, x) \<in> set (chunk_slots cs). x \<noteq> None \<and>
      from_primitive (offset + i) = Inr (of_nat (offset + i) :: 'w raw) \<and> unat (of_nat (offset + i) :: 'w raw) = offset + i"
    and "\<forall>(s, c) \<in> set cs. c \<noteq> []"
  shows "\<exists>ts :: ('w raw \<times> 'v list) list. typed_chunks offset cs = Inr ts \<and>
     chunks_entries ts = map (\<lambda>(i, x). (of_nat (offset + i), the x)) (chunk_slots cs) \<and>
     (\<forall>(e, vs) \<in> set ts. vs \<noteq> [])"
  using assms
proof (induction cs)
  case Nil
  then show ?case by (simp add: chunks_entries_def chunk_slots_def)
next
  case (Cons sc cs)
  obtain s c where sc: "sc = (s, c)" by (cases sc)
  have slots: "chunk_slots (sc # cs) = zip [s ..< s + length c] c @ chunk_slots cs"
    by (simp add: chunk_slots_def sc)
  have c: "c \<noteq> []" using Cons.prems(2) sc by simp
  have nth: "(s + k, c ! k) \<in> set (chunk_slots (sc # cs))" if "k < length c" for k
    using that unfolding slots by (auto simp: set_zip intro!: exI [of _ k])
  have "\<forall>x \<in> set c. x \<noteq> None"
  proof
    fix x assume "x \<in> set c"
    then obtain k where k: "k < length c" "x = c ! k" by (auto simp: in_set_conv_nth)
    with Cons.prems(1) nth [OF k(1)] show "x \<noteq> None" by fastforce
  qed
  then have init: "slice_assume_init c = Inr (map the c)" by (rule slice_assume_init_ok)
  have "(s, c ! 0) \<in> set (chunk_slots (sc # cs))" using nth [of 0] c by simp
  with Cons.prems(1) have start: "from_primitive (offset + s) = Inr (of_nat (offset + s) :: 'w raw)"
    "unat (of_nat (offset + s) :: 'w raw) = offset + s" by fastforce+
  have c': "\<forall>(s, c) \<in> set cs. c \<noteq> []" using Cons.prems(2) by simp
  obtain ts :: "('w raw \<times> 'v list) list" where ts: "typed_chunks offset cs = Inr ts"
    "chunks_entries ts = map (\<lambda>(i, x). (of_nat (offset + i), the x)) (chunk_slots cs)"
    "\<forall>(e, vs) \<in> set ts. vs \<noteq> []"
    using Cons.IH [OF conjunct2 [OF Cons.prems(1) [unfolded slots set_append ball_Un]] c'] by blast
  let ?t = "(of_nat (offset + s) :: 'w raw, map the c)"
  have "chunk_entries ?t = map (\<lambda>(i, x). (of_nat (offset + i), the x)) (zip [s ..< s + length c] c)"
    by (rule nth_equalityI) (auto simp: chunk_entries_def start(2) ac_simps simp del: of_nat_add)
  then have "chunks_entries (?t # ts) = map (\<lambda>(i, x). (of_nat (offset + i), the x)) (chunk_slots (sc # cs))"
    using ts(2) by (simp add: chunks_entries_def slots del: of_nat_add)
  moreover have "typed_chunks offset (sc # cs) = Inr (?t # ts)"
    using init start(1) ts(1) by (simp add: sc add.commute del: of_nat_add)
  ultimately show ?case using ts(3) c by (intro exI [of _ "?t # ts"]) simp
qed

text \<open>Both chunk iterators list the entries of the plain iterator.\<close>

lemma chunks_outcome:
  assumes ok: "part_ok TYPE('w::len) offset bits data"
  shows "\<exists>ts :: ('w raw \<times> 'v list) list. bind_res (new_iter_chunks bits data) (typed_chunks offset) = Inr ts \<and>
     chunks_entries ts = entry_list offset bits data \<and> (\<forall>(e, vs) \<in> set ts. vs \<noteq> [])"
proof -
  have "slots_ok bits data" using ok by (simp add: part_ok_def)
  from new_iter_chunks_outcome [OF this] obtain cs where cs: "new_iter_chunks bits data = Inr cs"
    "chunk_slots cs = map (\<lambda>i. (i, data ! i)) (iter_ones bits)" "\<forall>(s, c) \<in> set cs. c \<noteq> []" by blast
  have "\<forall>(i, x) \<in> set (chunk_slots cs). x \<noteq> None \<and>
      from_primitive (offset + i) = Inr (of_nat (offset + i) :: 'w raw) \<and> unat (of_nat (offset + i) :: 'w raw) = offset + i"
    unfolding cs(2) using part_ok_index [OF ok] by (auto simp del: of_nat_add)
  from typed_chunks_outcome [OF this cs(3)] cs(1,2) show ?thesis
    by (auto simp: entry_list_def comp_def simp del: of_nat_add)
qed

interpretation vec_st: storage "vec_ops :: ('w::len raw, 'v, 'v vec_storage) storage_ops"
    "vec_inv TYPE('w)" vec_map
proof unfold_locales
  fix s :: "'v vec_storage" and e :: "'w raw" and v :: "'v option"
  show "vec_inv TYPE('w) (st_default (vec_ops :: ('w raw, 'v, 'v vec_storage) storage_ops)) \<and>
      (vec_map (st_default (vec_ops :: ('w raw, 'v, 'v vec_storage) storage_ops)) :: 'w raw \<rightharpoonup> 'v) = Map.empty"
    by (auto simp: vec_ops_def vec_default_def vec_inv_def slots_ok_def iter_ones_def bit_at_iff vec_map_def slot_value_def)
  assume inv: "vec_inv TYPE('w) s"
  note part = vec_inv_part [OF inv]
  have iter: "st_iter vec_ops s = Inr (entry_list 0 (vs_bits s) (vs_data s) :: ('w raw \<times> 'v) list)"
    using iter_entries_ones [OF part] by (simp add: vec_ops_def vec_iter_def)
  then show "\<exists>xs. st_iter vec_ops s = Inr xs \<and> entries_of (vec_map s :: 'w raw \<rightharpoonup> 'v) xs"
    using entry_list_entries [OF part] by (simp add: vec_map_part)
  show "\<exists>cs. st_iter_chunks vec_ops s = Inr cs \<and>
          st_iter vec_ops s = Inr (chunks_entries cs :: ('w raw \<times> 'v) list) \<and> (\<forall>(e, vs) \<in> set cs. vs \<noteq> [])"
    using chunks_outcome [OF part] iter by (auto simp: vec_ops_def vec_iter_chunks_def)
  have "card (dom (vec_map s :: 'w raw \<rightharpoonup> 'v)) = length (entry_list 0 (vs_bits s) (vs_data s) :: ('w raw \<times> 'v) list)"
    using entries_of_card [OF entry_list_entries [OF part]] by (simp add: vec_map_part)
  then show "st_cardinality (vec_ops :: ('w raw, 'v, 'v vec_storage) storage_ops) s = card (dom (vec_map s :: 'w raw \<rightharpoonup> 'v))"
    using inv by (simp add: vec_ops_def vec_inv_def entry_list_def)
  assume e: "e \<noteq> 0"
  show "st_get vec_ops e s = Inr (vec_map s e)"
    using inv vec_get_outcome [of s e] by (simp add: vec_ops_def vec_inv_def)
  show "\<exists>s'. st_set vec_ops e v s = Inr (vec_map s e, s') \<and> vec_inv TYPE('w) s' \<and>
      (vec_map s' :: 'w raw \<rightharpoonup> 'v) = (vec_map s)(e := v)"
    using vec_set_outcome [OF inv e, of v] by (simp add: vec_ops_def)
qed

subsection \<open>Partitions\<close>

definition vp_map :: "'v vec_partition \<Rightarrow> 'w::len raw \<rightharpoonup> 'v" where
  "vp_map p = part_map (vp_offset p) (vp_bits p) (vp_data p)"

definition vp_ok :: "'w::len itself \<Rightarrow> 'v vec_partition \<Rightarrow> bool" where
  "vp_ok w p \<longleftrightarrow> part_ok w (vp_offset p) (vp_bits p) (vp_data p)"

lemma vec_as_partition_ok:
  fixes s :: "'v vec_storage"
  assumes "vec_inv TYPE('w::len) s"
  shows "vp_ok TYPE('w) (vec_as_partition s)" and "(vp_map (vec_as_partition s) :: 'w raw \<rightharpoonup> 'v) = vec_map s"
  using vec_inv_part [OF assms] by (simp_all add: vp_ok_def vp_map_def vec_as_partition_def vec_map_part)

lemma vp_slots: "vp_ok w p \<Longrightarrow> slots_ok (vp_bits p) (vp_data p)"
  by (simp add: vp_ok_def part_ok_def)

lemma vec_into_mut_outcome:
  assumes "vp_ok TYPE('w::len) p" and "vp_offset p \<le> to_primitive (e :: 'w raw)"
  shows "vec_into_mut e p = Inr (map_option (\<lambda>v. (to_primitive e, v)) (vp_map p e))"
proof (cases "bit_at (vp_bits p) (to_primitive e - vp_offset p)")
  case True
  with vp_slots [OF assms(1)] obtain v where "read_slot (vp_data p) (to_primitive e - vp_offset p) = Inr v"
    "slot_value (vp_bits p) (vp_data p) (to_primitive e - vp_offset p) = Some v" by (rule slots_okD)
  with True assms(2) show ?thesis
    by (simp add: vec_into_mut_def partition_index_def vp_map_def part_map_def)
next
  case False
  with assms(2) show ?thesis
    by (simp add: vec_into_mut_def partition_index_def vp_map_def part_map_def slot_value_def)
qed

lemma vec_into_mut_outside:
  "to_primitive e < vp_offset p \<Longrightarrow> vec_into_mut e p = Inl OutsidePartition"
  by (simp add: vec_into_mut_def partition_index_def)

text \<open>Splitting gives every entity to exactly one side, with its component.\<close>

lemma slot_value_take_drop:
  "slot_value (take n bits) (take n data) i = (if i < n then slot_value bits data i else None)"
  "slot_value (drop n bits) (drop n data) i = slot_value bits data (n + i)" if "n \<le> length data"
  using that by (auto simp: slot_value_def bit_at_iff)

lemma vec_split_out_outcome:
  fixes e :: "'w::len raw"
  assumes ok: "vp_ok TYPE('w) p" and off: "vp_offset p \<le> to_primitive e" and split: "vec_split_out e p = Inr (l, r)"
  shows "vp_ok TYPE('w) l \<and> vp_ok TYPE('w) r \<and>
     (vp_map l :: 'w raw \<rightharpoonup> 'v) = vp_map p |` {..< e} \<and> (vp_map r :: 'w raw \<rightharpoonup> 'v) = vp_map p |` {e ..} \<and>
     vp_offset l = vp_offset p \<and> vp_offset r = to_primitive e"
proof -
  define i where "i = to_primitive e - vp_offset p"
  have e: "to_primitive e = vp_offset p + i" using off by (simp add: i_def)
  have slots: "slots_ok (vp_bits p) (vp_data p)" by (rule vp_slots [OF ok])
  show ?thesis
  proof (cases "length (vp_bits p) < i")
    case True
    then have lr: "l = p" "r = \<lparr>vp_bits = [], vp_data = [], vp_offset = vp_offset p + i\<rparr>"
      using split off by (auto simp: vec_split_out_def i_def [symmetric])
    have none: "vp_map p e' = None" if "e \<le> e'" for e' :: "'w raw"
      using that True e
      by (auto simp: vp_map_def part_map_def slot_value_def bit_at_iff to_primitive_def word_le_nat_alt)
    have "(vp_map p :: 'w raw \<rightharpoonup> 'v) = vp_map p |` {..< e}"
    proof (rule ext)
      fix e' :: "'w raw"
      show "vp_map p e' = (vp_map p |` {..< e}) e'"
        using none [of e'] by (cases "e' < e") auto
    qed
    moreover have "(vp_map r :: 'w raw \<rightharpoonup> 'v) = vp_map p |` {e ..}"
      using none by (auto simp: lr restrict_map_def vp_map_def part_map_def slot_value_def bit_at_iff fun_eq_iff)
    moreover have "vp_ok TYPE('w) r"
      using below_bound [of "vp_offset p + i" e] e
      by (simp add: lr vp_ok_def part_ok_def slots_ok_def bit_at_iff to_primitive_def)
    ultimately show ?thesis using ok e lr by simp
  next
    case False
    then have d: "i \<le> length (vp_data p)" and lr: "l = p\<lparr>vp_bits := take i (vp_bits p), vp_data := take i (vp_data p)\<rparr>"
      "r = \<lparr>vp_bits = drop i (vp_bits p), vp_data = drop i (vp_data p), vp_offset = vp_offset p + i\<rparr>"
      using split off by (auto simp: vec_split_out_def i_def [symmetric] split: if_splits)
    have "vp_ok TYPE('w) l"
      using ok d by (auto simp: lr vp_ok_def part_ok_def slots_ok_def bit_at_iff)
    moreover have "vp_ok TYPE('w) r"
      using ok d False by (auto simp: lr vp_ok_def part_ok_def slots_ok_def bit_at_iff less_diff_conv add.commute add.left_commute)
    moreover have "(vp_map l :: 'w raw \<rightharpoonup> 'v) = vp_map p |` {..< e}"
    proof (rule ext)
      fix e' :: "'w raw"
      have "to_primitive e' - vp_offset p < i \<longleftrightarrow> e' < e" if "\<not> to_primitive e' < vp_offset p"
        using that e by (simp add: to_primitive_mono [symmetric]) linarith
      then show "vp_map l e' = (vp_map p |` {..< e}) e'"
        using d by (auto simp: lr vp_map_def part_map_def slot_value_take_drop restrict_map_def)
    qed
    moreover have "(vp_map r :: 'w raw \<rightharpoonup> 'v) = vp_map p |` {e ..}"
    proof (rule ext)
      fix e' :: "'w raw"
      have "e \<le> e' \<longleftrightarrow> \<not> to_primitive e' < vp_offset p + i"
        using e by (simp add: to_primitive_def word_le_nat_alt not_less)
      then show "vp_map r e' = (vp_map p |` {e ..}) e'"
        using d by (auto simp: lr vp_map_def part_map_def slot_value_take_drop restrict_map_def)
    qed
    ultimately show ?thesis using e lr by simp
  qed
qed

lemma vec_split_out_returns:
  assumes "vp_offset p \<le> to_primitive e"
  shows "(\<exists>lr. vec_split_out e p = Inr lr) \<longleftrightarrow>
     length (vp_bits p) < to_primitive e - vp_offset p \<or> to_primitive e - vp_offset p \<le> length (vp_data p)"
  using assms by (auto simp: vec_split_out_def)

lemma vec_into_iter_mut_outcome:
  assumes "vp_ok TYPE('w::len) p"
  shows "\<exists>xs. vec_into_iter_mut p = Inr xs \<and> entries_of (vp_map p :: 'w raw \<rightharpoonup> 'v) xs"
  using assms iter_entries_ones entry_list_entries
  by (fastforce simp: vp_ok_def vec_into_iter_mut_def vp_map_def)

subsection \<open>References do not alias\<close>

lemma assume_init_all_ok: "\<forall>i \<in> set is. data ! i \<noteq> None \<Longrightarrow> assume_init_all data is = Inr ()"
  by (induction "is") auto

lemma vec_get_many_mut_outcome:
  fixes es :: "'w::len raw list"
  assumes inv: "slots_ok (vs_bits s) (vs_data s)"
  shows "vec_get_many_mut es s =
     Inr (if distinct es \<and> (\<forall>e \<in> set es. vec_map s e \<noteq> None) then Some (map to_primitive es) else None)"
proof -
  have bit: "vec_bit s (to_primitive e) \<longleftrightarrow> vec_map s e \<noteq> None" for e :: "'w raw"
    using slot_value_present [OF inv] by (simp add: vec_bit_def vec_map_def)
  have dist: "distinct (map to_primitive es) \<longleftrightarrow> distinct es"
    by (auto simp: distinct_map inj_on_def to_primitive_inj)
  show ?thesis
  proof (cases "list_all (vec_bit s) (map to_primitive es)")
    case True
    then have slots: "\<forall>i \<in> set (map to_primitive es). i < length (vs_data s) \<and> vs_data s ! i \<noteq> None"
      using slots_ok_slot [OF inv] by (simp add: list_all_iff vec_bit_def)
    then have "assume_init_all (vs_data s) (map to_primitive es) = Inr ()"
      by (intro assume_init_all_ok) simp
    with True slots show ?thesis
      by (auto simp: vec_get_many_mut_def slice_get_many_mut_def dist list_all_iff bit Let_def)
  next
    case False
    then show ?thesis by (auto simp: vec_get_many_mut_def list_all_iff bit Let_def)
  qed
qed

text \<open>A chunk whose bits are all set is returned, with the components in the order of the slots.\<close>

lemma chunk_in_full:
  assumes ok: "slots_ok bits data" and ij: "i < j" and all: "\<forall>k. i \<le> k \<and> k < j \<longrightarrow> bit_at bits k"
  shows "chunk_in bits data i j = Inr (Some (map (\<lambda>k. the (slot_value bits data k)) [i ..< j]))"
proof -
  have last: "bit_at bits (j - 1)" using all ij by simp
  then have len: "j \<le> length bits" "j \<le> length data"
    using slots_ok_slot [OF ok last] ij by (auto simp: bit_at_iff)
  have ones: "list_all id (take (j - i) (drop i bits))"
    using all len ij by (auto simp: list_all_length bit_at_iff)
  have slot: "data ! k = Some (the (slot_value bits data k))" if "i \<le> k" "k < j" for k
    using all that slots_ok_slot [OF ok, of k] by (auto simp: slot_value_def)
  have "\<forall>x \<in> set (take (j - i) (drop i data)). x \<noteq> None"
    using slot len by (auto simp: in_set_conv_nth)
  then have "slice_assume_init (take (j - i) (drop i data)) = Inr (map the (take (j - i) (drop i data)))"
    by (rule slice_assume_init_ok)
  moreover have "map the (take (j - i) (drop i data)) = map (\<lambda>k. the (slot_value bits data k)) [i ..< j]"
    by (rule nth_equalityI) (use len slot in auto)
  ultimately show ?thesis using ones len ij by (simp add: chunk_in_def bits_get_range_def)
qed

lemma vec_get_chunk_outcome:
  fixes a b :: "'w::len raw"
  assumes inv: "vec_inv TYPE('w) s" and "a < b"
  shows "vec_get_chunk a b s =
     Inr (if \<forall>e \<in> {a ..< b}. vec_map s e \<noteq> None then Some (map (\<lambda>e. the (vec_map s e)) (raw_range a b)) else None)"
proof -
  let ?a = "unat a" and ?b = "unat b" and ?bits = "vs_bits s" and ?data = "vs_data s"
  have ab: "?a < ?b" using assms(2) by (simp add: word_less_nat_alt)
  have ok: "slots_ok ?bits ?data" using inv by (simp add: vec_inv_def)
  have bit: "bit_at ?bits (unat e) \<longleftrightarrow> vec_map s e \<noteq> None" for e :: "'w raw"
    using slot_value_present [OF ok] by (simp add: vec_map_def to_primitive_def)
  have all: "(\<forall>e \<in> {a ..< b}. vec_map s e \<noteq> None) \<longleftrightarrow> (\<forall>i. ?a \<le> i \<and> i < ?b \<longrightarrow> bit_at ?bits i)"
  proof (intro iffI allI ballI impI)
    fix i assume *: "\<forall>e \<in> {a ..< b}. vec_map s e \<noteq> None" "?a \<le> i \<and> i < ?b"
    then have u: "unat (of_nat i :: 'w raw) = i" using unat_of_nat_below [of i b] by simp
    then have "(of_nat i :: 'w raw) \<in> {a ..< b}" using *(2) by (simp add: word_le_nat_alt word_less_nat_alt)
    with *(1) bit [of "of_nat i"] u show "bit_at ?bits i" by simp
  next
    fix e assume *: "\<forall>i. ?a \<le> i \<and> i < ?b \<longrightarrow> bit_at ?bits i" "e \<in> {a ..< b}"
    then have "bit_at ?bits (unat e)" by (simp add: word_le_nat_alt word_less_nat_alt)
    with bit show "vec_map s e \<noteq> None" by simp
  qed
  show ?thesis
  proof (cases "\<forall>i. ?a \<le> i \<and> i < ?b \<longrightarrow> bit_at ?bits i")
    case True
    have "map (\<lambda>i. the (slot_value ?bits ?data i)) [?a ..< ?b] = map (\<lambda>e. the (vec_map s e)) (raw_range a b)"
      by (rule nth_equalityI)
        (use unat_of_nat_below [of _ b] in \<open>auto simp: raw_range_def vec_map_def to_primitive_def simp del: of_nat_add\<close>)
    with chunk_in_full [OF ok ab True] True show ?thesis
      unfolding all by (simp add: vec_get_chunk_def to_primitive_def)
  next
    case False
    have "\<not> list_all id (take (?b - ?a) (drop ?a ?bits))" if "?b \<le> length ?bits"
    proof
      assume *: "list_all id (take (?b - ?a) (drop ?a ?bits))"
      have "bit_at ?bits i" if i: "?a \<le> i" "i < ?b" for i
      proof -
        have "i - ?a < length (take (?b - ?a) (drop ?a ?bits))" using i \<open>?b \<le> length ?bits\<close> by simp
        then have "id (take (?b - ?a) (drop ?a ?bits) ! (i - ?a))" using * by (simp only: list_all_length)
        then show ?thesis using i \<open>?b \<le> length ?bits\<close> by (simp add: bit_at_iff)
      qed
      with False show False by blast
    qed
    then show ?thesis
      unfolding all using False ab
      by (simp add: vec_get_chunk_def chunk_in_def bits_get_range_def to_primitive_def)
  qed
qed

end
