(* ===== verification/Tree_Storage.thy ===== *)
theory Tree_Storage
  imports Storage_Spec Vec_Storage "HOL-Library.Finite_Map"
begin

section \<open>The tree storage\<close>

text \<open>
  \<open>src/storage/tree.rs\<close> and \<open>is_all_distinct_quadtime\<close> of \<open>src/util.rs\<close>: components in an ordered
  map. A \<open>BTreeMap\<close> is a finite map that is iterated in key order; a reference to a component is
  the key of its cell. The last section compares the tree with the vector storage.
\<close>

type_synonym ('w, 'v) tree_storage = "('w raw, 'v) fmap"

definition tree_get :: "'w::len raw \<Rightarrow> ('w, 'v) tree_storage \<Rightarrow> 'v option res" where
  "tree_get e t = Inr (fmlookup t e)"

definition tree_get_mut :: "'w::len raw \<Rightarrow> ('w, 'v) tree_storage \<Rightarrow> 'w raw option" where
  "tree_get_mut e t = map_option (\<lambda>_. e) (fmlookup t e)"

definition tree_set :: "'w::len raw \<Rightarrow> 'v option \<Rightarrow> ('w, 'v) tree_storage \<Rightarrow> ('v option \<times> ('w, 'v) tree_storage) res" where
  "tree_set e new t =
     Inr (case new of
            Some v \<Rightarrow> (fmlookup t e, fmupd e v t)
          | None \<Rightarrow> (fmlookup t e, fmdrop e t))"

definition tree_cardinality :: "('w::len, 'v) tree_storage \<Rightarrow> nat" where
  "tree_cardinality t = fcard (fmdom t)"

definition tree_entries :: "('w::len, 'v) tree_storage \<Rightarrow> ('w raw \<times> 'v) list" where
  "tree_entries t = map (\<lambda>e. (e, the (fmlookup t e))) (sorted_list_of_fset (fmdom t))"

definition tree_iter :: "('w::len, 'v) tree_storage \<Rightarrow> ('w raw \<times> 'v) list res" where
  "tree_iter t = Inr (tree_entries t)"

definition tree_iter_chunks :: "('w::len, 'v) tree_storage \<Rightarrow> ('w raw \<times> 'v list) list res" where
  "tree_iter_chunks t = bind_res (tree_iter t) (\<lambda>xs. Inr (map (\<lambda>(e, v). (e, [v])) xs))"

text \<open>\<open>util::is_all_distinct_quadtime\<close>, as the loop is written.\<close>

fun is_all_distinct_quadtime :: "'a list \<Rightarrow> bool" where
  "is_all_distinct_quadtime [] = True"
| "is_all_distinct_quadtime (item # rest) =
     (if \<not> list_all (\<lambda>other. item = other) rest then False else is_all_distinct_quadtime rest)"

definition tree_ptrs :: "'w::len raw list \<Rightarrow> ('w, 'v) tree_storage \<Rightarrow> 'w raw option list" where
  "tree_ptrs es t = map (\<lambda>e. tree_get_mut e t) es"

definition tree_get_many_mut :: "'w::len raw list \<Rightarrow> ('w, 'v) tree_storage \<Rightarrow> 'w raw list option" where
  "tree_get_many_mut es t =
     (let ptrs = tree_ptrs es t in
      if \<not> is_all_distinct_quadtime ptrs then None
      else if list_ex (\<lambda>p. p = None) ptrs then None
      else Some (map the ptrs))"

definition tree_ops :: "('w::len raw, 'v, ('w, 'v) tree_storage) storage_ops" where
  "tree_ops = \<lparr>st_default = fmempty, st_get = tree_get, st_set = tree_set,
     st_cardinality = tree_cardinality, st_iter = tree_iter, st_iter_chunks = tree_iter_chunks\<rparr>"

subsection \<open>Partitions\<close>

record ('w, 'v) tree_partition =
  tp_data :: "('w, 'v) fmap"
  tp_lower :: "'w option"
  tp_upper :: "'w option"

definition tree_as_partition :: "('w::len, 'v) tree_storage \<Rightarrow> ('w raw, 'v) tree_partition" where
  "tree_as_partition t = \<lparr>tp_data = t, tp_lower = None, tp_upper = None\<rparr>"

definition in_bounds :: "('w::linorder, 'v) tree_partition \<Rightarrow> 'w \<Rightarrow> bool" where
  "in_bounds p e \<longleftrightarrow> (case tp_lower p of Some b \<Rightarrow> b \<le> e | None \<Rightarrow> True) \<and>
     (case tp_upper p of Some b \<Rightarrow> e < b | None \<Rightarrow> True)"

definition assert_bounds :: "('w::linorder, 'v) tree_partition \<Rightarrow> 'w \<Rightarrow> unit res" where
  "assert_bounds p e = assert_res OutsidePartition (in_bounds p e)"

definition tree_into_mut :: "'w::len raw \<Rightarrow> ('w raw, 'v) tree_partition \<Rightarrow> ('w raw \<times> 'v) option res" where
  "tree_into_mut e p = bind_res (assert_bounds p e) (\<lambda>_. Inr (map_option (\<lambda>v. (e, v)) (fmlookup (tp_data p) e)))"

definition tree_into_many_mut :: "'w::len raw list \<Rightarrow> ('w raw, 'v) tree_partition \<Rightarrow> 'w raw list option res" where
  "tree_into_many_mut es p =
     bind_res (fold_res (\<lambda>e _. assert_bounds p e) es ()) (\<lambda>_.
     let ptrs = tree_ptrs es (tp_data p) in
     Inr (if \<not> is_all_distinct_quadtime ptrs then None
          else if list_ex (\<lambda>p. p = None) ptrs then None
          else Some (map the ptrs)))"

text \<open>\<open>BTreeMap::range\<close> panics on a reversed range.\<close>

definition tree_into_iter_mut :: "('w::len raw, 'v) tree_partition \<Rightarrow> ('w raw \<times> 'v) list res" where
  "tree_into_iter_mut p =
     (if (case (tp_lower p, tp_upper p) of (Some l, Some u) \<Rightarrow> u < l | _ \<Rightarrow> False) then Inl IndexOutOfBounds
      else Inr (filter (\<lambda>(e, v). in_bounds p e) (tree_entries (tp_data p))))"

definition tree_split_out :: "'w::len raw \<Rightarrow> ('w raw, 'v) tree_partition
    \<Rightarrow> (('w raw, 'v) tree_partition \<times> ('w raw, 'v) tree_partition) res" where
  "tree_split_out e p =
     bind_res (assert_bounds p e) (\<lambda>_.
     Inr (p\<lparr>tp_upper := Some e\<rparr>, \<lparr>tp_data = tp_data p, tp_lower = Some e, tp_upper = tp_upper p\<rparr>))"

subsection \<open>The tree satisfies the contract\<close>

lemma set_sorted_list_of_fset: "set (sorted_list_of_fset S) = fset S"
  by (simp add: sorted_list_of_fset.rep_eq)

lemma tree_entries_spec:
  fixes t :: "('w::len, 'v) tree_storage"
  shows "entries_of (fmlookup t) (tree_entries t)"
proof -
  have "fset (fmdom t) = dom (fmlookup t)" by (simp add: fmdom.rep_eq)
  then have "tree_entries t = map (\<lambda>e. (e, the (fmlookup t e))) (sorted_list_of_set (dom (fmlookup t)))"
    by (simp add: tree_entries_def sorted_list_of_fset.rep_eq)
  then show ?thesis using entries_of_sorted_dom [of "fmlookup t"] by simp
qed

lemma chunks_entries_single: "chunks_entries (map (\<lambda>(e, v). (e, [v])) xs) = (xs :: ('w::len raw \<times> 'v) list)"
  by (induction xs) (auto simp: chunks_entries_def chunk_entries_def)

interpretation tree_st: storage "tree_ops :: ('w::len raw, 'v, ('w, 'v) tree_storage) storage_ops"
    "\<lambda>_. True" fmlookup
proof unfold_locales
  fix t :: "('w, 'v) tree_storage"
  show "\<exists>xs. st_iter tree_ops t = Inr xs \<and> entries_of (fmlookup t) xs"
    by (simp add: tree_ops_def tree_iter_def tree_entries_spec)
  show "\<exists>cs. st_iter_chunks tree_ops t = Inr cs \<and>
      st_iter tree_ops t = Inr (chunks_entries cs) \<and> (\<forall>(e, vs) \<in> set cs. vs \<noteq> [])"
    by (auto simp: tree_ops_def tree_iter_chunks_def tree_iter_def chunks_entries_single)
  show "st_cardinality tree_ops t = card (dom (fmlookup t))"
    by (simp add: tree_ops_def tree_cardinality_def fcard.rep_eq fmdom.rep_eq)
qed (auto simp: tree_ops_def tree_get_def tree_set_def fmfilter_alt_defs fun_eq_iff split: option.splits)

subsection \<open>Tree partitions\<close>

definition tp_map :: "('w::linorder, 'v) tree_partition \<Rightarrow> 'w \<rightharpoonup> 'v" where
  "tp_map p = fmlookup (tp_data p) |` {e. in_bounds p e}"

definition tp_ok :: "('w::linorder, 'v) tree_partition \<Rightarrow> bool" where
  "tp_ok p \<longleftrightarrow> (case (tp_lower p, tp_upper p) of (Some l, Some u) \<Rightarrow> l \<le> u | _ \<Rightarrow> True)"

lemma tree_split_out_outcome:
  assumes "tp_ok p" and "tree_split_out e p = Inr (l, r)"
  shows "tp_ok l \<and> tp_ok r \<and> tp_map l = tp_map p |` {..< e} \<and> tp_map r = tp_map p |` {e ..}"
proof -
  from assms(2) have e: "in_bounds p e" and lr: "l = p\<lparr>tp_upper := Some e\<rparr>"
    "r = \<lparr>tp_data = tp_data p, tp_lower = Some e, tp_upper = tp_upper p\<rparr>"
    by (auto simp: tree_split_out_def assert_bounds_def)
  have "in_bounds l x \<longleftrightarrow> in_bounds p x \<and> x < e" "in_bounds r x \<longleftrightarrow> in_bounds p x \<and> e \<le> x" for x
    using e unfolding lr in_bounds_def by (auto split: option.splits)
  moreover have "tp_ok l" "tp_ok r" using e unfolding lr tp_ok_def in_bounds_def by (auto split: option.splits)
  ultimately show ?thesis by (auto simp: tp_map_def lr restrict_map_def fun_eq_iff)
qed

lemma tree_into_iter_mut_outcome:
  assumes "tp_ok p"
  shows "\<exists>xs. tree_into_iter_mut p = Inr xs \<and> entries_of (tp_map p) xs"
proof -
  let ?xs = "filter (\<lambda>(e, v). in_bounds p e) (tree_entries (tp_data p))"
  have spec: "entries_of (fmlookup (tp_data p)) (tree_entries (tp_data p))" by (rule tree_entries_spec)
  have keys: "map fst ?xs = filter (in_bounds p) (map fst (tree_entries (tp_data p)))"
    by (simp add: filter_map comp_def case_prod_unfold)
  have "sorted_wrt (<) (map fst ?xs)" unfolding keys using spec by (simp add: entries_of_def sorted_wrt_filter)
  moreover have "map_of (filter (\<lambda>(e, v). in_bounds p e) xs) e = (map_of xs |` {e. in_bounds p e}) e" for xs :: "('a raw \<times> 'b) list" and e
    by (induction xs) (auto simp: restrict_map_def)
  ultimately have "entries_of (tp_map p) ?xs" using spec by (auto simp: entries_of_def tp_map_def)
  moreover have "tree_into_iter_mut p = Inr ?xs"
    using assms by (auto simp: tree_into_iter_mut_def tp_ok_def split: option.splits)
  ultimately show ?thesis by blast
qed

subsection \<open>The distinctness check\<close>

text \<open>The check compares for equality, so it accepts exactly the lists of equal items.\<close>

lemma is_all_distinct_quadtime_iff: "is_all_distinct_quadtime xs \<longleftrightarrow> (\<forall>x \<in> set xs. \<forall>y \<in> set xs. x = y)"
  by (induction xs) (auto simp: list_all_iff)

lemma tree_get_many_mut_outcome:
  assumes "\<forall>e \<in> set es. fmlookup t e \<noteq> None"
  shows "tree_get_many_mut es t = (if \<forall>x \<in> set es. \<forall>y \<in> set es. x = y then Some es else None)"
proof -
  have ptrs: "tree_ptrs es t = map Some es"
    using assms by (auto simp: tree_ptrs_def tree_get_mut_def)
  show ?thesis
    by (auto simp: tree_get_many_mut_def Let_def ptrs is_all_distinct_quadtime_iff list_ex_iff comp_def)
qed

subsection \<open>Properties of the storages\<close>

text \<open>
  C21. Storages are maps. Every program of reads, writes, removals, counts and iterations gives the
  same results on the vector storage and on the tree storage: those of a partial map from entities to
  components. In particular no such program panics or reads uninitialized memory.
\<close>

theorem storages_refine_map:
  fixes ps :: "('w::len raw, 'v) storage_op list"
  assumes "list_all op_valid ps"
  shows "run_storage vec_ops ps vec_default = Inr (run_spec ps Map.empty) \<and>
         run_storage tree_ops ps fmempty = Inr (run_spec ps Map.empty)"
proof -
  have d: "st_default (vec_ops :: ('w raw, 'v, 'v vec_storage) storage_ops) = vec_default"
    "st_default (tree_ops :: ('w raw, 'v, ('w, 'v) tree_storage) storage_ops) = fmempty"
    by (simp_all add: vec_ops_def tree_ops_def)
  have "vec_inv TYPE('w) (vec_default :: 'v vec_storage)" "(vec_map (vec_default :: 'v vec_storage) :: 'w raw \<rightharpoonup> 'v) = Map.empty"
    using vec_st.default [where 'w = 'w and 'v = 'v] unfolding d by auto
  moreover have "fmlookup (fmempty :: ('w, 'v) tree_storage) = Map.empty" by (rule ext) simp
  ultimately show ?thesis
    using vec_st.run_refines [OF _ assms, of vec_default] tree_st.run_refines [OF _ assms, of fmempty] by simp
qed

theorem storages_refine_map_witness:
  "run_storage vec_ops [Set 2 (Some ''a''), Set 5 (Some ''b''), Set 2 None, Iter, Cardinality] vec_default =
     run_storage (tree_ops :: (16 raw, string, (16, string) tree_storage) storage_ops)
       [Set 2 (Some ''a''), Set 5 (Some ''b''), Set 2 None, Iter, Cardinality] fmempty"
proof -
  have "list_all op_valid [Set (2 :: 16 raw) (Some ''a''), Set 5 (Some ''b''), Set 2 None, Iter, Cardinality]" by simp
  from storages_refine_map [OF this] show ?thesis by (elim conjE) (simp only:)
qed

text \<open>
  C22. Chunks are exact. The chunk iterator of the vector storage returns; none of its slices is
  empty, and laid out from their first entities they list exactly the present components, in entity
  order. A range of entities is available as one chunk exactly when all of it is present.
\<close>

theorem vec_chunks_exact:
  fixes s :: "'v vec_storage"
  assumes inv: "vec_inv TYPE('w::len) s" and ab: "a < (b :: 'w raw)"
  shows "(\<exists>cs. vec_iter_chunks s = Inr cs \<and> (\<forall>(e, vs) \<in> set cs. vs \<noteq> []) \<and>
            entries_of (vec_map s :: 'w raw \<rightharpoonup> 'v) (chunks_entries cs)) \<and>
         vec_get_chunk a b s =
            Inr (if \<forall>e \<in> {a ..< b}. vec_map s e \<noteq> None
                 then Some (map (\<lambda>e. the (vec_map s e)) (raw_range a b)) else None)"
proof
  obtain cs where cs: "st_iter_chunks (vec_ops :: ('w raw, 'v, 'v vec_storage) storage_ops) s = Inr cs"
    "st_iter (vec_ops :: ('w raw, 'v, 'v vec_storage) storage_ops) s = Inr (chunks_entries cs)"
    "\<forall>(e, vs) \<in> set cs. vs \<noteq> []" using vec_st.iter_chunks [OF inv] by blast
  with vec_st.iter [OF inv] show "\<exists>cs. vec_iter_chunks s = Inr cs \<and> (\<forall>(e, vs) \<in> set cs. vs \<noteq> []) \<and>
      entries_of (vec_map s :: 'w raw \<rightharpoonup> 'v) (chunks_entries cs)"
    by (auto simp: vec_ops_def)
  show "vec_get_chunk a b s = Inr (if \<forall>e \<in> {a ..< b}. vec_map s e \<noteq> None
      then Some (map (\<lambda>e. the (vec_map s e)) (raw_range a b)) else None)"
    by (rule vec_get_chunk_outcome [OF inv ab])
qed

text \<open>The vector storage of the witnesses: components for the entities 1, 2 and 4.\<close>

definition demo_vec :: "nat vec_storage" where
  "demo_vec = \<lparr>vs_cardinality = 3, vs_bits = [False, True, True, False, True],
     vs_data = [None, Some 10, Some 20, None, Some 40]\<rparr>"

lemma demo_vec_inv: "vec_inv TYPE(16) demo_vec"
proof -
  have "slots_ok (vs_bits demo_vec) (vs_data demo_vec)" unfolding slots_ok_def by code_simp
  moreover have "vs_cardinality demo_vec = length (iter_ones (vs_bits demo_vec))" "\<not> bit_at (vs_bits demo_vec) 0"
    by code_simp+
  ultimately show ?thesis by (simp add: vec_inv_def) (simp add: demo_vec_def)
qed

theorem vec_chunks_exact_witness:
  "(\<exists>cs. vec_iter_chunks demo_vec = Inr cs \<and> (\<forall>(e, vs) \<in> set cs. vs \<noteq> []) \<and>
      entries_of (vec_map demo_vec :: 16 raw \<rightharpoonup> nat) (chunks_entries cs)) \<and>
   vec_iter_chunks demo_vec = Inr [(1 :: 16 raw, [10, 20]), (4, [40])] \<and>
   (1 :: 16 raw) < 3"
  using vec_chunks_exact [OF demo_vec_inv, of 1 3]
proof (intro conjI)
  show "vec_iter_chunks demo_vec = Inr [(1 :: 16 raw, [10, 20]), (4, [40])]" by code_simp
qed simp_all

text \<open>
  C23. Splitting separates. When a partition of the vector storage is split at an entity, both halves
  are well formed, the left one has exactly the components below the entity and the right one those
  from it on; so no component is reachable from both.
\<close>

theorem vec_split_separates:
  fixes e e' e'' :: "'w::len raw" and p :: "'v vec_partition"
  assumes "vp_ok TYPE('w) p" and "vec_split_out e p = Inr (l, r)"
  shows "vp_ok TYPE('w) l \<and> vp_ok TYPE('w) r \<and>
     (vp_map l :: 'w raw \<rightharpoonup> 'v) = vp_map p |` {..< e} \<and> (vp_map r :: 'w raw \<rightharpoonup> 'v) = vp_map p |` {e ..} \<and>
     (vec_into_mut e' l = Inr (Some lref) \<longrightarrow> vec_into_mut e'' r = Inr (Some rref) \<longrightarrow> fst lref \<noteq> fst rref)"
proof -
  have off: "vp_offset p \<le> to_primitive e"
    using assms(2) by (auto simp: vec_split_out_def not_less split: if_splits)
  note out = vec_split_out_outcome [OF assms(1) off assms(2)]
  have "fst lref \<noteq> fst rref"
    if l: "vec_into_mut e' l = Inr (Some lref)" and r: "vec_into_mut e'' r = Inr (Some rref)"
  proof -
    have ol: "vp_offset l \<le> to_primitive e'" and or: "vp_offset r \<le> to_primitive e''"
      using l r vec_into_mut_outside [of e' l] vec_into_mut_outside [of e'' r] by (auto simp: not_less [symmetric])
    have "vp_map l e' \<noteq> None" "fst lref = to_primitive e'"
      using l vec_into_mut_outcome [OF _ ol] out by auto
    moreover have "vp_map r e'' \<noteq> None" "fst rref = to_primitive e''"
      using r vec_into_mut_outcome [OF _ or] out by auto
    ultimately have "e' < e" "e \<le> e''" using out by (auto simp: restrict_map_def split: if_splits)
    then show ?thesis using \<open>fst lref = to_primitive e'\<close> \<open>fst rref = to_primitive e''\<close>
      by (simp add: to_primitive_inj)
  qed
  with out show ?thesis by blast
qed

theorem vec_split_separates_witness:
  "\<exists>l r. vec_split_out (3 :: 16 raw) (vec_as_partition demo_vec) = Inr (l, r) \<and>
     (vp_map l :: 16 raw \<rightharpoonup> nat) = vp_map (vec_as_partition demo_vec) |` {..< 3}"
proof -
  have "\<exists>lr. vec_split_out (3 :: 16 raw) (vec_as_partition demo_vec) = Inr lr"
    by (subst vec_split_out_returns) code_simp+
  then obtain l r where lr: "vec_split_out (3 :: 16 raw) (vec_as_partition demo_vec) = Inr (l, r)" by auto
  from vec_split_separates [OF vec_as_partition_ok(1) [OF demo_vec_inv] lr] lr show ?thesis by blast
qed

text \<open>
  C24. Several mutable references at once never alias in the vector storage: they are handed out
  exactly when all entities are distinct and present, one to the slot of each.
\<close>

theorem vec_get_many_mut_distinct:
  fixes es :: "'w::len raw list"
  assumes "vec_inv TYPE('w) s"
  shows "vec_get_many_mut es s =
     Inr (if distinct es \<and> (\<forall>e \<in> set es. vec_map s e \<noteq> None) then Some (map to_primitive es) else None)"
  by (rule vec_get_many_mut_outcome) (use assms in \<open>simp add: vec_inv_def\<close>)

theorem vec_get_many_mut_distinct_witness:
  "vec_get_many_mut [4 :: 16 raw, 1] demo_vec =
     Inr (if distinct [4 :: 16 raw, 1] \<and> (\<forall>e \<in> set [4 :: 16 raw, 1]. vec_map demo_vec e \<noteq> None)
          then Some [4, 1] else None)"
  using vec_get_many_mut_distinct [OF demo_vec_inv, of "[4, 1]"] by (simp add: to_primitive_def)

text \<open>
  C25. In the tree storage they do alias. The distinctness check accepts exactly lists of equal
  pointers: two present, different entities are refused, and one present entity asked for twice
  yields two mutable references to the same component.
\<close>

theorem tree_get_many_mut_aliases:
  assumes "fmlookup t a \<noteq> None" and "fmlookup t b \<noteq> None" and "a \<noteq> b"
  shows "tree_get_many_mut [a, b] t = None \<and> tree_get_many_mut [a, a] t = Some [a, a]"
  using assms by (simp add: tree_get_many_mut_outcome)

theorem tree_get_many_mut_aliases_witness:
  "tree_get_many_mut [1 :: 16 raw, 2] (fmupd 1 ''x'' (fmupd 2 ''y'' fmempty)) = None \<and>
   tree_get_many_mut [1 :: 16 raw, 1] (fmupd 1 ''x'' (fmupd 2 ''y'' fmempty)) = Some [1, 1]"
  by (rule tree_get_many_mut_aliases) simp_all


end
