(* ===== verification/Discrim.thy ===== *)
theory Discrim
  imports Prelude
begin

section \<open>Discriminants and the maps indexed by them\<close>

text \<open>
  \<open>src/comp/discrim.rs\<close> and the conversions that \<open>codegen/src/discrim.rs\<close> derives. A discriminant
  type is given by its conversions \<open>into_usize\<close> (\<open>iu\<close>) and \<open>from_usize\<close> (\<open>fu\<close>, which may panic);
  \<open>usize\<close> is \<open>nat\<close> here, since every value is an index of a vector. A mutable reference to a value
  of a map is the position of its slot. The four implementations of \<open>FullMap\<close> are the linear, the
  sorted, the bounded and the array map; their common contract is the locale \<open>full_map\<close>.
\<close>

subsection \<open>Splitting a map into references\<close>

text \<open>
  \<open>split_mut_array\<close>: \<open>getter\<close> gives the reference for a key, \<open>transform\<close> what the caller makes of
  it, compared by pointer. \<open>seen\<close> are the keys before position \<open>i\<close> and \<open>array\<close> the results so far.
\<close>

fun split_mut_loop :: "(nat \<Rightarrow> 'r option res) \<Rightarrow> (nat \<Rightarrow> 'r \<Rightarrow> 'u res) \<Rightarrow> (nat \<Rightarrow> panic) \<Rightarrow>
    nat list \<Rightarrow> 'u list \<Rightarrow> nat list \<Rightarrow> 'u list res" where
  "split_mut_loop getter transform on_missing seen array [] = Inr array"
| "split_mut_loop getter transform on_missing seen array (key # keys) =
     bind_res (assert_res DuplicateKey (\<not> list_ex (\<lambda>item. item = key) seen)) (\<lambda>_.
     bind_res (getter key) (\<lambda>found.
     bind_res (case found of
                 Some value \<Rightarrow> transform (length seen) value
               | None \<Rightarrow> Inl (on_missing (length seen))) (\<lambda>value.
     bind_res (assert_res DuplicateKey (\<not> list_ex (\<lambda>prev. prev = value) array)) (\<lambda>_.
     split_mut_loop getter transform on_missing (seen @ [key]) (array @ [value]) keys))))"

definition split_mut_array :: "(nat \<Rightarrow> 'r option res) \<Rightarrow> nat list \<Rightarrow> (nat \<Rightarrow> 'r \<Rightarrow> 'u res) \<Rightarrow>
    (nat \<Rightarrow> panic) \<Rightarrow> 'u list res" where
  "split_mut_array getter keys transform on_missing = split_mut_loop getter transform on_missing [] [] keys"

subsection \<open>Partial sets: \<open>Set\<close> and \<open>Mapped\<close> for vectors and arrays\<close>

text \<open>The keys of the result are positions in the set.\<close>

definition set_map :: "('d \<Rightarrow> 'u) \<Rightarrow> 'd list \<Rightarrow> ('d \<times> 'u) list" where
  "set_map func ds = map (\<lambda>discrim. (discrim, func discrim)) ds"

definition mapped_get_discrim :: "nat \<Rightarrow> ('d \<times> 'v) list \<Rightarrow> 'd option" where
  "mapped_get_discrim key m = map_option fst (list_get m key)"

definition mapped_get_by :: "nat \<Rightarrow> ('d \<times> 'v) list \<Rightarrow> 'v option" where
  "mapped_get_by key m = map_option snd (list_get m key)"

definition mapped_get_mut_by :: "nat \<Rightarrow> ('d \<times> 'v) list \<Rightarrow> nat option" where
  "mapped_get_mut_by key m = map_option (\<lambda>_. key) (list_get m key)"

definition mapped_get_mut_array_by :: "nat list \<Rightarrow> ('d \<times> 'v) list \<Rightarrow> nat list res" where
  "mapped_get_mut_array_by keys m =
     split_mut_array (\<lambda>k. Inr (mapped_get_mut_by k m)) keys (\<lambda>_ slot. Inr slot) (\<lambda>_. MissingKey)"

definition mapped_iter :: "('d \<times> 'v) list \<Rightarrow> (nat \<times> 'd \<times> 'v) list" where
  "mapped_iter m = map (\<lambda>(key, discrim, value). (key, discrim, value)) (zip [0 ..< length m] m)"

subsection \<open>\<open>LinearVecMap\<close>\<close>

definition linear_from_iter :: "('d \<times> 't) list \<Rightarrow> ('d \<times> 't) list res" where
  "linear_from_iter xs = Inr xs"

definition linear_position :: "'d \<Rightarrow> ('d \<times> 't) list \<Rightarrow> nat option" where
  "linear_position key m = position key (map fst m)"

definition linear_get_by :: "'d \<Rightarrow> ('d \<times> 't) list \<Rightarrow> 't option" where
  "linear_get_by key m = map_option snd (find (\<lambda>(d, _). d = key) m)"

definition linear_get_mut_by :: "'d \<Rightarrow> ('d \<times> 't) list \<Rightarrow> nat option" where
  "linear_get_mut_by key m = linear_position key m"

text \<open>The indices are looked up for all keys before any reference is made.\<close>

fun key_indices :: "('d \<Rightarrow> nat option) \<Rightarrow> 'd list \<Rightarrow> nat list res" where
  "key_indices pos [] = Inr []"
| "key_indices pos (key # keys) =
     bind_res (expect MissingKey (pos key)) (\<lambda>i. bind_res (key_indices pos keys) (\<lambda>is. Inr (i # is)))"

definition slot_ref :: "'a list \<Rightarrow> nat \<Rightarrow> nat option res" where
  "slot_ref xs i = Inr (map_option (\<lambda>_. i) (list_get xs i))"

definition linear_get_mut_array_by :: "'d list \<Rightarrow> ('d \<times> 't) list \<Rightarrow> nat list res" where
  "linear_get_mut_array_by keys m =
     bind_res (key_indices (\<lambda>key. linear_position key m) keys) (\<lambda>indices.
     split_mut_array (slot_ref m) indices (\<lambda>_ slot. Inr slot) (\<lambda>_. Unreachable))"

definition linear_iter_mapped :: "('d \<times> 't) list \<Rightarrow> ('d \<times> 'd \<times> 't) list res" where
  "linear_iter_mapped m = Inr (map (\<lambda>(discrim, value). (discrim, discrim, value)) m)"

definition linear_into_iter_mapped :: "('d \<times> 't) list \<Rightarrow> ('d \<times> 't) list res" where
  "linear_into_iter_mapped m = Inr m"

definition linear_map_ref :: "('t \<Rightarrow> 'u) \<Rightarrow> ('d \<times> 't) list \<Rightarrow> ('d \<times> 'u) list" where
  "linear_map_ref f m = map (\<lambda>(d, t). (d, f t)) m"

definition linear_get_by_or_insert :: "'d \<Rightarrow> 't \<Rightarrow> ('d \<times> 't) list \<Rightarrow> (nat \<times> ('d \<times> 't) list) res" where
  "linear_get_by_or_insert discrim new m =
     (case linear_position discrim m of
        Some i \<Rightarrow> Inr (i, m)
      | None \<Rightarrow> Inr (length m, m @ [(discrim, new)]))"

text \<open>
  The first loop of \<open>get_by_or_insert_array\<close>, shared by the four maps: each discriminant is looked
  up or inserted in the map the previous ones left.
\<close>

fun insert_indices :: "('d \<Rightarrow> 'm \<Rightarrow> (nat \<times> 'm) res) \<Rightarrow> 'd list \<Rightarrow> 'm \<Rightarrow> (nat list \<times> 'm) res" where
  "insert_indices ins [] m = Inr ([], m)"
| "insert_indices ins (d # ds) m =
     bind_res (ins d m) (\<lambda>(i, m').
     bind_res (insert_indices ins ds m') (\<lambda>(is, m''). Inr (i # is, m'')))"

definition linear_get_by_or_insert_array :: "'d list \<Rightarrow> ('d \<Rightarrow> 't) \<Rightarrow> ('d \<Rightarrow> nat \<Rightarrow> 'u res) \<Rightarrow>
    ('d \<times> 't) list \<Rightarrow> ('u list \<times> ('d \<times> 't) list) res" where
  "linear_get_by_or_insert_array discrims inserter transform m =
     bind_res (insert_indices (\<lambda>d. linear_get_by_or_insert d (inserter d)) discrims m) (\<lambda>(indices, m').
     bind_res (split_mut_array (slot_ref m') indices (\<lambda>_ slot. transform (fst (m' ! slot)) slot) (\<lambda>_. Unreachable))
       (\<lambda>refs. Inr (refs, m')))"

subsection \<open>\<open>SortedVecMap\<close>\<close>

text \<open>
  \<open>binary_search_by_key\<close> on a vector that is sorted by the key: the position of the key, or the
  position where it has to be inserted.
\<close>

definition binary_search_by_key :: "nat \<Rightarrow> ('a \<Rightarrow> nat) \<Rightarrow> 'a list \<Rightarrow> nat + nat" where
  "binary_search_by_key k f xs =
     (let i = length (takeWhile (\<lambda>x. f x < k) xs) in
      if i < length xs \<and> f (xs ! i) = k then Inr i else Inl i)"

definition sorted_from_iter :: "('d \<Rightarrow> nat) \<Rightarrow> ('d \<times> 't) list \<Rightarrow> ('d \<times> 't) list res" where
  "sorted_from_iter iu xs = Inr (sort_key (\<lambda>(d, _). iu d) xs)"

definition sorted_search :: "('d \<Rightarrow> nat) \<Rightarrow> 'd \<Rightarrow> ('d \<times> 't) list \<Rightarrow> nat + nat" where
  "sorted_search iu key m = binary_search_by_key (iu key) (\<lambda>(d, _). iu d) m"

definition sorted_get_by :: "('d \<Rightarrow> nat) \<Rightarrow> 'd \<Rightarrow> ('d \<times> 't) list \<Rightarrow> 't option" where
  "sorted_get_by iu key m =
     (case sorted_search iu key m of Inr i \<Rightarrow> Some (snd (m ! i)) | Inl _ \<Rightarrow> None)"

definition sorted_get_mut_by :: "('d \<Rightarrow> nat) \<Rightarrow> 'd \<Rightarrow> ('d \<times> 't) list \<Rightarrow> nat option" where
  "sorted_get_mut_by iu key m = (case sorted_search iu key m of Inr i \<Rightarrow> Some i | Inl _ \<Rightarrow> None)"

definition sorted_get_mut_array_by :: "('d \<Rightarrow> nat) \<Rightarrow> 'd list \<Rightarrow> ('d \<times> 't) list \<Rightarrow> nat list res" where
  "sorted_get_mut_array_by iu keys m =
     bind_res (key_indices (\<lambda>key. sorted_get_mut_by iu key m) keys) (\<lambda>indices.
     split_mut_array (slot_ref m) indices (\<lambda>_ slot. Inr slot) (\<lambda>_. Unreachable))"

definition sorted_iter_mapped :: "('d \<times> 't) list \<Rightarrow> ('d \<times> 'd \<times> 't) list res" where
  "sorted_iter_mapped m = Inr (map (\<lambda>(discrim, value). (discrim, discrim, value)) m)"

definition sorted_into_iter_mapped :: "('d \<times> 't) list \<Rightarrow> ('d \<times> 't) list res" where
  "sorted_into_iter_mapped m = Inr m"

definition sorted_map_ref :: "('t \<Rightarrow> 'u) \<Rightarrow> ('d \<times> 't) list \<Rightarrow> ('d \<times> 'u) list" where
  "sorted_map_ref f m = map (\<lambda>(d, t). (d, f t)) m"

text \<open>\<open>Vec::insert\<close>: the elements from the index on move up by one.\<close>

definition insert_at :: "nat \<Rightarrow> 'a \<Rightarrow> 'a list \<Rightarrow> 'a list" where
  "insert_at i x xs = take i xs @ x # drop i xs"

definition sorted_get_by_or_insert :: "('d \<Rightarrow> nat) \<Rightarrow> 'd \<Rightarrow> 't \<Rightarrow> ('d \<times> 't) list \<Rightarrow> (nat \<times> ('d \<times> 't) list) res" where
  "sorted_get_by_or_insert iu discrim new m =
     (case sorted_search iu discrim m of
        Inr i \<Rightarrow> Inr (i, m)
      | Inl i \<Rightarrow> Inr (i, insert_at i (discrim, new) m))"

definition sorted_get_by_or_insert_array :: "('d \<Rightarrow> nat) \<Rightarrow> 'd list \<Rightarrow> ('d \<Rightarrow> 't) \<Rightarrow> ('d \<Rightarrow> nat \<Rightarrow> 'u res) \<Rightarrow>
    ('d \<times> 't) list \<Rightarrow> ('u list \<times> ('d \<times> 't) list) res" where
  "sorted_get_by_or_insert_array iu discrims inserter transform m =
     bind_res (insert_indices (\<lambda>d. sorted_get_by_or_insert iu d (inserter d)) discrims m) (\<lambda>(indices, m').
     bind_res (split_mut_array (slot_ref m') indices (\<lambda>_ slot. transform (fst (m' ! slot)) slot) (\<lambda>_. Unreachable))
       (\<lambda>refs. Inr (refs, m')))"

subsection \<open>\<open>BoundedVecMap\<close> and \<open>ArrayMap\<close>\<close>

definition bounded_extend_one :: "('d \<Rightarrow> nat) \<Rightarrow> 'd \<times> 't \<Rightarrow> 't option list \<Rightarrow> 't option list" where
  "bounded_extend_one iu dt m =
     (let index = iu (fst dt); m' = (if length m < index + 1 then list_grow (index + 1) None m else m)
      in m'[index := Some (snd dt)])"

definition bounded_extend :: "('d \<Rightarrow> nat) \<Rightarrow> ('d \<times> 't) list \<Rightarrow> 't option list \<Rightarrow> 't option list" where
  "bounded_extend iu xs m = fold (bounded_extend_one iu) xs m"

text \<open>\<open>hint\<close> is the lower bound of the iterator's \<open>size_hint\<close>.\<close>

definition bounded_from_iter :: "('d \<Rightarrow> nat) \<Rightarrow> nat \<Rightarrow> ('d \<times> 't) list \<Rightarrow> 't option list res" where
  "bounded_from_iter iu hint xs = Inr (bounded_extend iu xs (replicate hint None))"

definition array_insert_new :: "('d \<Rightarrow> nat) \<Rightarrow> 'd \<times> 't \<Rightarrow> 't option list \<Rightarrow> 't option list res" where
  "array_insert_new iu dt m =
     (case list_get m (iu (fst dt)) of
        Some (Some _) \<Rightarrow> Inl DuplicateKey
      | Some None \<Rightarrow> Inr (m[iu (fst dt) := Some (snd dt)])
      | None \<Rightarrow> Inl DiscrimOutOfRange)"

definition array_from_iter :: "('d \<Rightarrow> nat) \<Rightarrow> nat \<Rightarrow> ('d \<times> 't) list \<Rightarrow> 't option list res" where
  "array_from_iter iu n xs = fold_res (array_insert_new iu) xs (replicate n None)"

text \<open>The accessors of both maps are the same code.\<close>

definition indexed_get_by :: "('d \<Rightarrow> nat) \<Rightarrow> 'd \<Rightarrow> 't option list \<Rightarrow> 't option" where
  "indexed_get_by iu key m = (case list_get m (iu key) of Some v \<Rightarrow> v | None \<Rightarrow> None)"

definition indexed_get_mut_by :: "('d \<Rightarrow> nat) \<Rightarrow> 'd \<Rightarrow> 't option list \<Rightarrow> nat option" where
  "indexed_get_mut_by iu key m = map_option (\<lambda>_. iu key) (indexed_get_by iu key m)"

definition present_ref :: "'t option list \<Rightarrow> nat \<Rightarrow> nat option res" where
  "present_ref m i = Inr (case list_get m i of Some (Some _) \<Rightarrow> Some i | _ \<Rightarrow> None)"

definition indexed_get_mut_array_by :: "('d \<Rightarrow> nat) \<Rightarrow> 'd list \<Rightarrow> 't option list \<Rightarrow> nat list res" where
  "indexed_get_mut_array_by iu keys m =
     split_mut_array (present_ref m) (map iu keys) (\<lambda>_ slot. Inr slot) (\<lambda>_. MissingKey)"

text \<open>\<open>from_usize\<close> is called before the value is tested, so also for the holes.\<close>

fun indexed_iter_from :: "(nat \<Rightarrow> 'd res) \<Rightarrow> nat \<Rightarrow> 't option list \<Rightarrow> ('d \<times> 'd \<times> 't) list res" where
  "indexed_iter_from fu i [] = Inr []"
| "indexed_iter_from fu i (value # m) =
     bind_res (fu i) (\<lambda>key. bind_res (fu i) (\<lambda>discrim.
     bind_res (indexed_iter_from fu (Suc i) m) (\<lambda>rest.
     Inr (case value of Some v \<Rightarrow> (key, discrim, v) # rest | None \<Rightarrow> rest))))"

definition indexed_iter_mapped :: "(nat \<Rightarrow> 'd res) \<Rightarrow> 't option list \<Rightarrow> ('d \<times> 'd \<times> 't) list res" where
  "indexed_iter_mapped fu m = indexed_iter_from fu 0 m"

fun indexed_into_iter_from :: "(nat \<Rightarrow> 'd res) \<Rightarrow> nat \<Rightarrow> 't option list \<Rightarrow> ('d \<times> 't) list res" where
  "indexed_into_iter_from fu i [] = Inr []"
| "indexed_into_iter_from fu i (value # m) =
     bind_res (fu i) (\<lambda>discrim.
     bind_res (indexed_into_iter_from fu (Suc i) m) (\<lambda>rest.
     Inr (case value of Some v \<Rightarrow> (discrim, v) # rest | None \<Rightarrow> rest)))"

definition indexed_into_iter_mapped :: "(nat \<Rightarrow> 'd res) \<Rightarrow> 't option list \<Rightarrow> ('d \<times> 't) list res" where
  "indexed_into_iter_mapped fu m = indexed_into_iter_from fu 0 m"

definition indexed_map_ref :: "('t \<Rightarrow> 'u) \<Rightarrow> 't option list \<Rightarrow> 'u option list" where
  "indexed_map_ref f m = map (map_option f) m"

text \<open>\<open>Option::get_or_insert_with\<close>.\<close>

definition get_or_insert_with :: "'t \<Rightarrow> 't option \<Rightarrow> 't option" where
  "get_or_insert_with new entry = (case entry of Some t \<Rightarrow> Some t | None \<Rightarrow> Some new)"

definition bounded_get_by_or_insert :: "('d \<Rightarrow> nat) \<Rightarrow> 'd \<Rightarrow> 't \<Rightarrow> 't option list \<Rightarrow> (nat \<times> 't option list) res" where
  "bounded_get_by_or_insert iu discrim new m =
     (let index = iu discrim; m' = (if length m \<le> index then list_grow (index + 1) None m else m)
      in Inr (index, m'[index := get_or_insert_with new (m' ! index)]))"

definition array_get_by_or_insert :: "('d \<Rightarrow> nat) \<Rightarrow> 'd \<Rightarrow> 't \<Rightarrow> 't option list \<Rightarrow> (nat \<times> 't option list) res" where
  "array_get_by_or_insert iu discrim new m =
     (case list_get m (iu discrim) of
        Some (Some _) \<Rightarrow> Inr (iu discrim, m)
      | Some None \<Rightarrow> Inr (iu discrim, m[iu discrim := Some new])
      | None \<Rightarrow> Inl DiscrimOutOfRange)"

text \<open>
  Both array operations of these maps pass \<open>from_usize(i)\<close> of the position \<open>i\<close> in the request, not
  of the slot, to \<open>transform\<close>.
\<close>

definition indexed_split :: "(nat \<Rightarrow> 'd res) \<Rightarrow> nat list \<Rightarrow> ('d \<Rightarrow> nat \<Rightarrow> 'u res) \<Rightarrow> 't option list \<Rightarrow> 'u list res" where
  "indexed_split fu indices transform m =
     split_mut_array (\<lambda>i. bind_res (expect IndexOutOfBounds (list_get m i)) (\<lambda>v. Inr (map_option (\<lambda>_. i) v)))
       indices (\<lambda>i slot. bind_res (fu i) (\<lambda>d. transform d slot)) (\<lambda>_. Unreachable)"

definition bounded_get_by_or_insert_array :: "('d \<Rightarrow> nat) \<Rightarrow> (nat \<Rightarrow> 'd res) \<Rightarrow> 'd list \<Rightarrow> ('d \<Rightarrow> 't) \<Rightarrow>
    ('d \<Rightarrow> nat \<Rightarrow> 'u res) \<Rightarrow> 't option list \<Rightarrow> ('u list \<times> 't option list) res" where
  "bounded_get_by_or_insert_array iu fu discrims inserter transform m =
     bind_res (insert_indices (\<lambda>d. bounded_get_by_or_insert iu d (inserter d)) discrims m) (\<lambda>(indices, m').
     bind_res (indexed_split fu indices transform m') (\<lambda>refs. Inr (refs, m')))"

definition array_get_by_or_insert_array :: "('d \<Rightarrow> nat) \<Rightarrow> (nat \<Rightarrow> 'd res) \<Rightarrow> 'd list \<Rightarrow> ('d \<Rightarrow> 't) \<Rightarrow>
    ('d \<Rightarrow> nat \<Rightarrow> 'u res) \<Rightarrow> 't option list \<Rightarrow> ('u list \<times> 't option list) res" where
  "array_get_by_or_insert_array iu fu discrims inserter transform m =
     bind_res (insert_indices (\<lambda>d. array_get_by_or_insert iu d (inserter d)) discrims m) (\<lambda>(indices, m').
     bind_res (indexed_split fu indices transform m') (\<lambda>refs. Inr (refs, m')))"

subsection \<open>Derived discriminants\<close>

text \<open>
  \<open>#[derive(Discrim)]\<close>: an enum converts to the ordinal of its variant; a structure with one field
  converts that field with \<open>xias\<close>, whose two conversions are parameters.
\<close>

definition enum_into_usize :: "'d list \<Rightarrow> 'd \<Rightarrow> nat" where
  "enum_into_usize variants d = (case position d variants of Some i \<Rightarrow> i | None \<Rightarrow> length variants)"

definition enum_from_usize :: "'d list \<Rightarrow> nat \<Rightarrow> 'd res" where
  "enum_from_usize variants n = expect InvalidDiscrim (list_get variants n)"

definition newtype_into_usize :: "('f \<Rightarrow> nat) \<Rightarrow> 'f \<Rightarrow> nat" where
  "newtype_into_usize to_usize field = to_usize field"

definition newtype_from_usize :: "(nat \<Rightarrow> 'f res) \<Rightarrow> nat \<Rightarrow> 'f res" where
  "newtype_from_usize of_usize n = bind_res (of_usize n) (\<lambda>transformed. Inr transformed)"

end
