(* ===== verification/Full_Map.thy ===== *)
theory Full_Map
  imports Discrim
begin

section \<open>The contract of the discriminant maps\<close>

text \<open>
  The laws of the traits \<open>Discrim\<close>, \<open>Mapped\<close> and \<open>FullMap\<close> as locales, and the proof that the four
  maps of \<open>src/comp/discrim.rs\<close> satisfy them. What a map keeps is a partial map from discriminants
  to values; a reference is a slot, and writing through it updates the value of its discriminant.
\<close>

record ('d, 't, 'm) full_map_ops =
  fm_from_iter :: "('d \<times> 't) list \<Rightarrow> 'm res"
  fm_get_by :: "'d \<Rightarrow> 'm \<Rightarrow> 't option"
  fm_get_mut_by :: "'d \<Rightarrow> 'm \<Rightarrow> nat option"
  fm_write :: "nat \<Rightarrow> 't \<Rightarrow> 'm \<Rightarrow> 'm"
  fm_get_mut_array_by :: "'d list \<Rightarrow> 'm \<Rightarrow> nat list res"
  fm_iter_mapped :: "'m \<Rightarrow> ('d \<times> 'd \<times> 't) list res"
  fm_into_iter_mapped :: "'m \<Rightarrow> ('d \<times> 't) list res"
  fm_get_by_or_insert :: "'d \<Rightarrow> 't \<Rightarrow> 'm \<Rightarrow> (nat \<times> 'm) res"
  fm_get_by_or_insert_array :: "'d list \<Rightarrow> ('d \<Rightarrow> 't) \<Rightarrow> 'm \<Rightarrow> (nat list \<times> 'm) res"

definition vec_write :: "nat \<Rightarrow> 't \<Rightarrow> ('d \<times> 't) list \<Rightarrow> ('d \<times> 't) list" where
  "vec_write i t m = m[i := (fst (m ! i), t)]"

definition linear_ops :: "('d, 't, ('d \<times> 't) list) full_map_ops" where
  "linear_ops = \<lparr>fm_from_iter = linear_from_iter, fm_get_by = linear_get_by,
     fm_get_mut_by = linear_get_mut_by, fm_write = vec_write, fm_get_mut_array_by = linear_get_mut_array_by,
     fm_iter_mapped = linear_iter_mapped, fm_into_iter_mapped = linear_into_iter_mapped,
     fm_get_by_or_insert = linear_get_by_or_insert,
     fm_get_by_or_insert_array = (\<lambda>ds ins. linear_get_by_or_insert_array ds ins (\<lambda>_ slot. Inr slot))\<rparr>"

definition sorted_ops :: "('d \<Rightarrow> nat) \<Rightarrow> ('d, 't, ('d \<times> 't) list) full_map_ops" where
  "sorted_ops iu = \<lparr>fm_from_iter = sorted_from_iter iu, fm_get_by = sorted_get_by iu,
     fm_get_mut_by = sorted_get_mut_by iu, fm_write = vec_write, fm_get_mut_array_by = sorted_get_mut_array_by iu,
     fm_iter_mapped = sorted_iter_mapped, fm_into_iter_mapped = sorted_into_iter_mapped,
     fm_get_by_or_insert = sorted_get_by_or_insert iu,
     fm_get_by_or_insert_array = (\<lambda>ds ins. sorted_get_by_or_insert_array iu ds ins (\<lambda>_ slot. Inr slot))\<rparr>"

definition bounded_ops :: "('d \<Rightarrow> nat) \<Rightarrow> (nat \<Rightarrow> 'd res) \<Rightarrow> (nat \<Rightarrow> nat) \<Rightarrow> ('d, 't, 't option list) full_map_ops" where
  "bounded_ops iu fu hint = \<lparr>fm_from_iter = (\<lambda>xs. bounded_from_iter iu (hint (length xs)) xs),
     fm_get_by = indexed_get_by iu, fm_get_mut_by = indexed_get_mut_by iu, fm_write = (\<lambda>i t m. m[i := Some t]),
     fm_get_mut_array_by = indexed_get_mut_array_by iu,
     fm_iter_mapped = indexed_iter_mapped fu, fm_into_iter_mapped = indexed_into_iter_mapped fu,
     fm_get_by_or_insert = bounded_get_by_or_insert iu,
     fm_get_by_or_insert_array = (\<lambda>ds ins. bounded_get_by_or_insert_array iu fu ds ins (\<lambda>_ slot. Inr slot))\<rparr>"

definition array_ops :: "('d \<Rightarrow> nat) \<Rightarrow> (nat \<Rightarrow> 'd res) \<Rightarrow> nat \<Rightarrow> ('d, 't, 't option list) full_map_ops" where
  "array_ops iu fu n = \<lparr>fm_from_iter = array_from_iter iu n,
     fm_get_by = indexed_get_by iu, fm_get_mut_by = indexed_get_mut_by iu, fm_write = (\<lambda>i t m. m[i := Some t]),
     fm_get_mut_array_by = indexed_get_mut_array_by iu,
     fm_iter_mapped = indexed_iter_mapped fu, fm_into_iter_mapped = indexed_into_iter_mapped fu,
     fm_get_by_or_insert = array_get_by_or_insert iu,
     fm_get_by_or_insert_array = (\<lambda>ds ins. array_get_by_or_insert_array iu fu ds ins (\<lambda>_ slot. Inr slot))\<rparr>"

lemmas map_ops_defs = linear_ops_def sorted_ops_def bounded_ops_def array_ops_def

subsection \<open>The interfaces\<close>

text \<open>The trait \<open>Discrim\<close>: \<open>valid\<close> are the values of the type.\<close>

locale discrim =
  fixes valid :: "'d \<Rightarrow> bool" and iu :: "'d \<Rightarrow> nat" and fu :: "nat \<Rightarrow> 'd res"
  assumes fu_iu: "valid d \<Longrightarrow> fu (iu d) = Inr d"
    and fu_valid: "fu n = Inr d \<Longrightarrow> valid d \<and> iu d = n"
begin

lemma iu_eq_iff: "valid d \<Longrightarrow> valid e \<Longrightarrow> iu d = iu e \<longleftrightarrow> d = e"
  using fu_iu by (metis sum.inject(2))

lemma iu_inj_on: "Ball S valid \<Longrightarrow> inj_on iu S"
  by (intro inj_onI) (auto simp: iu_eq_iff)

lemma distinct_iu: "Ball (set ds) valid \<Longrightarrow> distinct (map iu ds) \<longleftrightarrow> distinct ds"
  using iu_inj_on [of "set ds"] by (auto simp: distinct_map)

end

text \<open>No gaps below a discriminant, as the maps indexed by \<open>into_usize\<close> need.\<close>

locale dense_discrim = discrim valid iu fu for valid :: "'d \<Rightarrow> bool" and iu :: "'d \<Rightarrow> nat" and fu :: "nat \<Rightarrow> 'd res" +
  assumes dense: "valid d \<Longrightarrow> n \<le> iu d \<Longrightarrow> \<exists>d'. fu n = Inr d'"
begin

lemma dense_count:
  assumes "Ball (set ds) valid" and "distinct ds" and "n < length ds"
  shows "\<exists>d. fu n = Inr d"
proof (rule ccontr)
  assume none: "\<nexists>d. fu n = Inr d"
  have "set (map iu ds) \<subseteq> {..<n}"
  proof
    fix x assume "x \<in> set (map iu ds)"
    then obtain d where "d \<in> set ds" and "x = iu d" by auto
    with dense [of d n] assms(1) none show "x \<in> {..<n}" by (meson lessThan_iff not_less)
  qed
  then have "card (set (map iu ds)) \<le> n" by (metis card_lessThan card_mono finite_lessThan)
  moreover have "card (set (map iu ds)) = length ds"
    using distinct_iu [OF assms(1)] assms(2) distinct_card [of "map iu ds"] by simp
  ultimately show False using assms(3) by simp
qed

end

locale finite_discrim = discrim valid iu fu for valid :: "'d \<Rightarrow> bool" and iu :: "'d \<Rightarrow> nat" and fu :: "nat \<Rightarrow> 'd res" +
  fixes n :: nat
  assumes covers: "(\<exists>d. fu i = Inr d) \<longleftrightarrow> i < n"
begin

lemma iu_bound: "valid d \<Longrightarrow> iu d < n"
  using covers fu_iu by blast

end

sublocale finite_discrim \<subseteq> dense_discrim
proof
  fix d i assume "valid d" and "i \<le> iu d"
  then show "\<exists>d'. fu i = Inr d'" using covers iu_bound by (meson le_less_trans)
qed

locale full_map =
  fixes ops :: "('d, 't, 'm) full_map_ops" and valid :: "'d \<Rightarrow> bool"
    and inv :: "'m \<Rightarrow> bool" and \<alpha> :: "'m \<Rightarrow> 'd \<rightharpoonup> 't"
  assumes from_iter: "distinct (map fst xs) \<Longrightarrow> Ball (fst ` set xs) valid \<Longrightarrow>
          \<exists>m. fm_from_iter ops xs = Inr m \<and> inv m \<and> \<alpha> m = map_of xs"
    and get_by: "inv m \<Longrightarrow> valid d \<Longrightarrow> fm_get_by ops d m = \<alpha> m d"
    and slot_none: "inv m \<Longrightarrow> valid d \<Longrightarrow> fm_get_mut_by ops d m = None \<longleftrightarrow> \<alpha> m d = None"
    and slot_inj: "inv m \<Longrightarrow> valid d \<Longrightarrow> valid e \<Longrightarrow> fm_get_mut_by ops d m = Some i \<Longrightarrow>
          fm_get_mut_by ops e m = Some i \<Longrightarrow> d = e"
    and slot_write: "inv m \<Longrightarrow> valid d \<Longrightarrow> fm_get_mut_by ops d m = Some i \<Longrightarrow>
          inv (fm_write ops i t m) \<and> \<alpha> (fm_write ops i t m) = (\<alpha> m)(d \<mapsto> t)"
    and get_mut_array_by: "inv m \<Longrightarrow> Ball (set ds) valid \<Longrightarrow>
          fm_get_mut_array_by ops ds m = Inr is \<longleftrightarrow>
            distinct ds \<and> map (\<lambda>d. fm_get_mut_by ops d m) ds = map Some is"
    and iter_mapped: "inv m \<Longrightarrow> \<exists>xs. fm_into_iter_mapped ops m = Inr xs \<and>
          fm_iter_mapped ops m = Inr (map (\<lambda>(d, t). (d, d, t)) xs) \<and> distinct (map fst xs) \<and> map_of xs = \<alpha> m"
    and get_by_or_insert: "inv m \<Longrightarrow> valid d \<Longrightarrow>
          \<exists>i m'. fm_get_by_or_insert ops d t m = Inr (i, m') \<and> inv m' \<and>
            \<alpha> m' = (if \<alpha> m d = None then (\<alpha> m)(d \<mapsto> t) else \<alpha> m) \<and> fm_get_mut_by ops d m' = Some i"

text \<open>
  A program over a map: look a discriminant up, insert it if it is missing, or write through its
  reference.
\<close>

datatype ('d, 't) map_op = Lookup 'd | Or_Insert 'd 't | Write 'd 't

primrec op_key :: "('d, 't) map_op \<Rightarrow> 'd" where
  "op_key (Lookup d) = d"
| "op_key (Or_Insert d t) = d"
| "op_key (Write d t) = d"

fun run_map_op :: "('d, 't, 'm) full_map_ops \<Rightarrow> ('d, 't) map_op \<Rightarrow> 'm \<Rightarrow> ('t option \<times> 'm) res" where
  "run_map_op ops (Lookup d) m = Inr (fm_get_by ops d m, m)"
| "run_map_op ops (Or_Insert d t) m =
     bind_res (fm_get_by_or_insert ops d t m) (\<lambda>(i, m'). Inr (fm_get_by ops d m', m'))"
| "run_map_op ops (Write d t) m =
     (case fm_get_mut_by ops d m of
        Some i \<Rightarrow> Inr (fm_get_by ops d m, fm_write ops i t m)
      | None \<Rightarrow> Inr (None, m))"

fun run_map :: "('d, 't, 'm) full_map_ops \<Rightarrow> ('d, 't) map_op list \<Rightarrow> 'm \<Rightarrow> 't option list res" where
  "run_map ops [] m = Inr []"
| "run_map ops (p # ps) m =
     bind_res (run_map_op ops p m) (\<lambda>(r, m'). bind_res (run_map ops ps m') (\<lambda>rs. Inr (r # rs)))"

text \<open>The reference, on the partial map itself.\<close>

fun spec_map_op :: "('d, 't) map_op \<Rightarrow> ('d \<rightharpoonup> 't) \<Rightarrow> 't option \<times> ('d \<rightharpoonup> 't)" where
  "spec_map_op (Lookup d) f = (f d, f)"
| "spec_map_op (Or_Insert d t) f =
     (case f d of None \<Rightarrow> (Some t, f(d \<mapsto> t)) | Some t' \<Rightarrow> (Some t', f))"
| "spec_map_op (Write d t) f = (case f d of None \<Rightarrow> (None, f) | Some t' \<Rightarrow> (Some t', f(d \<mapsto> t)))"

fun run_spec_map :: "('d, 't) map_op list \<Rightarrow> ('d \<rightharpoonup> 't) \<Rightarrow> 't option list" where
  "run_spec_map [] f = []"
| "run_spec_map (p # ps) f = (case spec_map_op p f of (r, f') \<Rightarrow> r # run_spec_map ps f')"

context full_map
begin

lemma run_map_op_refines:
  assumes "inv m" and "valid (op_key p)"
  shows "\<exists>m'. run_map_op ops p m = Inr (fst (spec_map_op p (\<alpha> m)), m') \<and> inv m' \<and>
           \<alpha> m' = snd (spec_map_op p (\<alpha> m))"
proof (cases p)
  case (Lookup d)
  with assms show ?thesis by (simp add: get_by)
next
  case (Or_Insert d t)
  with get_by_or_insert [of m d t] assms obtain i m' where
    ins: "fm_get_by_or_insert ops d t m = Inr (i, m')" "inv m'"
      "\<alpha> m' = (if \<alpha> m d = None then (\<alpha> m)(d \<mapsto> t) else \<alpha> m)" by auto
  have "fm_get_by ops d m' = \<alpha> m' d" using get_by [OF ins(2), of d] assms Or_Insert by simp
  with ins Or_Insert show ?thesis by (auto split: option.split)
next
  case (Write d t)
  with slot_none [of m d] slot_write [of m d _ t] get_by [of m d] assms show ?thesis
    by (auto split: option.split)
qed

lemma run_map_refines:
  "inv m \<Longrightarrow> list_all (\<lambda>p. valid (op_key p)) ps \<Longrightarrow> run_map ops ps m = Inr (run_spec_map ps (\<alpha> m))"
proof (induction ps arbitrary: m)
  case (Cons p ps)
  from run_map_op_refines [of m p] Cons.prems obtain m' where
    "run_map_op ops p m = Inr (fst (spec_map_op p (\<alpha> m)), m')" "inv m'" "\<alpha> m' = snd (spec_map_op p (\<alpha> m))"
    by auto
  with Cons show ?case by (simp add: case_prod_beta)
qed simp

text \<open>Building a map and running a program on it.\<close>

lemma program_refines:
  assumes "distinct (map fst xs)" and "Ball (fst ` set xs) valid" and "list_all (\<lambda>p. valid (op_key p)) ps"
  shows "bind_res (fm_from_iter ops xs) (run_map ops ps) = Inr (run_spec_map ps (map_of xs))"
  using from_iter [OF assms(1,2)] run_map_refines [OF _ assms(3)] by auto

lemma get_mut_array_by_distinct:
  assumes "inv m" and "Ball (set ds) valid" and "fm_get_mut_array_by ops ds m = Inr is"
  shows "distinct is" and "length is = length ds" and "\<forall>d \<in> set ds. \<alpha> m d \<noteq> None"
proof -
  have ds: "distinct ds" "map (\<lambda>d. fm_get_mut_by ops d m) ds = map Some is"
    using get_mut_array_by [OF assms(1,2)] assms(3) by auto
  then show len: "length is = length ds" by (metis length_map)
  show "\<forall>d \<in> set ds. \<alpha> m d \<noteq> None"
  proof
    fix d assume d: "d \<in> set ds"
    then have "fm_get_mut_by ops d m \<in> set (map Some is)" unfolding ds(2) [symmetric] by simp
    with d show "\<alpha> m d \<noteq> None" using slot_none [OF assms(1), of d] assms(2) by auto
  qed
  have "distinct (map (\<lambda>d. fm_get_mut_by ops d m) ds)"
  proof (subst distinct_map, intro conjI inj_onI ds(1))
    fix d e assume de: "d \<in> set ds" "e \<in> set ds" "fm_get_mut_by ops d m = fm_get_mut_by ops e m"
    then have "fm_get_mut_by ops d m \<in> set (map Some is)" unfolding ds(2) [symmetric] by simp
    with de slot_inj [OF assms(1), of d e] assms(2) show "d = e" by auto
  qed
  then show "distinct is" unfolding ds(2) by (simp add: distinct_map)
qed

end

text \<open>
  The lazily inserting array operation is right for a map whose slots stay where they are when another
  discriminant is inserted.
\<close>

locale stable_map = full_map +
  assumes stable: "inv m \<Longrightarrow> valid d \<Longrightarrow> valid e \<Longrightarrow> fm_get_by_or_insert ops d t m = Inr (i, m') \<Longrightarrow>
          fm_get_mut_by ops e m = Some j \<Longrightarrow> fm_get_mut_by ops e m' = Some j"
    and array_split: "inv m' \<Longrightarrow> Ball (set ds) valid \<Longrightarrow> distinct ds \<Longrightarrow>
          insert_indices (\<lambda>d. fm_get_by_or_insert ops d (ins d)) ds m = Inr (is, m') \<Longrightarrow>
          distinct is \<Longrightarrow> map (\<lambda>d. fm_get_mut_by ops d m') ds = map Some is \<Longrightarrow>
          fm_get_by_or_insert_array ops ds ins m = Inr (is, m')"
begin

lemma insert_indices_outcome:
  assumes "inv m" and "Ball (set ds) valid"
  shows "\<exists>is m'. insert_indices (\<lambda>d. fm_get_by_or_insert ops d (ins d)) ds m = Inr (is, m') \<and> inv m' \<and>
    \<alpha> m' = (\<lambda>d. if \<alpha> m d = None \<and> d \<in> set ds then Some (ins d) else \<alpha> m d) \<and>
    map (\<lambda>d. fm_get_mut_by ops d m') ds = map Some is \<and>
    (\<forall>e j. valid e \<longrightarrow> fm_get_mut_by ops e m = Some j \<longrightarrow> fm_get_mut_by ops e m' = Some j)"
  using assms
proof (induction ds arbitrary: m)
  case Nil
  then show ?case by auto
next
  case (Cons d ds)
  then have d: "valid d" "Ball (set ds) valid" by auto
  from get_by_or_insert [OF Cons.prems(1) d(1), of "ins d"] obtain i m1 where
    one: "fm_get_by_or_insert ops d (ins d) m = Inr (i, m1)" "inv m1"
      "\<alpha> m1 = (if \<alpha> m d = None then (\<alpha> m)(d \<mapsto> ins d) else \<alpha> m)" "fm_get_mut_by ops d m1 = Some i" by blast
  from Cons.IH [OF one(2) d(2)] obtain "is" m2 where
    rest: "insert_indices (\<lambda>d. fm_get_by_or_insert ops d (ins d)) ds m1 = Inr (is, m2)" "inv m2"
      "\<alpha> m2 = (\<lambda>d. if \<alpha> m1 d = None \<and> d \<in> set ds then Some (ins d) else \<alpha> m1 d)"
      "map (\<lambda>d. fm_get_mut_by ops d m2) ds = map Some is"
      "\<forall>e j. valid e \<longrightarrow> fm_get_mut_by ops e m1 = Some j \<longrightarrow> fm_get_mut_by ops e m2 = Some j" by blast
  have "\<alpha> m2 = (\<lambda>e. if \<alpha> m e = None \<and> e \<in> set (d # ds) then Some (ins e) else \<alpha> m e)"
    unfolding rest(3) one(3) by (auto simp: fun_eq_iff)
  moreover have "fm_get_mut_by ops d m2 = Some i" using rest(5) one(4) d(1) by blast
  moreover have "\<forall>e j. valid e \<longrightarrow> fm_get_mut_by ops e m = Some j \<longrightarrow> fm_get_mut_by ops e m2 = Some j"
    using stable [OF Cons.prems(1) d(1) _ one(1)] rest(5) by blast
  ultimately show ?case using one(1) rest by auto
qed

lemma or_insert_array_outcome:
  assumes "inv m" and "Ball (set ds) valid" and "distinct ds"
  shows "\<exists>is m'. fm_get_by_or_insert_array ops ds ins m = Inr (is, m') \<and> inv m' \<and>
    \<alpha> m' = (\<lambda>d. if \<alpha> m d = None \<and> d \<in> set ds then Some (ins d) else \<alpha> m d) \<and>
    map (\<lambda>d. fm_get_mut_by ops d m') ds = map Some is \<and> distinct is"
proof -
  from insert_indices_outcome [OF assms(1,2), of ins] obtain "is" m' where
    r: "insert_indices (\<lambda>d. fm_get_by_or_insert ops d (ins d)) ds m = Inr (is, m')" "inv m'"
      "\<alpha> m' = (\<lambda>d. if \<alpha> m d = None \<and> d \<in> set ds then Some (ins d) else \<alpha> m d)"
      "map (\<lambda>d. fm_get_mut_by ops d m') ds = map Some is" by blast
  have "fm_get_mut_array_by ops ds m' = Inr is"
    using get_mut_array_by [OF r(2) assms(2)] assms(3) r(4) by simp
  then have "distinct is" by (rule get_mut_array_by_distinct [OF r(2) assms(2)])
  with array_split [OF r(2) assms(2,3) r(1)] r show ?thesis by blast
qed

end

end
