(* ===== verification/Discrim_Maps.thy ===== *)
theory Discrim_Maps
  imports Full_Map
begin

section \<open>The four discriminant maps satisfy the contract\<close>

text \<open>
  Each implementation of \<open>FullMap\<close> in \<open>src/comp/discrim.rs\<close> is proved to satisfy \<open>full_map\<close>, for
  discriminants that satisfy \<open>discrim\<close> (the maps indexed by \<open>into_usize\<close> need \<open>dense_discrim\<close> or
  \<open>finite_discrim\<close>), and the locales are interpreted on the derived conversions. Three maps also
  satisfy \<open>stable_map\<close>; the sorted map moves its slots when it inserts.
\<close>

subsection \<open>Splitting\<close>

lemma split_mut_loop_slots:
  assumes "\<And>k. getter k = Inr (if P k then Some k else None)"
  shows "split_mut_loop getter (\<lambda>_ slot. Inr slot) om seen seen keys = Inr ys \<longleftrightarrow>
     ys = seen @ keys \<and> distinct keys \<and> set keys \<inter> set seen = {} \<and> Ball (set keys) P"
proof (induction keys arbitrary: seen)
  case (Cons k keys)
  note IH = Cons.IH [of "seen @ [k]"]
  show ?case
    by (cases "P k") (auto simp: IH assms [of k] list_ex_iff)
qed auto

lemma split_mut_array_slots:
  assumes "\<And>k. getter k = Inr (if P k then Some k else None)"
  shows "split_mut_array getter keys (\<lambda>_ slot. Inr slot) om = Inr ys \<longleftrightarrow>
     ys = keys \<and> distinct keys \<and> Ball (set keys) P"
  using split_mut_loop_slots [OF assms, of om "[]" keys ys] by (auto simp: split_mut_array_def)

text \<open>With references found for all keys and results that are the references themselves.\<close>

lemma split_mut_loop_ok:
  assumes "distinct (seen @ keys)" and "\<forall>k \<in> set keys. getter k = Inr (Some k)"
    and "\<forall>j < length keys. transform (length seen + j) (keys ! j) = Inr (keys ! j)"
  shows "split_mut_loop getter transform om seen seen keys = Inr (seen @ keys)"
  using assms
proof (induction keys arbitrary: seen)
  case (Cons k keys)
  have "split_mut_loop getter transform om (seen @ [k]) (seen @ [k]) keys = Inr ((seen @ [k]) @ keys)"
  proof (rule Cons.IH)
    show "\<forall>j < length keys. transform (length (seen @ [k]) + j) (keys ! j) = Inr (keys ! j)"
      using Cons.prems(3) by (auto simp: nth_Cons dest: spec [of _ "Suc _"])
  qed (use Cons.prems in auto)
  moreover have "transform (length seen) k = Inr k" using Cons.prems(3) by (auto dest: spec [of _ 0])
  ultimately show ?case using Cons.prems by (auto simp: list_ex_iff)
qed simp

lemma split_mut_array_ok:
  assumes "distinct keys" and "\<forall>k \<in> set keys. getter k = Inr (Some k)"
    and "\<forall>j < length keys. transform j (keys ! j) = Inr (keys ! j)"
  shows "split_mut_array getter keys transform om = Inr keys"
  using split_mut_loop_ok [of "[]" keys getter transform om] assms by (simp add: split_mut_array_def)

lemma slot_ref_eq: "slot_ref xs i = Inr (if i < length xs then Some i else None)"
  by (simp add: slot_ref_def list_get_def)

lemma present_ref_eq:
  "present_ref m i = Inr (if i < length m \<and> m ! i \<noteq> None then Some i else None)"
  by (auto simp: present_ref_def list_get_def split: option.split)

lemma key_indices_eq: "key_indices pos ks = Inr is \<longleftrightarrow> map pos ks = map Some is"
proof (induction ks arbitrary: "is")
  case (Cons k ks)
  show ?case
  proof (cases "is")
    case (Cons i is')
    then show ?thesis using Cons.IH by (cases "pos k") auto
  qed (cases "pos k"; auto)
qed auto

subsection \<open>Vectors of pairs\<close>

definition pairs_ok :: "('d \<Rightarrow> bool) \<Rightarrow> ('d \<times> 't) list \<Rightarrow> bool" where
  "pairs_ok valid m \<longleftrightarrow> distinct (map fst m) \<and> Ball (fst ` set m) valid"

lemma pairs_ok_map_of:
  assumes "pairs_ok valid m"
  shows "map_of m d = Some t \<longleftrightarrow> (\<exists>i < length m. m ! i = (d, t))"
  using assms by (auto simp: pairs_ok_def in_set_conv_nth)

lemma map_fst_vec_write [simp]: "map fst (vec_write i t m) = map fst m"
proof (rule nth_equalityI)
  fix j assume "j < length (map fst (vec_write i t m))"
  then show "map fst (vec_write i t m) ! j = map fst m ! j"
    by (cases "i = j") (simp_all add: vec_write_def)
qed (simp add: vec_write_def)

lemma vec_write_ok: "pairs_ok valid (vec_write i t m) = pairs_ok valid m"
  unfolding pairs_ok_def list.set_map [symmetric] map_fst_vec_write ..

lemma map_of_vec_write:
  assumes "distinct (map fst m)" and "i < length m"
  shows "map_of (vec_write i t m) = (map_of m)(fst (m ! i) \<mapsto> t)"
  using assms
proof (induction m arbitrary: i)
  case (Cons p m)
  show ?case
  proof (cases i)
    case 0
    then show ?thesis by (simp add: vec_write_def fun_eq_iff)
  next
    case (Suc j)
    with Cons.prems have j: "j < length m" by simp
    then have "fst (m ! j) \<noteq> fst p" using Cons.prems j by (metis distinct.simps(2) image_eqI list.set_map list.simps(9) nth_mem)
    moreover have "vec_write i t (p # m) = p # vec_write j t m" using Suc by (simp add: vec_write_def)
    moreover have "map_of (vec_write j t m) = (map_of m)(fst (m ! j) \<mapsto> t)" by (rule Cons.IH [OF _ j]) (use Cons.prems in simp)
    ultimately show ?thesis using Suc by (auto simp: fun_eq_iff)
  qed
qed simp

text \<open>Both vector maps find a slot exactly where its discriminant is.\<close>

definition finds_slots :: "('d \<Rightarrow> bool) \<Rightarrow> ('d \<Rightarrow> ('d \<times> 't) list \<Rightarrow> nat option) \<Rightarrow> ('d \<times> 't) list \<Rightarrow> bool" where
  "finds_slots valid pos m \<longleftrightarrow> (\<forall>d i. valid d \<longrightarrow> (pos d m = Some i \<longleftrightarrow> i < length m \<and> fst (m ! i) = d))"

lemma finds_slotsD: "finds_slots valid pos m \<Longrightarrow> valid d \<Longrightarrow> pos d m = Some i \<longleftrightarrow> i < length m \<and> fst (m ! i) = d"
  by (simp add: finds_slots_def)

lemma finds_slots_None:
  assumes "finds_slots valid pos m" and "valid d"
  shows "pos d m = None \<longleftrightarrow> map_of m d = None"
proof -
  have "(\<exists>i. pos d m = Some i) \<longleftrightarrow> d \<in> fst ` set m"
    using finds_slotsD [OF assms] by (force simp: in_set_conv_nth)
  then show ?thesis by (metis map_of_eq_None_iff not_Some_eq)
qed

lemma finds_slots_write:
  assumes "finds_slots valid pos m" and "pairs_ok valid m" and "valid d" and "pos d m = Some i"
  shows "pairs_ok valid (vec_write i t m) \<and> map_of (vec_write i t m) = (map_of m)(d \<mapsto> t)"
proof -
  have "i < length m" "fst (m ! i) = d" using finds_slotsD [OF assms(1,3)] assms(4) by auto
  with map_of_vec_write [of m i t] assms(2) show ?thesis unfolding vec_write_ok by (simp add: pairs_ok_def)
qed

lemma finds_slots_array:
  assumes "finds_slots valid pos m" and "pairs_ok valid m" and "Ball (set ds) valid"
  shows "bind_res (key_indices (\<lambda>d. pos d m) ds) (\<lambda>is. split_mut_array (slot_ref m) is (\<lambda>_ slot. Inr slot) om) = Inr js
    \<longleftrightarrow> distinct ds \<and> map (\<lambda>d. pos d m) ds = map Some js"
proof -
  have "distinct js \<longleftrightarrow> distinct ds" and "Ball (set js) (\<lambda>i. i < length m)"
    if eq: "map (\<lambda>d. pos d m) ds = map Some js"
  proof -
    have ds: "ds = map (\<lambda>i. fst (m ! i)) js" and js: "Ball (set js) (\<lambda>i. i < length m)"
    proof -
      have len: "length ds = length js" using eq by (metis length_map)
      have at: "js ! k < length m \<and> fst (m ! (js ! k)) = ds ! k" if k: "k < length js" for k
      proof -
        have "pos (ds ! k) m = Some (js ! k)" using eq k len by (metis nth_map)
        then show ?thesis using finds_slotsD [OF assms(1), of "ds ! k" "js ! k"] assms(3) k len by auto
      qed
      then show "ds = map (\<lambda>i. fst (m ! i)) js" using len by (intro nth_equalityI) auto
      show "Ball (set js) (\<lambda>i. i < length m)" using at by (auto simp: in_set_conv_nth)
    qed
    have "inj_on (\<lambda>i. fst (m ! i)) (set js)"
      using assms(2) js by (intro inj_onI) (auto simp: pairs_ok_def distinct_conv_nth)
    with ds js show "distinct js \<longleftrightarrow> distinct ds" "Ball (set js) (\<lambda>i. i < length m)"
      by (auto simp: distinct_map)
  qed
  then show ?thesis
    by (auto simp: key_indices_eq split_mut_array_slots [OF slot_ref_eq])
qed

lemma takeWhile_sorted:
  assumes "sorted_wrt (<) (map f xs)" and "i = length (takeWhile (\<lambda>x. f x < (k :: nat)) xs)"
  shows "i \<le> length xs" and "\<forall>j < i. f (xs ! j) < k" and "\<forall>j < length xs. i \<le> j \<longrightarrow> k \<le> f (xs ! j)"
proof -
  show "i \<le> length xs" using assms(2) by (simp add: length_takeWhile_le)
  show "\<forall>j < i. f (xs ! j) < k"
    using assms(2) by (metis nth_mem set_takeWhileD takeWhile_nth)
  show "\<forall>j < length xs. i \<le> j \<longrightarrow> k \<le> f (xs ! j)"
  proof (intro allI impI)
    fix j assume j: "j < length xs" "i \<le> j"
    then have "\<not> f (xs ! i) < k" using assms(2) nth_length_takeWhile [of "\<lambda>x. f x < k" xs] by simp
    moreover have "f (xs ! i) \<le> f (xs ! j)"
      using assms(1) j by (cases "i = j") (auto simp: sorted_wrt_iff_nth_less le_less)
    ultimately show "k \<le> f (xs ! j)" by simp
  qed
qed

text \<open>The invariant of the sorted map.\<close>

definition sorted_ok :: "('d \<Rightarrow> bool) \<Rightarrow> ('d \<Rightarrow> nat) \<Rightarrow> ('d \<times> 't) list \<Rightarrow> bool" where
  "sorted_ok valid iu m \<longleftrightarrow> pairs_ok valid m \<and> sorted_wrt (<) (map (\<lambda>(d, _). iu d) m)"

context discrim
begin

lemma linear_finds: "pairs_ok valid m \<Longrightarrow> finds_slots valid linear_get_mut_by m"
  by (auto simp: finds_slots_def linear_get_mut_by_def linear_position_def pairs_ok_def
      dest: position_Some position_distinct [of "map fst m"])

lemma linear_get_by_eq: "linear_get_by d m = map_of m d"
  by (induction m) (auto simp: linear_get_by_def)

lemma linear_or_insert:
  assumes "pairs_ok valid m" and "valid d"
  shows "linear_get_by_or_insert d t m =
     Inr (case linear_get_mut_by d m of Some i \<Rightarrow> (i, m) | None \<Rightarrow> (length m, m @ [(d, t)]))"
    and "linear_get_mut_by d m = None \<Longrightarrow> pairs_ok valid (m @ [(d, t)])"
    and "linear_get_mut_by d m = None \<Longrightarrow> map_of (m @ [(d, t)]) = (map_of m)(d \<mapsto> t)"
proof -
  show "linear_get_by_or_insert d t m =
     Inr (case linear_get_mut_by d m of Some i \<Rightarrow> (i, m) | None \<Rightarrow> (length m, m @ [(d, t)]))"
    by (auto simp: linear_get_by_or_insert_def linear_get_mut_by_def split: option.split)
  assume "linear_get_mut_by d m = None"
  then have "map_of m d = None" using finds_slots_None [OF linear_finds [OF assms(1)] assms(2)] by simp
  then have new: "d \<notin> fst ` set m" by (simp add: map_of_eq_None_iff)
  with assms show "pairs_ok valid (m @ [(d, t)])" by (auto simp: pairs_ok_def)
  show "map_of (m @ [(d, t)]) = (map_of m)(d \<mapsto> t)"
    using \<open>map_of m d = None\<close> by (auto simp: fun_eq_iff map_add_def split: option.split)
qed

lemma linear_full_map: "full_map (linear_ops :: ('d, 't, _) full_map_ops) valid (pairs_ok valid) map_of"
proof (unfold_locales, unfold linear_ops_def full_map_ops.simps)
  fix xs :: "('d \<times> 't) list"
  assume "distinct (map fst xs)" "Ball (fst ` set xs) valid"
  then show "\<exists>m. linear_from_iter xs = Inr m \<and> pairs_ok valid m \<and> map_of m = map_of xs"
    by (simp add: linear_from_iter_def pairs_ok_def)
next
  fix m :: "('d \<times> 't) list" and d e i t
  assume m: "pairs_ok valid m" and d: "valid d"
  note finds = linear_finds [OF m]
  show "linear_get_by d m = map_of m d" by (rule linear_get_by_eq)
  show "linear_get_mut_by d m = None \<longleftrightarrow> map_of m d = None" by (rule finds_slots_None [OF finds d])
  show "d = e" if "valid e" "linear_get_mut_by d m = Some i" "linear_get_mut_by e m = Some i"
    using that finds_slotsD [OF finds] d by auto
  show "pairs_ok valid (vec_write i t m) \<and> map_of (vec_write i t m) = (map_of m)(d \<mapsto> t)"
    if "linear_get_mut_by d m = Some i"
    by (rule finds_slots_write [OF finds m d that])
  show "\<exists>i m'. linear_get_by_or_insert d t m = Inr (i, m') \<and> pairs_ok valid m' \<and>
     map_of m' = (if map_of m d = None then (map_of m)(d \<mapsto> t) else map_of m) \<and> linear_get_mut_by d m' = Some i"
  proof (cases "linear_get_mut_by d m")
    case None
    then have "map_of m d = None" using finds_slots_None [OF finds d] by simp
    moreover have "linear_get_mut_by d (m @ [(d, t)]) = Some (length m)"
      using finds_slotsD [OF linear_finds [OF linear_or_insert(2) [OF m d None, of t]] d, of "length m"] by simp
    ultimately show ?thesis using linear_or_insert [OF m d, of t] None by auto
  next
    case (Some i)
    then show ?thesis using finds_slots_None [OF finds d] linear_or_insert(1) [OF m d, of t] m by auto
  qed
next
  fix m :: "('d \<times> 't) list" and ds "is"
  assume "pairs_ok valid m" "Ball (set ds) valid"
  then show "linear_get_mut_array_by ds m = Inr is \<longleftrightarrow> distinct ds \<and> map (\<lambda>d. linear_get_mut_by d m) ds = map Some is"
    unfolding linear_get_mut_array_by_def linear_get_mut_by_def
    using finds_slots_array [OF linear_finds] by (simp add: linear_get_mut_by_def [abs_def])
next
  fix m :: "('d \<times> 't) list"
  assume "pairs_ok valid m"
  then show "\<exists>xs. linear_into_iter_mapped m = Inr xs \<and> linear_iter_mapped m = Inr (map (\<lambda>(d, t). (d, d, t)) xs) \<and>
      distinct (map fst xs) \<and> map_of xs = map_of m"
    by (simp add: linear_into_iter_mapped_def linear_iter_mapped_def pairs_ok_def)
qed

lemma sorted_search_Inr:
  assumes "sorted_ok valid iu m" and "valid d"
  shows "sorted_search iu d m = Inr i \<longleftrightarrow> i < length m \<and> fst (m ! i) = d"
proof -
  define p where "p = length (takeWhile (\<lambda>x. (case x of (d, _) \<Rightarrow> iu d) < iu d) m)"
  have sorted: "sorted_wrt (<) (map (\<lambda>(d, _). iu d) m)" and v: "Ball (fst ` set m) valid"
    using assms(1) by (simp_all add: sorted_ok_def pairs_ok_def)
  note tw = takeWhile_sorted [OF sorted p_def]
  have key: "fst (m ! j) = d \<longleftrightarrow> iu (fst (m ! j)) = iu d" if "j < length m" for j
    using iu_eq_iff [OF _ assms(2), of "fst (m ! j)"] v that by auto
  have at: "j = p" if j: "j < length m" "fst (m ! j) = d" for j
  proof (rule ccontr)
    assume "j \<noteq> p"
    then consider "j < p" | "p < j" by linarith
    then show False
    proof cases
      case 2
      then have "iu (fst (m ! p)) < iu (fst (m ! j))"
        using sorted j(1) by (auto simp: sorted_wrt_iff_nth_less case_prod_beta)
      moreover have "iu d \<le> iu (fst (m ! p))" using tw(3) 2 j(1) by (auto simp: case_prod_beta)
      ultimately show False using j(2) by simp
    qed (use tw(2) j in \<open>auto simp: case_prod_beta\<close>)
  qed
  have "sorted_search iu d m = Inr i \<longleftrightarrow> i = p \<and> p < length m \<and> iu (fst (m ! p)) = iu d"
    by (auto simp: sorted_search_def binary_search_by_key_def p_def Let_def case_prod_beta)
  with at key show ?thesis by blast
qed

lemma sorted_finds: "sorted_ok valid iu m \<Longrightarrow> finds_slots valid (sorted_get_mut_by iu) m"
  using sorted_search_Inr by (fastforce simp: finds_slots_def sorted_get_mut_by_def split: sum.splits)

lemma sorted_search_Inl:
  assumes "sorted_ok valid iu m" and "valid d" and "sorted_search iu d m = Inl i"
  shows "sorted_ok valid iu (insert_at i (d, t) m)" and "i \<le> length m"
    and "map_of (insert_at i (d, t) m) = (map_of m)(d \<mapsto> t)"
proof -
  have sorted: "sorted_wrt (<) (map (\<lambda>(d, _). iu d) m)" and ok: "pairs_ok valid m"
    using assms(1) by (simp_all add: sorted_ok_def)
  have i: "i = length (takeWhile (\<lambda>x. (case x of (d, _) \<Rightarrow> iu d) < iu d) m)"
    using assms(3) by (auto simp: sorted_search_def binary_search_by_key_def Let_def split: if_splits)
  note tw = takeWhile_sorted [OF sorted i]
  show len: "i \<le> length m" by (rule tw(1))
  have "sorted_get_mut_by iu d m = None" using assms(3) by (simp add: sorted_get_mut_by_def)
  then have "map_of m d = None" using finds_slots_None [OF sorted_finds [OF assms(1)] assms(2)] by simp
  then have new: "d \<notin> fst ` set m" by (simp add: map_of_eq_None_iff)
  have keys: "map fst (insert_at i (d, t) m) = take i (map fst m) @ d # drop i (map fst m)"
    by (simp add: insert_at_def take_map drop_map)
  have "distinct (map fst (insert_at i (d, t) m))"
    using ok new set_take_disj_set_drop_if_distinct [of "map fst m" i i] unfolding keys pairs_ok_def
    by (auto dest: in_set_takeD in_set_dropD)
  moreover have "Ball (fst ` set (insert_at i (d, t) m)) valid"
    using ok assms(2) by (auto simp: insert_at_def pairs_ok_def dest: in_set_takeD in_set_dropD)
  moreover have "sorted_wrt (<) (map (\<lambda>(d, _). iu d) (insert_at i (d, t) m))"
  proof -
    have "iu d < iu e" if e: "(e, u) \<in> set (drop i m)" for e u
    proof -
      from e obtain j where j: "j < length m" "i \<le> j" "m ! j = (e, u)"
        by (auto simp: in_set_conv_nth) (metis add.commute le_add2 less_diff_conv)
      have "iu d \<le> iu e" using tw(3) j by fastforce
      moreover have "valid e" "e \<noteq> d" using ok new nth_mem [OF j(1)] j(3) by (force simp: pairs_ok_def)+
      ultimately show ?thesis using iu_eq_iff [of e d] assms(2) by (simp add: order_le_less eq_commute)
    qed
    moreover have "iu e < iu d" if "(e, u) \<in> set (take i m)" for e u
      using that tw(2) by (fastforce simp: in_set_conv_nth)
    moreover have "sorted_wrt (<) (map (\<lambda>(d, _). iu d) (take i m) @ map (\<lambda>(d, _). iu d) (drop i m))"
      using sorted by (simp flip: map_append)
    ultimately show ?thesis unfolding insert_at_def by (auto simp: sorted_wrt_append)
  qed
  ultimately show "sorted_ok valid iu (insert_at i (d, t) m)" by (simp add: sorted_ok_def pairs_ok_def)
  have "map_of (take i m) d = None" using new by (auto simp: map_of_eq_None_iff dest: in_set_takeD)
  then have "map_of (take i m @ (d, t) # drop i m) = (map_of (take i m @ drop i m))(d \<mapsto> t)"
    unfolding map_of_append by (auto simp: fun_eq_iff map_add_def split: option.split)
  then show "map_of (insert_at i (d, t) m) = (map_of m)(d \<mapsto> t)" by (simp add: insert_at_def)
qed

lemma sorted_or_insert:
  assumes "sorted_ok valid iu m" and "valid d"
  shows "\<exists>i m'. sorted_get_by_or_insert iu d t m = Inr (i, m') \<and> sorted_ok valid iu m' \<and>
     map_of m' = (if map_of m d = None then (map_of m)(d \<mapsto> t) else map_of m) \<and>
     sorted_get_mut_by iu d m' = Some i"
proof (cases "sorted_search iu d m")
  case (Inl i)
  note ins = sorted_search_Inl [OF assms Inl]
  have "map_of m d = None"
    using finds_slots_None [OF sorted_finds [OF assms(1)] assms(2)] Inl by (simp add: sorted_get_mut_by_def)
  moreover have "sorted_get_mut_by iu d (insert_at i (d, t) m) = Some i"
    using finds_slotsD [OF sorted_finds [OF ins(1) [of t]] assms(2), of i] ins(2) by (simp add: insert_at_def nth_append)
  ultimately show ?thesis using ins Inl by (simp add: sorted_get_by_or_insert_def)
next
  case (Inr i)
  then have "map_of m d \<noteq> None"
    using finds_slots_None [OF sorted_finds [OF assms(1)] assms(2)] by (simp add: sorted_get_mut_by_def)
  with Inr assms show ?thesis by (auto simp: sorted_get_by_or_insert_def sorted_get_mut_by_def)
qed

lemma sorted_from_iter_ok:
  assumes "distinct (map fst xs)" and "Ball (fst ` set xs) valid"
  shows "sorted_ok valid iu (sort_key (\<lambda>(d, _). iu d) xs)"
    and "map_of (sort_key (\<lambda>(d, _). iu d) xs) = map_of xs"
proof -
  let ?k = "\<lambda>x. iu (fst x)" let ?ys = "sort_key ?k xs"
  have k: "(\<lambda>(d, _). iu d) = ?k" by auto
  have keys: "mset (map fst ?ys) = mset (map fst xs)" unfolding mset_map by simp
  then have dist: "distinct (map fst ?ys)" using assms(1) by (metis mset_eq_imp_distinct_iff)
  have "distinct (map iu (map fst ?ys))" using dist distinct_iu [of "map fst ?ys"] assms(2) by simp
  then have "sorted_wrt (<) (map ?k ?ys)" by (simp add: strict_sorted_iff comp_def)
  with dist assms(2) show "sorted_ok valid iu (sort_key (\<lambda>(d, _). iu d) xs)"
    unfolding k sorted_ok_def by (simp add: pairs_ok_def)
  show "map_of (sort_key (\<lambda>(d, _). iu d) xs) = map_of xs"
    unfolding k using dist assms(1) by (intro map_of_inject_set [THEN iffD2]) auto
qed

lemma sorted_get_by_eq:
  assumes "sorted_ok valid iu m" and "valid d"
  shows "sorted_get_by iu d m = map_of m d"
proof (cases "sorted_search iu d m")
  case (Inl i)
  then show ?thesis
    using finds_slots_None [OF sorted_finds [OF assms(1)] assms(2)]
    by (simp add: sorted_get_by_def sorted_get_mut_by_def)
next
  case (Inr i)
  then have i: "i < length m" "fst (m ! i) = d" using sorted_search_Inr [OF assms] by auto
  then have "map_of m d = Some (snd (m ! i))"
    using assms(1) by (auto simp: sorted_ok_def pairs_ok_def in_set_conv_nth intro!: map_of_is_SomeI exI [of _ i])
  with Inr show ?thesis by (simp add: sorted_get_by_def)
qed

lemma sorted_full_map: "full_map (sorted_ops iu :: ('d, 't, _) full_map_ops) valid (sorted_ok valid iu) map_of"
proof (unfold_locales, unfold sorted_ops_def full_map_ops.simps)
  fix xs :: "('d \<times> 't) list"
  assume "distinct (map fst xs)" "Ball (fst ` set xs) valid"
  then show "\<exists>m. sorted_from_iter iu xs = Inr m \<and> sorted_ok valid iu m \<and> map_of m = map_of xs"
    using sorted_from_iter_ok by (auto simp: sorted_from_iter_def)
next
  fix m :: "('d \<times> 't) list" and d e i t
  assume m: "sorted_ok valid iu m" and d: "valid d"
  note finds = sorted_finds [OF m]
  have ok: "pairs_ok valid m" using m by (simp add: sorted_ok_def)
  show "sorted_get_by iu d m = map_of m d" by (rule sorted_get_by_eq [OF m d])
  show "sorted_get_mut_by iu d m = None \<longleftrightarrow> map_of m d = None" by (rule finds_slots_None [OF finds d])
  show "d = e" if "valid e" "sorted_get_mut_by iu d m = Some i" "sorted_get_mut_by iu e m = Some i"
    using that finds_slotsD [OF finds] d by auto
  have k: "(\<lambda>x. case x of (d, _) \<Rightarrow> iu d) = iu \<circ> fst" by auto
  have "map (iu \<circ> fst) (vec_write i t m) = map (iu \<circ> fst) m"
    unfolding map_map [symmetric] map_fst_vec_write ..
  then show "sorted_ok valid iu (vec_write i t m) \<and> map_of (vec_write i t m) = (map_of m)(d \<mapsto> t)"
    if "sorted_get_mut_by iu d m = Some i"
    using finds_slots_write [OF finds ok d that, of t] m unfolding sorted_ok_def k by simp
  show "\<exists>i m'. sorted_get_by_or_insert iu d t m = Inr (i, m') \<and> sorted_ok valid iu m' \<and>
     map_of m' = (if map_of m d = None then (map_of m)(d \<mapsto> t) else map_of m) \<and> sorted_get_mut_by iu d m' = Some i"
    by (rule sorted_or_insert [OF m d])
next
  fix m :: "('d \<times> 't) list" and ds "is"
  assume m: "sorted_ok valid iu m" and "Ball (set ds) valid"
  then show "sorted_get_mut_array_by iu ds m = Inr is \<longleftrightarrow> distinct ds \<and> map (\<lambda>d. sorted_get_mut_by iu d m) ds = map Some is"
    unfolding sorted_get_mut_array_by_def
    by (intro finds_slots_array [OF sorted_finds [OF m]]) (auto simp: sorted_ok_def)
next
  fix m :: "('d \<times> 't) list"
  assume "sorted_ok valid iu m"
  then show "\<exists>xs. sorted_into_iter_mapped m = Inr xs \<and> sorted_iter_mapped m = Inr (map (\<lambda>(d, t). (d, d, t)) xs) \<and>
      distinct (map fst xs) \<and> map_of xs = map_of m"
    by (simp add: sorted_into_iter_mapped_def sorted_iter_mapped_def sorted_ok_def pairs_ok_def)
qed

lemma linear_stable_map: "stable_map (linear_ops :: ('d, 't, _) full_map_ops) valid (pairs_ok valid) map_of"
proof (intro stable_map.intro linear_full_map, unfold_locales, unfold linear_ops_def full_map_ops.simps)
  fix m m' :: "('d \<times> 't) list" and d e t i j
  assume m: "pairs_ok valid m" and d: "valid d" and e: "valid e"
    and ins: "linear_get_by_or_insert d t m = Inr (i, m')" and j: "linear_get_mut_by e m = Some j"
  have "m' = m \<or> m' = m @ [(d, t)] \<and> pairs_ok valid m'"
    using linear_or_insert [OF m d, of t] ins by (auto split: option.splits)
  with finds_slotsD [OF linear_finds [OF m] e, of j] finds_slotsD [OF linear_finds e, of m' j] j
  show "linear_get_mut_by e m' = Some j" by (auto simp: nth_append)
next
  fix m m' :: "('d \<times> 't) list" and ds ins "is"
  assume m': "pairs_ok valid m'" and ds: "Ball (set ds) valid" and dist: "distinct is"
    and slots: "map (\<lambda>d. linear_get_mut_by d m') ds = map Some is"
    and loop: "insert_indices (\<lambda>d. linear_get_by_or_insert d (ins d)) ds m = Inr (is, m')"
  have "i < length m'" if i: "i \<in> set is" for i
  proof -
    from i have "Some i \<in> set (map (\<lambda>d. linear_get_mut_by d m') ds)" unfolding slots by simp
    then obtain d where "d \<in> set ds" and "linear_get_mut_by d m' = Some i" by auto
    with finds_slotsD [OF linear_finds [OF m'], of d i] ds show ?thesis by auto
  qed
  then have "split_mut_array (slot_ref m') is (\<lambda>_ slot. Inr slot) (\<lambda>_. Unreachable) = Inr is"
    by (intro split_mut_array_ok) (auto simp: slot_ref_eq dist)
  with loop show "linear_get_by_or_insert_array ds ins (\<lambda>_ slot. Inr slot) m = Inr (is, m')"
    by (simp add: linear_get_by_or_insert_array_def)
qed

end

subsection \<open>Vectors indexed by \<open>into_usize\<close>\<close>

definition indexed_map :: "('d \<Rightarrow> bool) \<Rightarrow> ('d \<Rightarrow> nat) \<Rightarrow> 't option list \<Rightarrow> 'd \<rightharpoonup> 't" where
  "indexed_map valid iu m d = (if valid d then indexed_get_by iu d m else None)"

definition bounded_ok :: "(nat \<Rightarrow> 'd res) \<Rightarrow> 't option list \<Rightarrow> bool" where
  "bounded_ok fu m \<longleftrightarrow> (\<forall>n < length m. \<exists>d. fu n = Inr d)"

lemma indexed_get_by_eq: "indexed_get_by iu d m = (if iu d < length m then m ! iu d else None)"
  by (simp add: indexed_get_by_def list_get_def)

lemma indexed_slot:
  "indexed_get_mut_by iu d m = Some i \<longleftrightarrow> i = iu d \<and> i < length m \<and> m ! i \<noteq> None"
  "indexed_get_mut_by iu d m = None \<longleftrightarrow> indexed_get_by iu d m = None"
  by (auto simp: indexed_get_mut_by_def indexed_get_by_eq)

context discrim
begin

lemma indexed_map_update:
  assumes "valid d" and "iu d < length m"
  shows "indexed_map valid iu (m[iu d := Some t]) = (indexed_map valid iu m)(d \<mapsto> t)"
proof
  fix e show "indexed_map valid iu (m[iu d := Some t]) e = ((indexed_map valid iu m)(d \<mapsto> t)) e"
  proof (cases "e = d")
    case False
    then have "valid e \<Longrightarrow> iu e \<noteq> iu d" using assms(1) iu_eq_iff by blast
    with False show ?thesis by (auto simp: indexed_map_def indexed_get_by_eq)
  qed (use assms in \<open>simp add: indexed_map_def indexed_get_by_eq\<close>)
qed

lemma indexed_map_grow: "indexed_map valid iu (list_grow n None m) = indexed_map valid iu m"
  by (auto simp: indexed_map_def indexed_get_by_eq fun_eq_iff nth_list_grow max_def)

lemma indexed_into_iter_from_ok:
  assumes "\<forall>n < length m. \<exists>d. fu (i + n) = Inr d"
  shows "\<exists>xs. indexed_into_iter_from fu i m = Inr xs \<and>
    indexed_iter_from fu i m = Inr (map (\<lambda>(d, t). (d, d, t)) xs) \<and>
    distinct (map fst xs) \<and> (\<forall>d \<in> fst ` set xs. i \<le> iu d) \<and>
    map_of xs = (\<lambda>d. if valid d \<and> i \<le> iu d \<and> iu d < i + length m then m ! (iu d - i) else None)"
  using assms
proof (induction m arbitrary: i)
  case Nil
  then show ?case by (auto simp: fun_eq_iff)
next
  case (Cons v m)
  from Cons.prems obtain d where d: "fu i = Inr d" by (auto dest: spec [of _ 0])
  have "\<forall>n < length m. \<exists>d. fu (Suc i + n) = Inr d" using Cons.prems by (auto dest: spec [of _ "Suc _"])
  from Cons.IH [OF this] obtain xs where
    xs: "indexed_into_iter_from fu (Suc i) m = Inr xs"
      "indexed_iter_from fu (Suc i) m = Inr (map (\<lambda>(d, t). (d, d, t)) xs)" "distinct (map fst xs)"
      "\<forall>d \<in> fst ` set xs. Suc i \<le> iu d"
      "map_of xs = (\<lambda>d. if valid d \<and> Suc i \<le> iu d \<and> iu d < Suc i + length m then m ! (iu d - Suc i) else None)"
    by blast
  have di: "valid d" "iu d = i" using fu_valid [OF d] by auto
  let ?ys = "case v of Some t \<Rightarrow> (d, t) # xs | None \<Rightarrow> xs"
  have "d \<notin> fst ` set xs" using xs(4) di(2) by fastforce
  then have dist: "distinct (map fst ?ys)" using xs(3) by (auto split: option.split)
  have le: "\<forall>d \<in> fst ` set ?ys. i \<le> iu d" using xs(4) di(2) by (fastforce split: option.splits)
  have "map_of ?ys e = (if valid e \<and> i \<le> iu e \<and> iu e < i + length (v # m) then (v # m) ! (iu e - i) else None)" for e
  proof (cases "valid e \<and> iu e = i")
    case True
    then have "e = d" using iu_eq_iff di by blast
    with True \<open>d \<notin> fst ` set xs\<close> show ?thesis by (auto split: option.split simp: map_of_eq_None_iff)
  next
    case False
    then have "e \<noteq> d" using di by auto
    then have "map_of ?ys e = map_of xs e" by (auto split: option.split)
    moreover have "i \<le> iu e \<Longrightarrow> valid e \<Longrightarrow> iu e - i = Suc (iu e - Suc i)" using False by auto
    ultimately show ?thesis using False unfolding xs(5) by auto
  qed
  with dist le xs(1,2) d show ?case by (intro exI [of _ ?ys]) (auto split: option.split simp: fun_eq_iff)
qed

lemma indexed_iter_ok:
  assumes "bounded_ok fu m"
  shows "\<exists>xs. indexed_into_iter_mapped fu m = Inr xs \<and>
    indexed_iter_mapped fu m = Inr (map (\<lambda>(d, t). (d, d, t)) xs) \<and> distinct (map fst xs) \<and>
    map_of xs = indexed_map valid iu m"
proof -
  have "indexed_map valid iu m = (\<lambda>d. if valid d \<and> 0 \<le> iu d \<and> iu d < 0 + length m then m ! (iu d - 0) else None)"
    by (auto simp: indexed_map_def indexed_get_by_eq fun_eq_iff)
  then show ?thesis
    using indexed_into_iter_from_ok [of m 0] assms
    unfolding indexed_into_iter_mapped_def indexed_iter_mapped_def bounded_ok_def by simp
qed

lemma indexed_array_by:
  assumes "Ball (set ds) valid"
  shows "indexed_get_mut_array_by iu ds m = Inr is \<longleftrightarrow>
    distinct ds \<and> map (\<lambda>d. indexed_get_mut_by iu d m) ds = map Some is"
proof -
  have "map (\<lambda>d. indexed_get_mut_by iu d m) ds = map Some is \<longleftrightarrow>
      is = map iu ds \<and> (\<forall>k \<in> set (map iu ds). k < length m \<and> m ! k \<noteq> None)"
    by (induction ds arbitrary: "is") (auto simp: indexed_slot Cons_eq_map_conv)
  then show ?thesis
    unfolding indexed_get_mut_array_by_def split_mut_array_slots [OF present_ref_eq] distinct_iu [OF assms] by auto
qed

lemma map_add_Cons:
  "d \<notin> fst ` set xs \<Longrightarrow> f(d \<mapsto> t) ++ map_of xs = f ++ map_of ((d, t) # xs)"
  by (auto simp: fun_eq_iff map_add_def map_of_eq_None_iff [symmetric] split: option.split)

text \<open>The laws that do not depend on how the vector grows.\<close>

lemma indexed_laws:
  assumes "valid d"
  shows "indexed_get_by iu d m = indexed_map valid iu m d"
    and "indexed_get_mut_by iu d m = None \<longleftrightarrow> indexed_map valid iu m d = None"
    and "valid e \<Longrightarrow> indexed_get_mut_by iu d m = Some i \<Longrightarrow> indexed_get_mut_by iu e m = Some i \<Longrightarrow> d = e"
    and "indexed_get_mut_by iu d m = Some i \<Longrightarrow> indexed_map valid iu (m[i := Some t]) = (indexed_map valid iu m)(d \<mapsto> t)"
  using assms iu_eq_iff indexed_map_update [of d m t] by (auto simp: indexed_map_def indexed_slot)

lemma bounded_or_insert:
  assumes "valid d"
  shows "\<exists>m'. bounded_get_by_or_insert iu d t m = Inr (iu d, m') \<and> length m' = max (length m) (Suc (iu d)) \<and>
     indexed_map valid iu m' =
       (if indexed_map valid iu m d = None then (indexed_map valid iu m)(d \<mapsto> t) else indexed_map valid iu m) \<and>
     indexed_get_mut_by iu d m' = Some (iu d)"
proof -
  define m1 where "m1 = (if length m \<le> iu d then list_grow (iu d + 1) None m else m)"
  have m1: "iu d < length m1" "length m1 = max (length m) (Suc (iu d))"
    "indexed_map valid iu m1 = indexed_map valid iu m"
    by (auto simp: m1_def indexed_map_grow)
  have r: "bounded_get_by_or_insert iu d t m = Inr (iu d, m1[iu d := get_or_insert_with t (m1 ! iu d)])"
    by (simp add: bounded_get_by_or_insert_def m1_def Let_def)
  have at: "indexed_map valid iu m d = m1 ! iu d"
    using m1(1,3) assms by (metis indexed_get_by_eq indexed_laws(1))
  show ?thesis
  proof (cases "m1 ! iu d")
    case None
    with r m1 at indexed_map_update [OF assms m1(1), of t] show ?thesis
      by (simp add: get_or_insert_with_def indexed_slot)
  next
    case (Some u)
    then have "m1[iu d := get_or_insert_with t (m1 ! iu d)] = m1"
      by (metis get_or_insert_with_def list_update_id option.simps(5))
    with r m1 at Some show ?thesis by (simp add: indexed_slot)
  qed
qed

lemma array_or_insert:
  assumes "valid d" and "iu d < length m"
  shows "\<exists>m'. array_get_by_or_insert iu d t m = Inr (iu d, m') \<and> length m' = length m \<and>
     indexed_map valid iu m' =
       (if indexed_map valid iu m d = None then (indexed_map valid iu m)(d \<mapsto> t) else indexed_map valid iu m) \<and>
     indexed_get_mut_by iu d m' = Some (iu d)"
proof (cases "m ! iu d")
  case None
  then have "array_get_by_or_insert iu d t m = Inr (iu d, m[iu d := Some t])"
    using assms by (simp add: array_get_by_or_insert_def list_get_def)
  with None assms indexed_map_update [OF assms, of t] show ?thesis
    by (simp add: indexed_slot indexed_map_def indexed_get_by_eq)
next
  case (Some u)
  then have "array_get_by_or_insert iu d t m = Inr (iu d, m)"
    using assms by (simp add: array_get_by_or_insert_def list_get_def)
  with Some assms show ?thesis by (simp add: indexed_slot indexed_map_def indexed_get_by_eq)
qed

lemma bounded_extend_ok:
  assumes "distinct (map fst xs)" and "Ball (fst ` set xs) valid"
  shows "indexed_map valid iu (bounded_extend iu xs m) = indexed_map valid iu m ++ map_of xs \<and>
    (\<forall>n < length (bounded_extend iu xs m). n < length m \<or> (\<exists>d \<in> fst ` set xs. n \<le> iu d))"
  using assms
proof (induction xs arbitrary: m)
  case Nil
  then show ?case by (simp add: bounded_extend_def)
next
  case (Cons x xs)
  obtain d t where x: "x = (d, t)" by fastforce
  define m1 where "m1 = (if length m < iu d + 1 then list_grow (iu d + 1) None m else m)"
  have m1: "iu d < length m1" "length m1 = max (length m) (Suc (iu d))"
    "indexed_map valid iu m1 = indexed_map valid iu m"
    by (auto simp: m1_def indexed_map_grow)
  have one: "bounded_extend iu (x # xs) m = bounded_extend iu xs (m1[iu d := Some t])"
    by (simp add: bounded_extend_def bounded_extend_one_def m1_def x Let_def)
  have d: "valid d" using Cons.prems x by simp
  note IH = Cons.IH [of "m1[iu d := Some t]"]
  have "indexed_map valid iu (m1[iu d := Some t]) ++ map_of xs = indexed_map valid iu m ++ map_of (x # xs)"
    using map_add_Cons [of d xs] Cons.prems x indexed_map_update [OF d m1(1), of t] m1(3) by simp
  moreover have "n < length m \<or> (\<exists>d \<in> fst ` set (x # xs). n \<le> iu d)"
    if "n < length (bounded_extend iu xs (m1[iu d := Some t]))" for n
    using IH Cons.prems m1(2) x that by (auto simp: max_def split: if_splits)
  moreover have "indexed_map valid iu (bounded_extend iu xs (m1[iu d := Some t])) =
      indexed_map valid iu (m1[iu d := Some t]) ++ map_of xs"
    using IH Cons.prems by simp
  ultimately show ?case unfolding one by metis
qed

lemma array_fill_ok:
  assumes "distinct (map fst xs)" and "Ball (fst ` set xs) (\<lambda>d. valid d \<and> iu d < length m \<and> m ! iu d = None)"
  shows "\<exists>m'. fold_res (array_insert_new iu) xs m = Inr m' \<and> length m' = length m \<and>
    indexed_map valid iu m' = indexed_map valid iu m ++ map_of xs"
  using assms
proof (induction xs arbitrary: m)
  case (Cons x xs)
  obtain d t where x: "x = (d, t)" by fastforce
  have d: "valid d" "iu d < length m" "m ! iu d = None" "d \<notin> fst ` set xs" using Cons.prems x by auto
  then have one: "array_insert_new iu x m = Inr (m[iu d := Some t])"
    by (simp add: array_insert_new_def list_get_def x)
  have "Ball (fst ` set xs) (\<lambda>e. valid e \<and> iu e < length (m[iu d := Some t]) \<and> m[iu d := Some t] ! iu e = None)"
  proof
    fix e assume e: "e \<in> fst ` set xs"
    then have "e \<noteq> d" "valid e" "iu e < length m" "m ! iu e = None" using d(4) Cons.prems(2) by auto
    moreover then have "iu e \<noteq> iu d" using iu_eq_iff d(1) by blast
    ultimately show "valid e \<and> iu e < length (m[iu d := Some t]) \<and> m[iu d := Some t] ! iu e = None" by simp
  qed
  with Cons.IH [of "m[iu d := Some t]"] Cons.prems(1) obtain m' where
    "fold_res (array_insert_new iu) xs (m[iu d := Some t]) = Inr m'" "length m' = length m"
    "indexed_map valid iu m' = indexed_map valid iu (m[iu d := Some t]) ++ map_of xs" by auto
  moreover from this(3) have "indexed_map valid iu m' = indexed_map valid iu m ++ map_of (x # xs)"
    using indexed_map_update [OF d(1,2), of t] map_add_Cons [OF d(4), of "indexed_map valid iu m" t] x by metis
  ultimately show ?case using one by (metis bind_res.simps(2) fold_res.simps(2))
qed simp

end

context dense_discrim
begin

lemma bounded_full_map:
  assumes "\<And>k. hint k \<le> k"
  shows "full_map (bounded_ops iu fu hint :: ('d, 't, _) full_map_ops) valid (bounded_ok fu) (indexed_map valid iu)"
proof (unfold_locales, unfold bounded_ops_def full_map_ops.simps)
  fix xs :: "('d \<times> 't) list"
  assume xs: "distinct (map fst xs)" "Ball (fst ` set xs) valid"
  let ?m = "bounded_extend iu xs (replicate (hint (length xs)) None)"
  note ext = bounded_extend_ok [OF xs, of "replicate (hint (length xs)) None"]
  have "\<exists>d. fu n = Inr d" if "n < length ?m" for n
    using ext that dense dense_count [of "map fst xs" n] xs assms [of "length xs"]
    by (metis (no_types, lifting) length_map length_replicate list.set_map order_less_le_trans)
  moreover have "indexed_map valid iu (replicate (hint (length xs)) None) = (Map.empty :: 'd \<rightharpoonup> 't)"
    by (simp add: indexed_map_def indexed_get_by_eq fun_eq_iff)
  ultimately show "\<exists>m. bounded_from_iter iu (hint (length xs)) xs = Inr m \<and> bounded_ok fu m \<and> indexed_map valid iu m = map_of xs"
    using ext by (simp add: bounded_from_iter_def bounded_ok_def)
next
  fix m :: "'t option list" and d e i t
  assume m: "bounded_ok fu m" and d: "valid d"
  show "indexed_get_by iu d m = indexed_map valid iu m d" by (rule indexed_laws(1) [OF d])
  show "indexed_get_mut_by iu d m = None \<longleftrightarrow> indexed_map valid iu m d = None" by (rule indexed_laws(2) [OF d])
  show "d = e" if "valid e" "indexed_get_mut_by iu d m = Some i" "indexed_get_mut_by iu e m = Some i"
    by (rule indexed_laws(3) [OF d that])
  show "bounded_ok fu (m[i := Some t]) \<and> indexed_map valid iu (m[i := Some t]) = (indexed_map valid iu m)(d \<mapsto> t)"
    if "indexed_get_mut_by iu d m = Some i"
    using indexed_laws(4) [OF d that] m by (simp add: bounded_ok_def)
  from bounded_or_insert [OF d, of t m] obtain m' where m':
    "bounded_get_by_or_insert iu d t m = Inr (iu d, m')" "length m' = max (length m) (Suc (iu d))"
    "indexed_map valid iu m' =
       (if indexed_map valid iu m d = None then (indexed_map valid iu m)(d \<mapsto> t) else indexed_map valid iu m)"
    "indexed_get_mut_by iu d m' = Some (iu d)" by blast
  moreover have "bounded_ok fu m'"
    using m m'(2) dense [OF d] by (auto simp: bounded_ok_def max_def split: if_splits)
  ultimately show "\<exists>i m'. bounded_get_by_or_insert iu d t m = Inr (i, m') \<and> bounded_ok fu m' \<and>
     indexed_map valid iu m' = (if indexed_map valid iu m d = None then (indexed_map valid iu m)(d \<mapsto> t)
       else indexed_map valid iu m) \<and> indexed_get_mut_by iu d m' = Some i" by blast
next
  fix m :: "'t option list" and ds "is"
  assume "bounded_ok fu m" "Ball (set ds) valid"
  then show "indexed_get_mut_array_by iu ds m = Inr is \<longleftrightarrow>
      distinct ds \<and> map (\<lambda>d. indexed_get_mut_by iu d m) ds = map Some is" by (intro indexed_array_by)
next
  fix m :: "'t option list"
  assume "bounded_ok fu m"
  then show "\<exists>xs. indexed_into_iter_mapped fu m = Inr xs \<and> indexed_iter_mapped fu m = Inr (map (\<lambda>(d, t). (d, d, t)) xs) \<and>
      distinct (map fst xs) \<and> map_of xs = indexed_map valid iu m" by (rule indexed_iter_ok)
qed

text \<open>The references of the array operation: the discriminants passed on exist.\<close>

lemma indexed_split_ok:
  fixes m' :: "'t option list"
  assumes "Ball (set ds) valid" and "distinct ds" and "distinct is"
    and slots: "map (\<lambda>d. indexed_get_mut_by iu d m') ds = map Some is"
  shows "indexed_split fu is (\<lambda>_ slot. Inr slot) m' = Inr is"
  unfolding indexed_split_def
proof (rule split_mut_array_ok [OF assms(3)])
  show "\<forall>k \<in> set is. bind_res (expect IndexOutOfBounds (list_get m' k)) (\<lambda>v. Inr (map_option (\<lambda>_. k) v)) = Inr (Some k)"
  proof
    fix k assume "k \<in> set is"
    then have "Some k \<in> set (map (\<lambda>d. indexed_get_mut_by iu d m') ds)" unfolding slots by simp
    then obtain d where "indexed_get_mut_by iu d m' = Some k" by auto
    then show "bind_res (expect IndexOutOfBounds (list_get m' k)) (\<lambda>v. Inr (map_option (\<lambda>_. k) v)) = Inr (Some k)"
      by (auto simp: indexed_slot)
  qed
  show "\<forall>j < length is. bind_res (fu j) (\<lambda>d. Inr (is ! j)) = Inr (is ! j)"
  proof (intro allI impI)
    fix j assume "j < length is"
    then have "j < length ds" using slots by (metis length_map)
    from dense_count [OF assms(1,2) this] show "bind_res (fu j) (\<lambda>d. Inr (is ! j)) = Inr (is ! j)" by auto
  qed
qed

lemma bounded_stable_map:
  assumes "\<And>k. hint k \<le> k"
  shows "stable_map (bounded_ops iu fu hint :: ('d, 't, _) full_map_ops) valid (bounded_ok fu) (indexed_map valid iu)"
proof (intro stable_map.intro bounded_full_map assms, unfold_locales, unfold bounded_ops_def full_map_ops.simps)
  fix m m' :: "'t option list" and d e t i j
  assume d: "valid d" "valid e" and ins: "bounded_get_by_or_insert iu d t m = Inr (i, m')"
    and j: "indexed_get_mut_by iu e m = Some j"
  from bounded_or_insert [OF d(1), of t m] ins have
    "indexed_map valid iu m' = (if indexed_map valid iu m d = None then (indexed_map valid iu m)(d \<mapsto> t) else indexed_map valid iu m)"
    by auto
  then have "indexed_map valid iu m' e \<noteq> None" using indexed_laws(2) [OF d(2), of m] j by auto
  then show "indexed_get_mut_by iu e m' = Some j"
    using indexed_laws(2) [OF d(2), of m'] j by (auto simp: indexed_get_mut_by_def)
next
  fix m m' :: "'t option list" and ds ins "is"
  assume "Ball (set ds) valid" "distinct ds" "distinct is" "map (\<lambda>d. indexed_get_mut_by iu d m') ds = map Some is"
    and "insert_indices (\<lambda>d. bounded_get_by_or_insert iu d (ins d)) ds m = Inr (is, m')"
  then show "bounded_get_by_or_insert_array iu fu ds ins (\<lambda>_ slot. Inr slot) m = Inr (is, m')"
    by (simp add: bounded_get_by_or_insert_array_def indexed_split_ok)
qed

end

context finite_discrim
begin

lemma array_full_map:
  "full_map (array_ops iu fu n :: ('d, 't, _) full_map_ops) valid (\<lambda>m. length m = n) (indexed_map valid iu)"
proof (unfold_locales, unfold array_ops_def full_map_ops.simps)
  fix xs :: "('d \<times> 't) list"
  assume xs: "distinct (map fst xs)" "Ball (fst ` set xs) valid"
  have "indexed_map valid iu (replicate n None) = (Map.empty :: 'd \<rightharpoonup> 't)"
    by (simp add: indexed_map_def indexed_get_by_eq fun_eq_iff)
  with array_fill_ok [OF xs(1), of "replicate n None"] xs(2) iu_bound
  show "\<exists>m. array_from_iter iu n xs = Inr m \<and> length m = n \<and> indexed_map valid iu m = map_of xs"
    by (simp add: array_from_iter_def)
next
  fix m :: "'t option list" and d e i t
  assume m: "length m = n" and d: "valid d"
  show "indexed_get_by iu d m = indexed_map valid iu m d" by (rule indexed_laws(1) [OF d])
  show "indexed_get_mut_by iu d m = None \<longleftrightarrow> indexed_map valid iu m d = None" by (rule indexed_laws(2) [OF d])
  show "d = e" if "valid e" "indexed_get_mut_by iu d m = Some i" "indexed_get_mut_by iu e m = Some i"
    by (rule indexed_laws(3) [OF d that])
  show "length (m[i := Some t]) = n \<and> indexed_map valid iu (m[i := Some t]) = (indexed_map valid iu m)(d \<mapsto> t)"
    if "indexed_get_mut_by iu d m = Some i"
    using indexed_laws(4) [OF d that] m by simp
  show "\<exists>i m'. array_get_by_or_insert iu d t m = Inr (i, m') \<and> length m' = n \<and>
     indexed_map valid iu m' = (if indexed_map valid iu m d = None then (indexed_map valid iu m)(d \<mapsto> t)
       else indexed_map valid iu m) \<and> indexed_get_mut_by iu d m' = Some i"
    using array_or_insert [OF d, of m t] iu_bound [OF d] m by blast
next
  fix m :: "'t option list" and ds "is"
  assume "length m = n" "Ball (set ds) valid"
  then show "indexed_get_mut_array_by iu ds m = Inr is \<longleftrightarrow>
      distinct ds \<and> map (\<lambda>d. indexed_get_mut_by iu d m) ds = map Some is" by (intro indexed_array_by)
next
  fix m :: "'t option list"
  assume "length m = n"
  then have "bounded_ok fu m" using covers by (simp add: bounded_ok_def)
  then show "\<exists>xs. indexed_into_iter_mapped fu m = Inr xs \<and> indexed_iter_mapped fu m = Inr (map (\<lambda>(d, t). (d, d, t)) xs) \<and>
      distinct (map fst xs) \<and> map_of xs = indexed_map valid iu m" by (rule indexed_iter_ok)
qed

lemma array_stable_map:
  "stable_map (array_ops iu fu n :: ('d, 't, _) full_map_ops) valid (\<lambda>m. length m = n) (indexed_map valid iu)"
proof (intro stable_map.intro array_full_map, unfold_locales, unfold array_ops_def full_map_ops.simps)
  fix m m' :: "'t option list" and d e t i j
  assume m: "length m = n" and d: "valid d" "valid e" and ins: "array_get_by_or_insert iu d t m = Inr (i, m')"
    and j: "indexed_get_mut_by iu e m = Some j"
  from array_or_insert [OF d(1), of m t] iu_bound [OF d(1)] m ins have
    "indexed_map valid iu m' = (if indexed_map valid iu m d = None then (indexed_map valid iu m)(d \<mapsto> t) else indexed_map valid iu m)"
    by auto
  then have "indexed_map valid iu m' e \<noteq> None" using indexed_laws(2) [OF d(2), of m] j by auto
  then show "indexed_get_mut_by iu e m' = Some j"
    using indexed_laws(2) [OF d(2), of m'] j by (auto simp: indexed_get_mut_by_def)
next
  fix m m' :: "'t option list" and ds ins "is"
  assume "Ball (set ds) valid" "distinct ds" "distinct is" "map (\<lambda>d. indexed_get_mut_by iu d m') ds = map Some is"
    and "insert_indices (\<lambda>d. array_get_by_or_insert iu d (ins d)) ds m = Inr (is, m')"
  then show "array_get_by_or_insert_array iu fu ds ins (\<lambda>_ slot. Inr slot) m = Inr (is, m')"
    by (simp add: array_get_by_or_insert_array_def indexed_split_ok)
qed

end

subsection \<open>Derived discriminants\<close>

text \<open>The variants of an enum are pairwise different; \<open>remdups\<close> states this for any list.\<close>

interpretation enum: finite_discrim "\<lambda>d. d \<in> set vs" "enum_into_usize (remdups vs)"
  "enum_from_usize (remdups vs)" "length (remdups vs)" for vs
proof
  fix d assume "d \<in> set vs"
  then obtain i where "position d (remdups vs) = Some i" by (metis not_Some_eq position_None set_remdups)
  with position_Some [OF this] show "enum_from_usize (remdups vs) (enum_into_usize (remdups vs) d) = Inr d"
    by (simp add: enum_from_usize_def enum_into_usize_def)
next
  fix i d assume "enum_from_usize (remdups vs) i = Inr d"
  then have i: "i < length (remdups vs)" "remdups vs ! i = d" by (simp_all add: enum_from_usize_def)
  with position_distinct [of "remdups vs" i] nth_mem [of i "remdups vs"]
  show "d \<in> set vs \<and> enum_into_usize (remdups vs) d = i" by (simp add: enum_into_usize_def)
next
  fix i show "(\<exists>d. enum_from_usize (remdups vs) i = Inr d) \<longleftrightarrow> i < length (remdups vs)"
    by (simp add: enum_from_usize_def)
qed

interpretation enum_linear: stable_map linear_ops "\<lambda>d. d \<in> set vs" "pairs_ok (\<lambda>d. d \<in> set vs)" map_of for vs
  by (rule enum.linear_stable_map)

interpretation enum_sorted: full_map "sorted_ops (enum_into_usize (remdups vs))" "\<lambda>d. d \<in> set vs"
  "sorted_ok (\<lambda>d. d \<in> set vs) (enum_into_usize (remdups vs))" map_of for vs
  by (rule enum.sorted_full_map)

interpretation enum_bounded: stable_map "bounded_ops (enum_into_usize (remdups vs)) (enum_from_usize (remdups vs)) (\<lambda>k. min k h)"
  "\<lambda>d. d \<in> set vs" "bounded_ok (enum_from_usize (remdups vs))"
  "indexed_map (\<lambda>d. d \<in> set vs) (enum_into_usize (remdups vs))" for vs h
  by (rule enum.bounded_stable_map) simp

interpretation enum_array: stable_map "array_ops (enum_into_usize (remdups vs)) (enum_from_usize (remdups vs)) (length (remdups vs))"
  "\<lambda>d. d \<in> set vs" "\<lambda>m. length m = length (remdups vs)"
  "indexed_map (\<lambda>d. d \<in> set vs) (enum_into_usize (remdups vs))" for vs
  by (rule enum.array_stable_map)

text \<open>A structure around a \<open>usize\<close>, whose conversions are the identity.\<close>

interpretation usize: dense_discrim "\<lambda>_. True" "newtype_into_usize id" "newtype_from_usize Inr"
  by unfold_locales (auto simp: newtype_into_usize_def newtype_from_usize_def)

interpretation usize_bounded: stable_map "bounded_ops (newtype_into_usize id) (newtype_from_usize Inr) (\<lambda>k. min k h)"
  "\<lambda>_. True" "bounded_ok (newtype_from_usize Inr)" "indexed_map (\<lambda>_. True) (newtype_into_usize id)" for h
  by (rule usize.bounded_stable_map) simp

interpretation usize_sorted: full_map "sorted_ops (newtype_into_usize id)" "\<lambda>_. True"
  "sorted_ok (\<lambda>_. True) (newtype_into_usize id)" map_of
  by (rule usize.sorted_full_map)

subsection \<open>Properties\<close>

text \<open>The sorted map inserts at an index below the slots that are already taken.\<close>

lemma sorted_insert_shifts:
  assumes "discrim valid iu fu" and m: "sorted_ok valid iu m" and v: "valid d" "valid e" "iu d < iu e"
    and "map_of m d = None" and e: "sorted_get_mut_by iu e m = Some j"
  shows "\<exists>i. i \<le> j \<and> sorted_get_by_or_insert iu d t m = Inr (i, insert_at i (d, t) m) \<and>
     sorted_get_by_or_insert iu e u m = Inr (j, m) \<and>
     sorted_get_mut_by iu e (insert_at i (d, t) m) = Some (Suc j) \<and> j < length m"
proof -
  note [simp] = discrim.sorted_finds [OF assms(1)]
  have j: "j < length m" "fst (m ! j) = e" using finds_slotsD [of valid "sorted_get_mut_by iu" m e j] m v(2) e by auto
  have "sorted_get_mut_by iu d m = None" using finds_slots_None [of valid "sorted_get_mut_by iu" m d] m v(1) assms(6) by simp
  then obtain i where i: "sorted_search iu d m = Inl i" by (auto simp: sorted_get_mut_by_def split: sum.splits)
  note ins = discrim.sorted_search_Inl [OF assms(1) m v(1) i]
  have "i \<le> j"
  proof (rule ccontr)
    assume "\<not> i \<le> j"
    then have "j < length (takeWhile (\<lambda>x. (case x of (d, _) \<Rightarrow> iu d) < iu d) m)"
      using i by (auto simp: sorted_search_def binary_search_by_key_def Let_def split: if_splits)
    then have "iu (fst (m ! j)) < iu d"
      using nth_mem set_takeWhileD takeWhile_nth by (fastforce simp: case_prod_beta)
    with j v(3) show False by simp
  qed
  moreover have "insert_at i (d, t) m ! Suc j = m ! j" "length (insert_at i (d, t) m) = Suc (length m)"
    using \<open>i \<le> j\<close> j(1) by (simp_all add: insert_at_def nth_append Suc_diff_le)
  then have "sorted_get_mut_by iu e (insert_at i (d, t) m) = Some (Suc j)"
    using finds_slotsD [OF discrim.sorted_finds [OF assms(1) ins(1) [of t]] v(2), of "Suc j"] j by simp
  moreover have "sorted_search iu e m = Inr j" using e by (auto simp: sorted_get_mut_by_def split: sum.splits)
  ultimately show ?thesis using i j(1) by (auto simp: sorted_get_by_or_insert_def)
qed

text \<open>
  C27. The choice of the map is invisible. For the variants of an enum, building any of the four
  maps from pairs with different discriminants and running any program of lookups, lazy insertions and
  writes through references gives the results of the same program on a partial map, without a panic.
\<close>

theorem full_maps_agree:
  fixes vs :: "'d list" and xs :: "('d \<times> 't) list"
  assumes "distinct vs" and "distinct (map fst xs)" and "fst ` set xs \<subseteq> set vs"
    and "list_all (\<lambda>p. op_key p \<in> set vs) ps"
  shows "bind_res (linear_from_iter xs) (run_map linear_ops ps) = Inr (run_spec_map ps (map_of xs)) \<and>
    bind_res (sorted_from_iter (enum_into_usize vs) xs) (run_map (sorted_ops (enum_into_usize vs)) ps) =
      Inr (run_spec_map ps (map_of xs)) \<and>
    bind_res (bounded_from_iter (enum_into_usize vs) (min (length xs) h) xs)
        (run_map (bounded_ops (enum_into_usize vs) (enum_from_usize vs) (\<lambda>k. min k h)) ps) =
      Inr (run_spec_map ps (map_of xs)) \<and>
    bind_res (array_from_iter (enum_into_usize vs) (length vs) xs)
        (run_map (array_ops (enum_into_usize vs) (enum_from_usize vs) (length vs)) ps) =
      Inr (run_spec_map ps (map_of xs))"
proof -
  have vs: "remdups vs = vs" using assms(1) by (simp add: distinct_remdups_id)
  have keys: "Ball (fst ` set xs) (\<lambda>d. d \<in> set vs)" using assms(3) by auto
  note run = enum_linear.program_refines [OF assms(2) keys assms(4)]
    enum_sorted.program_refines [OF assms(2) keys assms(4), unfolded vs]
    enum_bounded.program_refines [OF assms(2) keys assms(4), where h = h, unfolded vs]
    enum_array.program_refines [OF assms(2) keys assms(4), unfolded vs]
  show ?thesis
    using run unfolding map_ops_defs full_map_ops.simps by blast
qed

theorem full_maps_agree_witness:
  "distinct [''hp'', ''mp'', ''xp''] \<and>
   bind_res (array_from_iter (enum_into_usize [''hp'', ''mp'', ''xp'']) 3 [(''xp'', 5 :: nat)])
     (run_map (array_ops (enum_into_usize [''hp'', ''mp'', ''xp'']) (enum_from_usize [''hp'', ''mp'', ''xp'']) 3)
       [Or_Insert ''mp'' 7, Write ''xp'' 6, Lookup ''xp'', Or_Insert ''mp'' 8]) =
     Inr [Some 7, Some 5, Some 6, Some 7]"
proof -
  let ?vs = "[''hp'', ''mp'', ''xp'']" and ?xs = "[(''xp'', 5 :: nat)]"
  let ?ps = "[Or_Insert ''mp'' 7, Write ''xp'' 6, Lookup ''xp'', Or_Insert ''mp'' (8 :: nat)]"
  have "run_spec_map ?ps (map_of ?xs) = [Some 7, Some 5, Some 6, Some 7]" and "length ?vs = 3" by simp_all
  then show ?thesis
    using full_maps_agree [of ?vs ?xs ?ps 0, THEN conjunct2, THEN conjunct2, THEN conjunct2] by (simp only:) simp
qed





text \<open>
  C29. In the sorted map they do not even point to the right isotope. When \<open>e\<close> is present, a smaller
  \<open>d\<close> is not, and both are requested in the order \<open>e\<close>, \<open>d\<close>, inserting \<open>d\<close> moves the slot of \<open>e\<close> after
  its index was taken: the operation panics although the discriminants differ, or the reference
  returned for \<open>e\<close> is not the slot of \<open>e\<close>.
\<close>

theorem sorted_array_stale_reference:
  assumes "discrim valid iu fu" and "sorted_ok valid iu m" and "valid d" and "valid e" and "iu d < iu e"
    and "map_of m d = None" and "sorted_get_mut_by iu e m = Some j"
  shows "(\<exists>i m'. sorted_get_by_or_insert_array iu [e, d] ins (\<lambda>_ slot. Inr slot) m = Inr ([j, i], m') \<and>
            sorted_get_mut_by iu e m' \<noteq> Some j) \<or>
         sorted_get_by_or_insert_array iu [e, d] ins (\<lambda>_ slot. Inr slot) m = Inl DuplicateKey"
proof -
  from sorted_insert_shifts [OF assms, of "ins d" "ins e"] obtain i where i: "i \<le> j"
    "sorted_get_by_or_insert iu d (ins d) m = Inr (i, insert_at i (d, ins d) m)"
    "sorted_get_by_or_insert iu e (ins e) m = Inr (j, m)"
    "sorted_get_mut_by iu e (insert_at i (d, ins d) m) = Some (Suc j)" "j < length m" by blast
  then show ?thesis
    by (auto simp: sorted_get_by_or_insert_array_def split_mut_array_def slot_ref_eq insert_at_def list_ex_iff)
qed

theorem sorted_array_stale_reference_witness:
  "\<exists>i m'. sorted_get_by_or_insert_array id [30, 10] (\<lambda>_. ''new'') (\<lambda>_ slot. Inr slot) [(20, ''a''), (30, ''b'')] =
       Inr ([1, i], m') \<and> sorted_get_mut_by id 30 m' \<noteq> Some 1"
proof -
  let ?m = "[(20 :: nat, ''a''), (30, ''b'')]"
  have d: "discrim (\<lambda>_. True) (id :: nat \<Rightarrow> nat) Inr" by unfold_locales auto
  have m: "sorted_ok (\<lambda>_. True) id ?m" by (simp add: sorted_ok_def pairs_ok_def)
  have e: "sorted_get_mut_by id 30 ?m = Some 1" by code_simp
  have "sorted_get_by_or_insert_array id [30, 10] (\<lambda>_. ''new'') (\<lambda>_ slot. Inr slot) ?m =
     Inr ([1, 0], [(10, ''new''), (20, ''a''), (30, ''b'')])" by code_simp
  then show ?thesis
    using sorted_array_stale_reference [OF d m _ _ _ _ e, of 10 "\<lambda>_. ''new''"] by simp
qed

text \<open>The bounded map passes the position in the request on as the discriminant.\<close>

lemma bounded_array_wrong_discrim:
  fixes ins :: "nat \<Rightarrow> 't"
  shows "\<exists>m'. bounded_get_by_or_insert_array (newtype_into_usize id) (newtype_from_usize Inr) [d] ins
      (\<lambda>discrim slot. Inr (discrim, slot)) [] = Inr ([(0, d)], m')"
proof -
  have "list_grow (Suc d) (None :: 't option) [] = replicate d None @ [None]"
    by (simp add: list_grow_def replicate_append_same)
  then have "bounded_get_by_or_insert (newtype_into_usize id) d (ins d) [] = Inr (d, replicate d None @ [Some (ins d)])"
    by (simp add: bounded_get_by_or_insert_def newtype_into_usize_def get_or_insert_with_def nth_append list_update_append Let_def)
  then show ?thesis
    by (simp add: bounded_get_by_or_insert_array_def indexed_split_def split_mut_array_def
        newtype_from_usize_def list_get_def nth_append)
qed

end
