(* ===== verification/Entity_Track.thy ===== *)
theory Entity_Track
  imports Raw "HOL-Library.Finite_Map"
begin

section \<open>References to entities\<close>

text \<open>
  \<open>src/entity/generation.rs\<close>, \<open>src/entity/rctrack.rs\<close>, the reference types of \<open>src/entity.rs\<close> and
  the visitors of \<open>src/entity/referrer.rs\<close>, \<open>referrer/search_single.rs\<close> and
  \<open>referrer/std_impl.rs\<close>. An \<open>Arc<()>\<close> is its address; the reference counts behind the addresses
  belong to the world. A \<open>Generation\<close> is a word of 32 bits that wraps around.
\<close>

subsection \<open>Generations\<close>

type_synonym generation = "32 word"

definition gen_next :: "nat \<Rightarrow> generation list \<Rightarrow> generation \<times> generation list" where
  "gen_next i vec =
     (let vec1 = (if length vec \<le> i then list_grow (i + 1) 0 vec else vec);
          g = vec1 ! i + 1
      in (g, vec1[i := g]))"

definition gen_get :: "nat \<Rightarrow> generation list \<Rightarrow> generation" where
  "gen_get i vec = (case list_get vec i of Some g \<Rightarrow> g | None \<Rightarrow> 0)"

definition gen_map_next :: "'a \<Rightarrow> nat \<Rightarrow> ('a, generation list) fmap \<Rightarrow> generation \<times> ('a, generation list) fmap" where
  "gen_map_next a i m =
     (let (g, vec) = gen_next i (case fmlookup m a of Some vec \<Rightarrow> vec | None \<Rightarrow> []) in (g, fmupd a vec m))"

definition gen_map_get :: "'a \<Rightarrow> nat \<Rightarrow> ('a, generation list) fmap \<Rightarrow> generation" where
  "gen_map_get a i m = (case fmlookup m a of Some vec \<Rightarrow> gen_get i vec | None \<Rightarrow> 0)"

subsection \<open>The tracker of last strong references\<close>

definition rc_set :: "nat \<Rightarrow> nat \<Rightarrow> nat option list \<Rightarrow> nat option list res" where
  "rc_set i rc vec =
     (let vec1 = (if length vec \<le> i then list_grow (i + 1) None vec else vec) in
      bind_res (assert_res NotFreed (vec1 ! i = None)) (\<lambda>_. Inr (vec1[i := Some rc])))"

definition rc_remove :: "nat \<Rightarrow> nat option list \<Rightarrow> (nat \<times> nat option list) res" where
  "rc_remove i vec =
     bind_res (expect DoubleFree (list_get vec i)) (\<lambda>opt.
     bind_res (expect DoubleFree opt) (\<lambda>rc. Inr (rc, vec[i := None])))"

definition rc_get :: "nat \<Rightarrow> nat option list \<Rightarrow> nat option" where
  "rc_get i vec = (case list_get vec i of Some opt \<Rightarrow> opt | None \<Rightarrow> None)"

definition rctrack_set :: "'a \<Rightarrow> nat \<Rightarrow> nat \<Rightarrow> ('a, nat option list) fmap \<Rightarrow> ('a, nat option list) fmap res" where
  "rctrack_set a i rc m =
     bind_res (rc_set i rc (case fmlookup m a of Some vec \<Rightarrow> vec | None \<Rightarrow> [])) (\<lambda>vec. Inr (fmupd a vec m))"

definition rctrack_remove :: "'a \<Rightarrow> nat \<Rightarrow> ('a, nat option list) fmap \<Rightarrow> (nat \<times> ('a, nat option list) fmap) res" where
  "rctrack_remove a i m =
     bind_res (expect UnknownArchetype (fmlookup m a)) (\<lambda>vec.
     bind_res (rc_remove i vec) (\<lambda>(rc, vec'). Inr (rc, fmupd a vec' m)))"

text \<open>\<open>to_strong\<close>: the entity's identifier with a clone of the tracked \<open>Arc\<close>.\<close>

definition to_strong :: "'a \<Rightarrow> nat \<Rightarrow> ('a, nat option list) fmap \<Rightarrow> (nat \<times> nat) res" where
  "to_strong a i m =
     bind_res (expect UnknownArchetype (fmlookup m a)) (\<lambda>vec.
     bind_res (expect DoubleFree (rc_get i vec)) (\<lambda>rc. Inr (i, rc)))"

text \<open>The slot of an entity in the tracker.\<close>

definition tracked :: "('a, nat option list) fmap \<Rightarrow> 'a \<Rightarrow> nat \<Rightarrow> nat option" where
  "tracked m a i = (case fmlookup m a of Some vec \<Rightarrow> rc_get i vec | None \<Rightarrow> None)"

subsection \<open>Strong, weak and temporary references\<close>

record 'e strong_ref =
  sr_id :: 'e
  sr_rc :: nat

record 'e weak_ref =
  wr_id :: 'e
  wr_generation :: generation
  wr_rc :: nat

text \<open>\<open>Entity::weak\<close>, with the generation store of the archetype.\<close>

definition entity_weak :: "'w::len raw strong_ref \<Rightarrow> generation list option \<Rightarrow> 'w raw weak_ref res" where
  "entity_weak r store =
     bind_res (expect UnknownArchetype store) (\<lambda>vec.
     Inr \<lparr>wr_id = sr_id r, wr_generation = gen_get (to_primitive (sr_id r)) vec, wr_rc = sr_rc r\<rparr>)"

record 'e temp_ref_chunk =
  ch_start :: 'e
  ch_end :: 'e

definition chunk_get :: "nat \<Rightarrow> 'w::len raw temp_ref_chunk \<Rightarrow> 'w raw option res" where
  "chunk_get offset c =
     bind_res (raw_add (ch_start c) offset) (\<lambda>e. Inr (if e < ch_end c then Some e else None))"

text \<open>\<open>iter::successors\<close>: each item is yielded before its successor is asked for.\<close>

function chunk_iter_from :: "'w::len raw \<Rightarrow> 'w raw \<Rightarrow> 'w raw list res" where
  "chunk_iter_from e end =
     bind_res (raw_add e 1) (\<lambda>next.
     if next < end then bind_res (chunk_iter_from next end) (\<lambda>rest. Inr (e # rest)) else Inr [e])"
  by pat_completeness auto

lemma raw_add_one_unat: "raw_add e 1 = Inr next \<Longrightarrow> unat next = unat e + 1"
  by (auto simp: raw_add_def checked_plus_Inr simp del: One_nat_def)

termination chunk_iter_from
  by (relation "measure (\<lambda>(e, end). unat end - unat e)")
    (auto simp: word_less_nat_alt dest: raw_add_one_unat simp del: One_nat_def)

declare chunk_iter_from.simps [simp del]

definition chunk_iter :: "'w::len raw temp_ref_chunk \<Rightarrow> 'w raw list res" where
  "chunk_iter c = chunk_iter_from (ch_start c) (ch_end c)"

subsection \<open>Visiting the references a value holds\<close>

text \<open>
  What \<open>visit_mut\<close> sees of a value: its references and those of its fields or items, in order. The
  containers of \<open>std_impl.rs\<close> visit their items (\<open>Fields\<close>).
\<close>

datatype 'a referrer = Strong 'a nat | Weak 'a nat | Fields "'a referrer list"

record 'a search_single =
  sg_ty :: 'a
  sg_raw :: nat
  sg_found :: "string list"
  sg_current :: string

definition search_new :: "'a \<Rightarrow> nat \<Rightarrow> 'a search_single" where
  "search_new ty raw = \<lparr>sg_ty = ty, sg_raw = raw, sg_found = [], sg_current = []\<rparr>"

definition set_debug_name :: "string \<Rightarrow> 'a search_single \<Rightarrow> 'a search_single" where
  "set_debug_name name s = s\<lparr>sg_current := name\<rparr>"

definition visit_strong :: "'a \<Rightarrow> nat \<Rightarrow> 'a search_single \<Rightarrow> 'a search_single" where
  "visit_strong a raw s =
     (if a = sg_ty s \<and> raw = sg_raw s \<and> \<not> (sg_found s \<noteq> [] \<and> last (sg_found s) = sg_current s)
      then s\<lparr>sg_found := sg_found s @ [sg_current s]\<rparr> else s)"

fun visit_mut :: "'a referrer \<Rightarrow> 'a search_single \<Rightarrow> 'a search_single" where
  "visit_mut (Strong a raw) s = visit_strong a raw s"
| "visit_mut (Weak a raw) s = s"
| "visit_mut (Fields rs) s = fold visit_mut rs s"

text \<open>\<open>UnnamedIter\<close> and \<open>NamedIter\<close> (also \<open>NamedBoxIter\<close>).\<close>

definition search_unnamed :: "'a referrer list \<Rightarrow> 'a search_single \<Rightarrow> 'a search_single" where
  "search_unnamed items s = fold visit_mut items s"

definition search_named :: "(string \<times> 'a referrer list) list \<Rightarrow> 'a search_single \<Rightarrow> 'a search_single" where
  "search_named objs s = fold (\<lambda>(name, items) s. search_unnamed items (set_debug_name name s)) objs s"

subsection \<open>Types that may hold references\<close>

text \<open>
  \<open>Referrer::visit_type\<close>: a type is an entity reference, a weak reference, or has other types below
  it. \<open>mark\<close> cuts the recursion at a type that was visited before. The types still to be visited are
  a list, \<open>all_types\<close> the finitely many types of the program.
\<close>

datatype ('ty, 'a) type_node = EntityType 'a | WeakType | Compound "'ty list"

record ('ty, 'a) visit_type_arg =
  recursion_guard :: "'ty set"
  found_archs :: "'a set"

definition visit_type_new :: "('ty, 'a) visit_type_arg" where
  "visit_type_new = \<lparr>recursion_guard = {}, found_archs = {}\<rparr>"

text \<open>\<open>mark\<close>: whether the visit goes on, and the argument with the type marked.\<close>

definition mark :: "'ty \<Rightarrow> ('ty, 'a) visit_type_arg \<Rightarrow> bool \<times> ('ty, 'a) visit_type_arg" where
  "mark ty arg = (ty \<notin> recursion_guard arg, arg\<lparr>recursion_guard := insert ty (recursion_guard arg)\<rparr>)"

function visit_types :: "'ty list \<Rightarrow> ('ty \<Rightarrow> ('ty, 'a) type_node) \<Rightarrow> 'ty list \<Rightarrow> ('ty, 'a) visit_type_arg
    \<Rightarrow> ('ty, 'a) visit_type_arg" where
  "visit_types all_types node [] arg = arg"
| "visit_types all_types node (ty # tys) arg =
     (let (continue, arg1) = mark ty arg in
      if \<not> continue \<or> ty \<notin> set all_types then visit_types all_types node tys arg1
      else case node ty of
             EntityType a \<Rightarrow> visit_types all_types node tys (arg1\<lparr>found_archs := insert a (found_archs arg1)\<rparr>)
           | WeakType \<Rightarrow> visit_types all_types node tys arg1
           | Compound inner \<Rightarrow> visit_types all_types node (inner @ tys) arg1)"
  by pat_completeness auto

termination visit_types
proof (relation "inv_image (less_than <*lex*> less_than)
    (\<lambda>(all_types, node, tys, arg). (card (set all_types - recursion_guard arg), length tys))", goal_cases)
  case 1
  then show ?case by blast
next
  case (2 all_types node ty tys arg x continue arg1)
  have "card (set all_types - insert ty (recursion_guard arg)) \<le> card (set all_types - recursion_guard arg)"
    by (intro card_mono) auto
  with 2 show ?case by (auto simp: mark_def le_less)
next
  case (3 all_types node ty tys arg x continue arg1 a)
  then have "card (set all_types - insert ty (recursion_guard arg)) < card (set all_types - recursion_guard arg)"
    by (intro psubset_card_mono) (auto simp: mark_def)
  with 3 show ?case by (auto simp: mark_def)
next
  case (4 all_types node ty tys arg x continue arg1)
  then have "card (set all_types - insert ty (recursion_guard arg)) < card (set all_types - recursion_guard arg)"
    by (intro psubset_card_mono) (auto simp: mark_def)
  with 4 show ?case by (auto simp: mark_def)
next
  case (5 all_types node ty tys arg x continue arg1 inner)
  then have "card (set all_types - insert ty (recursion_guard arg)) < card (set all_types - recursion_guard arg)"
    by (intro psubset_card_mono) (auto simp: mark_def)
  with 5 show ?case by (auto simp: mark_def)
qed

subsection \<open>Generations count allocations\<close>

lemma gen_get_next:
  "gen_get j (snd (gen_next i vec)) = (if j = i then gen_get i vec + 1 else gen_get j vec)"
  "fst (gen_next i vec) = gen_get i vec + 1"
  by (auto simp: gen_next_def gen_get_def Let_def list_get_def nth_list_update nth_list_grow)

lemma gen_map_get_next:
  "gen_map_get b j (snd (gen_map_next a i m)) =
     (if b = a \<and> j = i then gen_map_get a i m + 1 else gen_map_get b j m)"
proof -
  have "gen_get j [] = 0" for j by (simp add: gen_get_def list_get_def)
  then show ?thesis
    by (auto simp: gen_map_get_def gen_map_next_def case_prod_beta gen_get_next split: option.split)
qed

text \<open>After any sequence of allocations the generation is their number modulo \<open>2 ^ 32\<close>.\<close>

lemma gen_map_get_fold:
  "gen_map_get a i (fold (\<lambda>(b, j). snd \<circ> gen_map_next b j) ps m) =
     gen_map_get a i m + of_nat (count_list ps (a, i))"
  by (induction ps arbitrary: m) (auto simp: gen_map_get_next case_prod_beta)

subsection \<open>The tracker holds one reference per entity\<close>

lemma rctrack_set_outcome:
  "rctrack_set a i rc m =
     (if tracked m a i \<noteq> None then Inl NotFreed
      else Inr (fmupd a ((list_grow (i + 1) None (case fmlookup m a of Some vec \<Rightarrow> vec | None \<Rightarrow> []))[i := Some rc]) m))"
proof -
  let ?vec = "case fmlookup m a of Some vec \<Rightarrow> vec | None \<Rightarrow> []"
  let ?vec1 = "if length ?vec \<le> i then list_grow (i + 1) None ?vec else ?vec"
  have grow: "?vec1 = list_grow (i + 1) None ?vec" by (simp add: list_grow_def)
  have "tracked m a i = ?vec1 ! i"
    by (auto simp: grow tracked_def rc_get_def list_get_def nth_list_grow split: option.split)
  then show ?thesis
    unfolding rctrack_set_def rc_set_def Let_def grow by (simp add: assert_res_def)
qed

lemma tracked_set:
  "rctrack_set a i rc m = Inr m' \<Longrightarrow>
     tracked m' b j = (if b = a \<and> j = i then Some rc else tracked m b j)"
  unfolding rctrack_set_outcome
  by (auto simp: tracked_def rc_get_def list_get_def nth_list_grow nth_list_update split: if_splits option.splits)

lemma rctrack_remove_Inr:
  assumes "rctrack_remove a i m = Inr (rc, m')"
  shows "tracked m a i = Some rc" and "tracked m' b j = (if b = a \<and> j = i then None else tracked m b j)"
  using assms
  by (auto simp: rctrack_remove_def rc_remove_def tracked_def rc_get_def list_get_def nth_list_update split: if_splits option.splits)

lemma rctrack_remove_total:
  assumes "tracked m a i = Some rc"
  shows "\<exists>m'. rctrack_remove a i m = Inr (rc, m')"
  using assms
  by (auto simp: rctrack_remove_def rc_remove_def tracked_def rc_get_def list_get_def split: if_splits option.splits)

lemma rctrack_remove_Inl:
  assumes "tracked m a i = None"
  shows "\<exists>p. rctrack_remove a i m = Inl p"
  using rctrack_remove_Inr(1) [of a i m] assms by (metis option.distinct(1) old.prod.exhaust sum.exhaust)

subsection \<open>The search names the holders\<close>

fun mentions :: "'a \<Rightarrow> nat \<Rightarrow> 'a referrer \<Rightarrow> bool" where
  "mentions a n (Strong b m) = (b = a \<and> m = n)"
| "mentions a n (Weak b m) = False"
| "mentions a n (Fields rs) = list_ex (mentions a n) rs"

definition reported :: "'a search_single \<Rightarrow> bool" where
  "reported s \<longleftrightarrow> sg_found s \<noteq> [] \<and> last (sg_found s) = sg_current s"

definition report :: "'a search_single \<Rightarrow> 'a search_single" where
  "report s = (if reported s then s else s\<lparr>sg_found := sg_found s @ [sg_current s]\<rparr>)"

lemma report_fields [simp]:
  "sg_ty (report s) = sg_ty s" "sg_raw (report s) = sg_raw s" "sg_current (report s) = sg_current s"
  "report (report s) = report s"
  by (simp_all add: report_def reported_def)

lemma fold_visit:
  assumes "\<And>r s. r \<in> set rs \<Longrightarrow> visit_mut r s = (if mentions (sg_ty s) (sg_raw s) r then report s else s)"
  shows "fold visit_mut rs s = (if list_ex (mentions (sg_ty s) (sg_raw s)) rs then report s else s)"
  using assms by (induction rs arbitrary: s) auto

lemma visit_mut_report:
  "visit_mut r s = (if mentions (sg_ty s) (sg_raw s) r then report s else s)"
proof (induction r arbitrary: s)
  case (Strong a n)
  then show ?case by (auto simp: visit_strong_def report_def reported_def)
next
  case (Fields rs)
  then show ?case using fold_visit [of rs s] by simp
qed simp

lemma search_unnamed_report:
  "search_unnamed items s = (if list_ex (mentions (sg_ty s) (sg_raw s)) items then report s else s)"
  unfolding search_unnamed_def by (rule fold_visit) (rule visit_mut_report)

lemma set_report: "set (sg_found (report s)) = insert (sg_current s) (set (sg_found s))"
  by (auto simp: report_def reported_def dest: last_in_set)

lemma search_named_found:
  "set (sg_found (search_named objs s)) = set (sg_found s) \<union>
     {name. \<exists>items. (name, items) \<in> set objs \<and> list_ex (mentions (sg_ty s) (sg_raw s)) items}
   \<and> sg_ty (search_named objs s) = sg_ty s \<and> sg_raw (search_named objs s) = sg_raw s"
proof (induction objs arbitrary: s)
  case (Cons obj objs)
  obtain name items where obj: "obj = (name, items)" by fastforce
  let ?s = "search_unnamed items (set_debug_name name s)"
  have step: "search_named (obj # objs) s = search_named objs ?s" by (simp add: search_named_def obj)
  have "set (sg_found ?s) = set (sg_found s) \<union> (if list_ex (mentions (sg_ty s) (sg_raw s)) items then {name} else {})"
    and "sg_ty ?s = sg_ty s" and "sg_raw ?s = sg_raw s"
    by (simp_all add: search_unnamed_report set_debug_name_def set_report)
  with Cons.IH [of ?s] obj show ?case unfolding step by auto
qed (simp add: search_named_def)

subsection \<open>Visiting types finds every archetype\<close>

definition type_edges :: "('ty \<Rightarrow> ('ty, 'a) type_node) \<Rightarrow> ('ty \<times> 'ty) set" where
  "type_edges node = {(t, u). \<exists>inner. node t = Compound inner \<and> u \<in> set inner}"

definition visit_inv :: "('ty \<Rightarrow> ('ty, 'a) type_node) \<Rightarrow> 'ty set \<Rightarrow> 'ty list \<Rightarrow> ('ty, 'a) visit_type_arg \<Rightarrow> bool" where
  "visit_inv node roots tys arg \<longleftrightarrow>
     roots \<subseteq> recursion_guard arg \<union> set tys \<and>
     recursion_guard arg \<union> set tys \<subseteq> (type_edges node)\<^sup>* `` roots \<and>
     (\<forall>(t, u) \<in> type_edges node. t \<in> recursion_guard arg \<longrightarrow> u \<in> recursion_guard arg \<union> set tys) \<and>
     found_archs arg = {a. \<exists>t \<in> recursion_guard arg. node t = EntityType a}"

lemma visit_inv_step:
  assumes inv: "visit_inv node roots (ty # tys) arg" and new: "ty \<notin> recursion_guard arg"
  shows "visit_inv node roots ((case node ty of Compound inner \<Rightarrow> inner | _ \<Rightarrow> []) @ tys)
     (arg\<lparr>recursion_guard := insert ty (recursion_guard arg),
          found_archs := (case node ty of EntityType a \<Rightarrow> insert a (found_archs arg) | _ \<Rightarrow> found_archs arg)\<rparr>)"
proof -
  let ?next = "case node ty of Compound inner \<Rightarrow> inner | _ \<Rightarrow> []"
  have ty: "ty \<in> (type_edges node)\<^sup>* `` roots" using inv by (auto simp: visit_inv_def)
  have "(ty, u) \<in> type_edges node" if "u \<in> set ?next" for u
    using that by (cases "node ty") (auto simp: type_edges_def)
  then have "set ?next \<subseteq> (type_edges node)\<^sup>* `` roots" using ty by (blast intro: rtrancl_into_rtrancl)
  moreover have "u \<in> set ?next" if "(ty, u) \<in> type_edges node" for u
    using that by (auto simp: type_edges_def)
  moreover have "(case node ty of EntityType a \<Rightarrow> insert a (found_archs arg) | _ \<Rightarrow> found_archs arg) =
      {a. \<exists>t \<in> insert ty (recursion_guard arg). node t = EntityType a}"
    using inv by (cases "node ty") (auto simp: visit_inv_def)
  ultimately show ?thesis
    using inv by (simp add: visit_inv_def) blast
qed

lemma visit_types_inv:
  assumes "visit_inv node roots tys arg" and "(type_edges node)\<^sup>* `` roots \<subseteq> set all_types"
  shows "visit_inv node roots [] (visit_types all_types node tys arg)"
  using assms
proof (induction all_types node tys arg rule: visit_types.induct)
  case (2 all_types node ty tys arg)
  let ?arg1 = "arg\<lparr>recursion_guard := insert ty (recursion_guard arg)\<rparr>"
  have m: "mark ty arg = (ty \<notin> recursion_guard arg, ?arg1)" by (simp add: mark_def)
  show ?case
  proof (cases "ty \<in> recursion_guard arg")
    case True
    then have "visit_inv node roots tys ?arg1"
      using "2.prems"(1) by (auto simp: visit_inv_def insert_absorb)
    then have "visit_inv node roots [] (visit_types all_types node tys ?arg1)"
      using "2.IH"(1) [OF m [symmetric] refl] True "2.prems"(2) by simp
    then show ?thesis using True by (simp add: m)
  next
    case False
    note step = visit_inv_step [OF "2.prems"(1) False]
    have ty: "ty \<in> set all_types" using "2.prems" by (auto simp: visit_inv_def)
    show ?thesis
    proof (cases "node ty")
      case (EntityType a)
      then show ?thesis
        using "2.IH"(2) [OF m [symmetric] refl _ EntityType] step False ty "2.prems"(2) by (simp add: m)
    next
      case WeakType
      then show ?thesis
        using "2.IH"(3) [OF m [symmetric] refl _ WeakType] step False ty "2.prems"(2) by (simp add: m)
    next
      case (Compound inner)
      then show ?thesis
        using "2.IH"(4) [OF m [symmetric] refl _ Compound] step False ty "2.prems"(2) by (simp add: m)
    qed
  qed
qed simp

lemma visit_types_found:
  assumes "(type_edges node)\<^sup>* `` set tys \<subseteq> set all_types"
  shows "found_archs (visit_types all_types node tys visit_type_new) =
     {a. \<exists>t \<in> (type_edges node)\<^sup>* `` set tys. node t = EntityType a}"
proof -
  let ?r = "visit_types all_types node tys visit_type_new"
  have "visit_inv node (set tys) tys visit_type_new" by (auto simp: visit_inv_def visit_type_new_def)
  from visit_types_inv [OF this assms] have inv: "visit_inv node (set tys) [] ?r" .
  then have "(type_edges node)\<^sup>* `` set tys \<subseteq> recursion_guard ?r"
  proof (intro subsetI, elim ImageE)
    fix t u assume t: "t \<in> set tys" and path: "(t, u) \<in> (type_edges node)\<^sup>*"
    from path t inv show "u \<in> recursion_guard ?r"
      by (induction rule: rtrancl_induct) (auto simp: visit_inv_def)
  qed
  with inv have "recursion_guard ?r = (type_edges node)\<^sup>* `` set tys" by (auto simp: visit_inv_def)
  with inv show ?thesis by (simp add: visit_inv_def)
qed

subsection \<open>Chunks of temporary references\<close>

lemma chunk_iter_from_range:
  assumes "e < end" and "e \<noteq> 0"
  shows "chunk_iter_from e end = Inr (raw_range e end)"
  using assms
proof (induction e "end" rule: chunk_iter_from.induct)
  case (1 e "end")
  have add: "raw_add e 1 = Inr (e + 1)" and succ: "unat (e + 1) = unat e + 1"
    using raw_succ [OF "1.prems"(2,1)] by auto
  have range: "raw_range e end = e # raw_range (e + 1) end" using "1.prems"(1) by (rule raw_range_Cons)
  show ?case
  proof (cases "e + 1 < end")
    case True
    have "e + 1 \<noteq> 0" using succ by (metis add_is_0 unat_0 zero_neq_one)
    with "1.IH" [OF add True True] True show ?thesis
      by (subst chunk_iter_from.simps) (simp add: add range del: One_nat_def)
  next
    case False
    then have "raw_range (e + 1) end = []" by (simp add: raw_range_def word_less_nat_alt)
    with False show ?thesis
      by (subst chunk_iter_from.simps) (simp add: add range del: One_nat_def)
  qed
qed

text \<open>An empty chunk still yields its start.\<close>

lemma chunk_iter_empty:
  assumes "end \<le> e" and "e \<noteq> 0" and "e < top"
  shows "chunk_iter_from e end = Inr [e]"
proof -
  have "raw_add e 1 = Inr (e + 1)" "unat (e + 1) = unat e + 1" using raw_succ [OF assms(2,3)] by auto
  moreover from this(2) have "\<not> e + 1 < end" using assms(1) by (simp add: word_less_nat_alt word_le_nat_alt)
  ultimately show ?thesis by (subst chunk_iter_from.simps) (simp del: One_nat_def)
qed

lemma chunk_get_nth:
  assumes "s \<noteq> 0" and "unat s + n < 2 ^ LENGTH('w)"
  shows "chunk_get n \<lparr>ch_start = (s :: 'w::len raw), ch_end = end\<rparr> =
     Inr (if n < unat end - unat s then Some (raw_range s end ! n) else None)"
proof -
  have add: "raw_add s n = Inr (of_nat (unat s + n))" by (rule raw_add_total [OF assms])
  have lt: "(of_nat (unat s + n) :: 'w raw) < end \<longleftrightarrow> n < unat end - unat s"
    using assms(2) by (auto simp: word_less_nat_alt unat_of_nat simp del: of_nat_add)
  show ?thesis
    unfolding chunk_get_def temp_ref_chunk.simps add bind_res.simps lt
    by (auto simp: raw_range_def simp del: of_nat_add)
qed

end
