(* ===== verification/World.thy ===== *)
theory World
  imports Components Ealloc Entity_Track
begin

section \<open>The world: creating and deleting entities\<close>

text \<open>
  \<open>src/storage/isotope.rs\<close>, \<open>src/world/typed.rs\<close>, \<open>src/world.rs\<close>, \<open>src/world/offline.rs\<close> and
  \<open>src/system/offline_buffer.rs\<close>: the isotope storages of a component, the initialization of an
  entity, its creation and deletion in offline mode, and the operations that systems queue for the
  end of a cycle.

  Component storages are keyed by \<open>to_primitive\<close> of the entity. A \<open>HashMap\<close> is an association list
  in its iteration order. The parameters are: \<open>ci\<close> what the code knows of a component type, \<open>ops\<close>
  the recycler of the allocators, \<open>rng\<close> the random source of the shard assigner, \<open>rc_on\<close> whether the
  entity reference counts are compiled in, and \<open>rv\<close> the references that component values, systems
  and globals hold, which are only read for the report of a dangling reference.
\<close>

subsection \<open>Isotope storages\<close>

type_synonym 'v isotope_map = "(nat \<times> (nat, 'v) fmap) list"

text \<open>The initializer of a storage created online: its dependencies cannot be read.\<close>

definition panic_dep_init :: "'t list \<Rightarrow> ('v list \<Rightarrow> 'v) \<Rightarrow> 'v res" where
  "panic_dep_init deps f = (if deps = [] then Inr (f []) else Inl Unimplemented)"

definition get_or_create :: "('t, 'v) init_strategy \<Rightarrow> nat \<Rightarrow> 'w::len raw chunk list res \<Rightarrow> 'v isotope_map
    \<Rightarrow> 'v isotope_map res" where
  "get_or_create strategy discrim entities m =
     (case map_of m discrim of
        Some storage \<Rightarrow> Inr m
      | None \<Rightarrow>
          (case strategy of
             NoInit \<Rightarrow> Inr (m @ [(discrim, fmempty)])
           | Auto deps f \<Rightarrow>
               bind_res entities (\<lambda>chunks.
               bind_res (fold_res (\<lambda>e storage. bind_res (panic_dep_init deps f) (\<lambda>v. Inr (fmupd (to_primitive e) v storage)))
                           (chunk_ids chunks) fmempty) (\<lambda>storage.
               Inr (m @ [(discrim, storage)])))))"

definition set_isotope :: "nat \<Rightarrow> nat \<Rightarrow> 'v \<Rightarrow> 'v isotope_map \<Rightarrow> 'v isotope_map" where
  "set_isotope discrim entity v m =
     map (\<lambda>(d, storage). if d = discrim then (d, fmupd entity v storage) else (d, storage)) m"

definition fill_given_isotope :: "('t, 'v) init_strategy \<Rightarrow> ('w::len raw, 'r) recycling \<Rightarrow> nat \<Rightarrow> nat \<times> 'v
    \<Rightarrow> 'v isotope_map \<Rightarrow> 'v isotope_map res" where
  "fill_given_isotope strategy al entity dv m =
     bind_res (take_snapshot al) (\<lambda>(sn, _).
     bind_res (get_or_create strategy (fst dv) (iter_allocated_chunks sn) m) (\<lambda>m'.
     Inr (set_isotope (fst dv) entity (snd dv) m')))"

definition fill_auto_isotope :: "('t, 'v) simple_storages \<Rightarrow> 't list \<Rightarrow> ('v list \<Rightarrow> 'v) \<Rightarrow> nat \<Rightarrow> (nat, 'v) fmap
    \<Rightarrow> (nat, 'v) fmap res" where
  "fill_auto_isotope ss deps f entity storage =
     (if fmlookup storage entity = None
      then bind_res (dep_values ss None entity [] deps) (\<lambda>vs. Inr (fmupd entity (f vs) storage))
      else Inr storage)"

definition fill_init_isotope :: "('t \<Rightarrow> ('t, 'v) comp_info) \<Rightarrow> ('t, 'v) simple_storages \<Rightarrow> ('w::len raw, 'r) recycling
    \<Rightarrow> nat \<Rightarrow> 't \<Rightarrow> 'v isotope_map \<times> ('t, 'v) comp_map \<Rightarrow> ('v isotope_map \<times> ('t, 'v) comp_map) res" where
  "fill_init_isotope ci ss al entity c s =
     (case s of (m, cm) \<Rightarrow>
        let (values, cm1) = remove_isotope c cm in
        bind_res (fold_res (fill_given_isotope (ci_init (ci c)) al entity) values m) (\<lambda>m1.
        case ci_init (ci c) of
          Auto deps f \<Rightarrow> bind_res (map_values_res (fill_auto_isotope ss deps f entity) m1) (\<lambda>m2. Inr (m2, cm1))
        | NoInit \<Rightarrow>
            if ci_presence (ci c) = Required \<and> length values \<noteq> length m1 then Inl MissingComponent
            else Inr (m1, cm1)))"

subsection \<open>The storages of an archetype\<close>

record ('t, 'v) typed =
  ty_simple :: "('t, 'v) simple_storages"
  ty_isotope :: "('t \<times> 'v isotope_map) list"

fun init_isotopes :: "('t \<Rightarrow> ('t, 'v) comp_info) \<Rightarrow> ('t, 'v) simple_storages \<Rightarrow> ('w::len raw, 'r) recycling
    \<Rightarrow> nat \<Rightarrow> ('t \<times> 'v isotope_map) list \<Rightarrow> ('t, 'v) comp_map \<Rightarrow> ('t \<times> 'v isotope_map) list res" where
  "init_isotopes ci ss al entity [] cm = Inr []"
| "init_isotopes ci ss al entity ((c, m) # ms) cm =
     bind_res (fill_init_isotope ci ss al entity c (m, cm)) (\<lambda>(m', cm').
     bind_res (init_isotopes ci ss al entity ms cm') (\<lambda>ms'. Inr ((c, m') # ms')))"

definition typed_init_entity :: "('t \<Rightarrow> ('t, 'v) comp_info) \<Rightarrow> ('w::len raw, 'r) recycling \<Rightarrow> nat
    \<Rightarrow> ('t, 'v) comp_map \<Rightarrow> ('t, 'v) typed \<Rightarrow> ('t, 'v) typed res" where
  "typed_init_entity ci al entity cm ty =
     bind_res (init_simple ci entity (ty_simple ty, cm)) (\<lambda>(ss, cm1).
     bind_res (init_isotopes ci ss al entity (ty_isotope ty) cm1) (\<lambda>ms.
     Inr (ty\<lparr>ty_simple := ss, ty_isotope := ms\<rparr>)))"

subsection \<open>The world\<close>

datatype ('a, 'e, 't, 'v) offline_op =
    CreateEntity 'a 'e nat "('t, 'v) comp_map"
  | DeleteEntity 'a 'e

text \<open>
  \<open>w_strong\<close> gives the strong count of every \<open>Arc<()>\<close>, \<open>w_arcs\<close> the number of those allocated so
  far; \<open>w_rerun\<close> and \<open>w_shards\<close> are the offline buffer.
\<close>

record ('a, 't, 'v, 'e, 'r) world =
  w_ealloc :: "('a \<times> ('e, 'r) recycling) list"
  w_comps :: "('a \<times> ('t, 'v) typed) list"
  w_gen :: "('a, generation list) fmap"
  w_rctrack :: "('a, nat option list) fmap"
  w_strong :: "nat \<Rightarrow> nat"
  w_arcs :: nat
  w_rerun :: "('a, 'e, 't, 'v) offline_op list"
  w_shards :: "('a, 'e, 't, 'v) offline_op list list"

text \<open>\<open>Components::archetype_mut\<close> and the update through the reference.\<close>

definition archetype_mut :: "'a \<Rightarrow> ('a, 't, 'v, 'e, 'r) world \<Rightarrow> ('t, 'v) typed res" where
  "archetype_mut a w = expect UnknownArchetype (map_of (w_comps w) a)"

definition put_typed :: "'a \<Rightarrow> ('t, 'v) typed \<Rightarrow> ('a, 't, 'v, 'e, 'r) world \<Rightarrow> ('a, 't, 'v, 'e, 'r) world" where
  "put_typed a ty w = w\<lparr>w_comps := map (\<lambda>(b, t). if b = a then (b, ty) else (b, t)) (w_comps w)\<rparr>"

text \<open>\<open>MaybeArc::default()\<close> followed by a clone: a new \<open>Arc\<close> with two owners.\<close>

definition new_arc :: "('a, 't, 'v, 'e, 'r) world \<Rightarrow> nat \<times> ('a, 't, 'v, 'e, 'r) world" where
  "new_arc w = (w_arcs w, w\<lparr>w_arcs := Suc (w_arcs w), w_strong := (w_strong w)(w_arcs w := 2)\<rparr>)"

definition drop_arc :: "nat \<Rightarrow> ('a, 't, 'v, 'e, 'r) world \<Rightarrow> ('a, 't, 'v, 'e, 'r) world" where
  "drop_arc rc w = w\<lparr>w_strong := (w_strong w)(rc := w_strong w rc - 1)\<rparr>"

definition clone_arc :: "nat \<Rightarrow> ('a, 't, 'v, 'e, 'r) world \<Rightarrow> ('a, 't, 'v, 'e, 'r) world" where
  "clone_arc rc w = w\<lparr>w_strong := (w_strong w)(rc := w_strong w rc + 1)\<rparr>"

definition init_entity :: "bool \<Rightarrow> ('t \<Rightarrow> ('t, 'v) comp_info) \<Rightarrow> 'a \<Rightarrow> 'w::len raw \<Rightarrow> nat \<Rightarrow> ('t, 'v) comp_map
    \<Rightarrow> ('a, 't, 'v, 'w raw, 'r) world \<Rightarrow> ('a, 't, 'v, 'w raw, 'r) world res" where
  "init_entity rc_on ci a eid rc cm w =
     (let w1 = w\<lparr>w_gen := snd (gen_map_next a (to_primitive eid) (w_gen w))\<rparr> in
      bind_res (if rc_on then rctrack_set a (to_primitive eid) rc (w_rctrack w1) else Inr (w_rctrack w1)) (\<lambda>tr.
      let w2 = w1\<lparr>w_rctrack := tr\<rparr> in
      bind_res (archetype_mut a w2) (\<lambda>ty.
      bind_res (ealloc_get a (w_ealloc w2)) (\<lambda>al.
      bind_res (typed_init_entity ci al (to_primitive eid) cm ty) (\<lambda>ty'.
      Inr (put_typed a ty' w2))))))"

definition create_with_hint :: "bool \<Rightarrow> ('w::len raw, 'r, 'h) recycler_ops \<Rightarrow> (nat \<Rightarrow> nat) \<Rightarrow> ('t \<Rightarrow> ('t, 'v) comp_info)
    \<Rightarrow> 'a \<Rightarrow> 'h \<Rightarrow> ('t, 'v) comp_map \<Rightarrow> ('a, 't, 'v, 'w raw, 'r) world
    \<Rightarrow> ('w raw strong_ref \<times> ('a, 't, 'v, 'w raw, 'r) world) res" where
  "create_with_hint rc_on ops rng ci a hint cm w =
     bind_res (ealloc_get a (w_ealloc w)) (\<lambda>al.
     case allocate ops rng hint al of
       (Inl p, _) \<Rightarrow> Inl p
     | (Inr eid, al') \<Rightarrow>
         (let (rc, w1) = new_arc (w\<lparr>w_ealloc := ealloc_put a al' (w_ealloc w)\<rparr>) in
          bind_res (init_entity rc_on ci a eid rc cm w1) (\<lambda>w2.
          Inr (\<lparr>sr_id = eid, sr_rc = rc\<rparr>, w2))))"

subsection \<open>Deletion\<close>

datatype delete_result = Deleted | Terminating

text \<open>The components of a storage in the order of \<open>iter_chunks_mut\<close>.\<close>

definition storage_values :: "(nat, 'v) fmap \<Rightarrow> 'v list" where
  "storage_values storage = map (\<lambda>e. the (fmlookup storage e)) (sorted_list_of_fset (fmdom storage))"

text \<open>
  What \<open>search_references\<close> reads: the references in a component value, the names it prints, and the
  local states of the systems and the globals, in the order of their iteration, each with the
  references it holds.
\<close>

record ('a, 't, 'v) ref_view =
  rv_rf :: "'v \<Rightarrow> 'a referrer"
  rv_arch :: "'a \<Rightarrow> string"
  rv_comp :: "'t \<Rightarrow> string"
  rv_discrim :: "nat \<Rightarrow> string"
  rv_systems :: "(string \<times> 'a referrer list) list"
  rv_globals :: "(string \<times> 'a referrer) list"

definition comp_name :: "('a, 't, 'v) ref_view \<Rightarrow> 'a \<Rightarrow> 't \<Rightarrow> string" where
  "comp_name rv a c = rv_arch rv a @ '' / '' @ rv_comp rv c"

definition isotope_name :: "('a, 't, 'v) ref_view \<Rightarrow> 'a \<Rightarrow> 't \<Rightarrow> nat \<Rightarrow> string" where
  "isotope_name rv a c discrim = comp_name rv a c @ '' # '' @ rv_discrim rv discrim"

text \<open>\<open>referrer_dyn\<close> of an isotope map, and \<open>referrer_dyn_iter\<close> of the storages of an archetype.\<close>

definition isotope_holders :: "('a, 't, 'v) ref_view \<Rightarrow> 'a \<Rightarrow> 't \<Rightarrow> 'v isotope_map \<Rightarrow> (string \<times> 'a referrer list) list" where
  "isotope_holders rv a c m =
     map (\<lambda>(d, storage). (isotope_name rv a c d, map (rv_rf rv) (storage_values storage))) m"

definition referrer_dyn_iter :: "('a, 't, 'v) ref_view \<Rightarrow> 'a \<Rightarrow> ('t, 'v) typed \<Rightarrow> (string \<times> 'a referrer list) list" where
  "referrer_dyn_iter rv a ty =
     map (\<lambda>(c, storage). (comp_name rv a c, map (rv_rf rv) (storage_values storage))) (ty_simple ty) @
     concat (map (\<lambda>(c, m). (comp_name rv a c, []) # isotope_holders rv a c m) (ty_isotope ty))"

definition search_references :: "('a, 't, 'v) ref_view \<Rightarrow> 'a \<Rightarrow> nat \<Rightarrow> ('a, 't, 'v, 'e, 'r) world \<Rightarrow> string list" where
  "search_references rv a entity w =
     sg_found (search_named
       (map (\<lambda>(name, items). (''system '' @ name, items)) (rv_systems rv) @
        map (\<lambda>(name, value). (''global state '' @ name, [value])) (rv_globals rv) @
        concat (map (\<lambda>(b, ty). referrer_dyn_iter rv b ty) (w_comps w))) (search_new a entity))"

definition try_real_delete_entity :: "bool \<Rightarrow> ('t \<Rightarrow> ('t, 'v) comp_info) \<Rightarrow> ('a, 't, 'v) ref_view \<Rightarrow> 'a \<Rightarrow> 'w::len raw
    \<Rightarrow> ('a, 't, 'v, 'w raw, 'r) world \<Rightarrow> (delete_result \<times> ('a, 't, 'v, 'w raw, 'r) world) res" where
  "try_real_delete_entity rc_on ci rv a eid w =
     bind_res (archetype_mut a w) (\<lambda>ty.
     if list_ex (has_finalizer ci (to_primitive eid)) (ty_simple ty) then Inr (Terminating, w)
     else
       (let w1 = put_typed a (ty\<lparr>ty_simple := map (clear_entry (to_primitive eid)) (ty_simple ty)\<rparr>) w in
        bind_res (if rc_on
                  then bind_res (rctrack_remove a (to_primitive eid) (w_rctrack w1)) (\<lambda>(rc, tr).
                       if w_strong w1 rc = 1 then Inr (drop_arc rc (w1\<lparr>w_rctrack := tr\<rparr>))
                       else Inl (DanglingReference (search_references rv a (to_primitive eid) w1)))
                  else Inr w1) (\<lambda>w2.
        bind_res (ealloc_get a (w_ealloc w2)) (\<lambda>al.
        Inr (Deleted, w2\<lparr>w_ealloc := ealloc_put a (queue_deallocate eid al) (w_ealloc w2)\<rparr>)))))"

text \<open>\<open>flag\<close> is the type of \<open>deletion::Flag\<close>, \<open>flag_value\<close> its only value.\<close>

definition flag_delete_entity :: "bool \<Rightarrow> ('t \<Rightarrow> ('t, 'v) comp_info) \<Rightarrow> ('a, 't, 'v) ref_view \<Rightarrow> 't \<Rightarrow> 'v \<Rightarrow> 'a \<Rightarrow> 'w::len raw
    \<Rightarrow> ('a, 't, 'v, 'w raw, 'r) world \<Rightarrow> (delete_result \<times> ('a, 't, 'v, 'w raw, 'r) world) res" where
  "flag_delete_entity rc_on ci rv flag flag_value a eid w =
     bind_res (archetype_mut a w) (\<lambda>ty.
     bind_res (expect MissingComponent (map_of (ty_simple ty) flag)) (\<lambda>storage.
     try_real_delete_entity rc_on ci rv a eid
       (put_typed a (ty\<lparr>ty_simple := AList.update flag (fmupd (to_primitive eid) flag_value storage) (ty_simple ty)\<rparr>) w)))"

text \<open>
  \<open>World::delete\<close>; \<open>owned\<close> is the \<open>Arc\<close> of the reference passed in when it is a strong one, which is
  dropped before the deletion.
\<close>

definition world_delete :: "bool \<Rightarrow> ('t \<Rightarrow> ('t, 'v) comp_info) \<Rightarrow> ('a, 't, 'v) ref_view \<Rightarrow> 't \<Rightarrow> 'v \<Rightarrow> 'a \<Rightarrow> 'w::len raw \<Rightarrow> nat option
    \<Rightarrow> ('a, 't, 'v, 'w raw, 'r) world \<Rightarrow> (delete_result \<times> ('a, 't, 'v, 'w raw, 'r) world) res" where
  "world_delete rc_on ci rv flag flag_value a eid owned w =
     bind_res (ealloc_map_mark_need_flush a (w_ealloc w)) (\<lambda>em.
     let w1 = w\<lparr>w_ealloc := em\<rparr>; w2 = (case owned of Some rc \<Rightarrow> drop_arc rc w1 | None \<Rightarrow> w1) in
     bind_res (flag_delete_entity rc_on ci rv flag flag_value a eid w2) (\<lambda>(result, w3).
     case result of
       Deleted \<Rightarrow> Inr (Deleted, w3)
     | Terminating \<Rightarrow> Inr (Terminating, w3\<lparr>w_rerun := w_rerun w3 @ [DeleteEntity a eid]\<rparr>)))"

subsection \<open>Queued operations and the cycle\<close>

text \<open>\<open>Operation::run\<close>: \<open>Some\<close> is \<open>QueueForRerun\<close>.\<close>

fun run_op :: "bool \<Rightarrow> ('t \<Rightarrow> ('t, 'v) comp_info) \<Rightarrow> ('a, 't, 'v) ref_view \<Rightarrow> 't \<Rightarrow> 'v \<Rightarrow> ('a, 'w::len raw, 't, 'v) offline_op
    \<Rightarrow> ('a, 't, 'v, 'w raw, 'r) world
    \<Rightarrow> (('a, 'w raw, 't, 'v) offline_op option \<times> ('a, 't, 'v, 'w raw, 'r) world) res" where
  "run_op rc_on ci rv flag flag_value (CreateEntity a eid rc cm) w =
     bind_res (init_entity rc_on ci a eid rc cm w) (\<lambda>w'. Inr (None, w'))"
| "run_op rc_on ci rv flag flag_value (DeleteEntity a eid) w =
     bind_res (flag_delete_entity rc_on ci rv flag flag_value a eid w) (\<lambda>(result, w').
     Inr (case result of Deleted \<Rightarrow> None | Terminating \<Rightarrow> Some (DeleteEntity a eid), w'))"

fun drain_ops :: "bool \<Rightarrow> ('t \<Rightarrow> ('t, 'v) comp_info) \<Rightarrow> ('a, 't, 'v) ref_view \<Rightarrow> 't \<Rightarrow> 'v
    \<Rightarrow> ('a, 'w::len raw, 't, 'v) offline_op list \<Rightarrow> ('a, 'w raw, 't, 'v) offline_op list \<Rightarrow> ('a, 't, 'v, 'w raw, 'r) world
    \<Rightarrow> (('a, 'w raw, 't, 'v) offline_op list \<times> ('a, 't, 'v, 'w raw, 'r) world) res" where
  "drain_ops rc_on ci rv flag flag_value [] new_queue w = Inr (new_queue, w)"
| "drain_ops rc_on ci rv flag flag_value (p # ps) new_queue w =
     bind_res (run_op rc_on ci rv flag flag_value p w) (\<lambda>(rerun, w').
     drain_ops rc_on ci rv flag flag_value ps
       (case rerun of None \<Rightarrow> new_queue | Some q \<Rightarrow> new_queue @ [q]) w')"

definition drain_cycle :: "bool \<Rightarrow> ('t \<Rightarrow> ('t, 'v) comp_info) \<Rightarrow> ('a, 't, 'v) ref_view \<Rightarrow> 't \<Rightarrow> 'v
    \<Rightarrow> ('a, 't, 'v, 'w::len raw, 'r) world \<Rightarrow> ('a, 't, 'v, 'w raw, 'r) world res" where
  "drain_cycle rc_on ci rv flag flag_value w =
     bind_res (drain_ops rc_on ci rv flag flag_value (w_rerun w @ concat (w_shards w)) []
                 (w\<lparr>w_rerun := [], w_shards := map (\<lambda>_. []) (w_shards w)\<rparr>)) (\<lambda>(new_queue, w').
     Inr (w'\<lparr>w_rerun := new_queue\<rparr>))"

text \<open>\<open>BufferShard::create_entity_with_hint_and_shard\<close> and \<open>delete_entity\<close>, on the buffer of worker \<open>i\<close>.\<close>

definition online_create :: "('w::len raw, 'r, 'h) recycler_ops \<Rightarrow> nat \<Rightarrow> ('a, 'w) shard_map \<Rightarrow> 'a \<Rightarrow> 'h \<Rightarrow> ('t, 'v) comp_map
    \<Rightarrow> ('a, 't, 'v, 'w raw, 'r) world \<Rightarrow> ('w raw strong_ref \<times> ('a, 't, 'v, 'w raw, 'r) world) res" where
  "online_create ops i sm a hint cm w =
     bind_res (shard_map_get a sm) (\<lambda>sh.
     bind_res (ealloc_get a (w_ealloc w)) (\<lambda>al.
     case online_shard_allocate ops hint sh al of
       (Inl p, _) \<Rightarrow> Inl p
     | (Inr eid, al') \<Rightarrow>
         (let (rc, w1) = new_arc (w\<lparr>w_ealloc := ealloc_put a al' (w_ealloc w)\<rparr>) in
          Inr (\<lparr>sr_id = eid, sr_rc = rc\<rparr>,
               w1\<lparr>w_shards := (w_shards w1)[i := w_shards w1 ! i @ [CreateEntity a eid rc cm]]\<rparr>))))"

text \<open>\<open>owned\<close> is the \<open>Arc\<close> of the reference passed in when it is a strong one; it is dropped on return.\<close>

definition online_delete :: "nat \<Rightarrow> 'a \<Rightarrow> 'e \<Rightarrow> nat option \<Rightarrow> ('a, 't, 'v, 'e, 'r) world \<Rightarrow> ('a, 't, 'v, 'e, 'r) world" where
  "online_delete i a eid owned w =
     (let w1 = w\<lparr>w_shards := (w_shards w)[i := w_shards w ! i @ [DeleteEntity a eid]]\<rparr> in
      case owned of Some rc \<Rightarrow> drop_arc rc w1 | None \<Rightarrow> w1)"

text \<open>What systems do to the world through entity creators and deleters, worker by worker.\<close>

datatype ('a, 'e, 't, 'v, 'h) online_event =
    OnlineCreate nat 'a 'h "('t, 'v) comp_map"
  | OnlineDelete nat 'a 'e "nat option"
  | OnlineDrop nat

fun run_online :: "('w::len raw, 'r, 'h) recycler_ops \<Rightarrow> ('a, 'w) shard_map list \<Rightarrow> ('a, 'w raw, 't, 'v, 'h) online_event
    \<Rightarrow> ('a, 't, 'v, 'w raw, 'r) world \<Rightarrow> ('a, 't, 'v, 'w raw, 'r) world res" where
  "run_online ops sms (OnlineCreate i a hint cm) w =
     bind_res (online_create ops i (sms ! i) a hint cm w) (\<lambda>(_, w'). Inr w')"
| "run_online ops sms (OnlineDelete i a eid owned) w = Inr (online_delete i a eid owned w)"
| "run_online ops sms (OnlineDrop rc) w = Inr (drop_arc rc w)"

text \<open>
  \<open>World::execute\<close> with the executor's cycle: flush what is marked, lend the shards, run the systems
  (here: the sequence of their effects), return the shards, drain the offline buffer, flush all.
\<close>

definition world_execute :: "bool \<Rightarrow> ('w::len raw, 'r, 'h) recycler_ops \<Rightarrow> ('t \<Rightarrow> ('t, 'v) comp_info) \<Rightarrow> ('a, 't, 'v) ref_view \<Rightarrow> 't \<Rightarrow> 'v
    \<Rightarrow> ('a \<Rightarrow> nat list \<Rightarrow> nat list) \<Rightarrow> ('a, 'w raw, 't, 'v, 'h) online_event list
    \<Rightarrow> ('a, 't, 'v, 'w raw, 'r) world \<Rightarrow> ('a, 't, 'v, 'w raw, 'r) world res" where
  "world_execute rc_on ops ci rv flag flag_value perm events w =
     bind_res (ealloc_map_flush_if_marked ops (w_ealloc w)) (\<lambda>em0.
     bind_res (ealloc_map_shards perm (length (w_shards w)) em0) (\<lambda>(sms, em1).
     bind_res (fold_res (run_online ops sms) events (w\<lparr>w_ealloc := em1\<rparr>)) (\<lambda>w1.
     bind_res (drain_cycle rc_on ci rv flag flag_value
                 (w1\<lparr>w_ealloc := drop_shard_maps sms (w_ealloc w1)\<rparr>)) (\<lambda>w2.
     bind_res (ealloc_map_flush ops (w_ealloc w2)) (\<lambda>em2.
     Inr (w2\<lparr>w_ealloc := em2\<rparr>))))))"

end
