(* ===== verification/Lifecycle.thy ===== *)
theory Lifecycle
  imports World
begin

section \<open>The life of an entity\<close>

text \<open>
  Properties of \<open>World\<close>: with reference counts compiled in, every history of creations, deletions and
  cycles keeps one owner per identifier; what creation and deletion do to the components; and what
  goes wrong without the reference counts and with isotope components.
\<close>

subsection \<open>Ownership\<close>

text \<open>
  The live identifiers of an archetype: those the tracker knows, and those allocated by systems whose
  initialization is queued (\<open>pend\<close>).
\<close>

definition owns :: "('a \<times> 'w::len raw) list \<Rightarrow> ('a, 't, 'v, 'w raw, 'r) world \<Rightarrow> 'a \<Rightarrow> 'w raw set" where
  "owns pend w a = {e. tracked (w_rctrack w) a (to_primitive e) \<noteq> None \<or> (a, e) \<in> set pend}"

text \<open>The allocator of an archetype, if it has one, owns everything that is not live.\<close>

fun allocator_owns :: "'w::len raw set \<Rightarrow> ('w raw, 'w raw set) recycling option \<Rightarrow> bool" where
  "allocator_owns live None = (live = {})"
| "allocator_owns live (Some al) = ealloc_inv (\<lambda>_. True) (\<lambda>r. r) live al"

definition entity_inv :: "('a \<times> 'w::len raw) list \<Rightarrow> ('a, 't, 'v, 'w raw, 'w raw set) world \<Rightarrow> bool" where
  "entity_inv pend w \<longleftrightarrow>
     (\<forall>a. allocator_owns (owns pend w a) (map_of (w_ealloc w) a)) \<and>
     distinct pend \<and> (\<forall>(a, e) \<in> set pend. tracked (w_rctrack w) a (to_primitive e) = None)"

fun pending_of :: "('a, 'e, 't, 'v) offline_op \<Rightarrow> ('a \<times> 'e) list" where
  "pending_of (CreateEntity a e rc cm) = [(a, e)]"
| "pending_of (DeleteEntity a e) = []"

definition queue_pending :: "('a, 'e, 't, 'v) offline_op list \<Rightarrow> ('a \<times> 'e) list" where
  "queue_pending ps = concat (map pending_of ps)"

definition world_pending :: "('a, 't, 'v, 'e, 'r) world \<Rightarrow> ('a \<times> 'e) list" where
  "world_pending w = queue_pending (w_rerun w @ concat (w_shards w))"

definition world_inv :: "('a, 't, 'v, 'w::len raw, 'w raw set) world \<Rightarrow> bool" where
  "world_inv w \<longleftrightarrow> entity_inv (world_pending w) w"

lemma entity_inv_cong:
  assumes "mset p = mset q" and "w_ealloc w' = w_ealloc w" and "w_rctrack w' = w_rctrack w"
  shows "entity_inv p w' = entity_inv q w"
proof -
  have "set p = set q" "distinct p = distinct q"
    using assms(1) by (metis set_mset_mset, metis mset_eq_imp_distinct_iff)
  moreover have "owns p w' a = owns q w a" for a using \<open>set p = set q\<close> assms by (simp add: owns_def)
  ultimately show ?thesis using assms by (simp add: entity_inv_def)
qed

lemma entity_invD:
  assumes "entity_inv pend w" and "map_of (w_ealloc w) a = Some al"
  shows "ealloc_inv (\<lambda>_. True) (\<lambda>r. r) (owns pend w a) al"
  using assms by (metis allocator_owns.simps(2) entity_inv_def)

text \<open>Replacing the allocator of one archetype together with its live identifiers.\<close>

lemma entity_inv_put:
  assumes inv: "entity_inv pend w" and a: "map_of (w_ealloc w) a = Some al"
    and em: "\<And>b. map_of (w_ealloc w') b = (if b = a then Some al' else map_of (w_ealloc w) b)"
    and al': "ealloc_inv (\<lambda>_. True) (\<lambda>r. r) (owns pend' w' a) al'"
    and other: "\<And>b. b \<noteq> a \<Longrightarrow> owns pend' w' b = owns pend w b"
    and pend': "distinct pend'" "\<forall>(b, e) \<in> set pend'. tracked (w_rctrack w') b (to_primitive e) = None"
  shows "entity_inv pend' w'"
proof -
  have "allocator_owns (owns pend' w' b) (map_of (w_ealloc w') b)" for b
    using inv em [of b] other [of b] al' by (cases "b = a") (simp_all add: entity_inv_def)
  with pend' show ?thesis by (simp add: entity_inv_def)
qed

lemma map_of_put:
  assumes "map_of m a = Some al"
  shows "map_of (ealloc_put a al' m) b = (if b = a then Some al' else map_of m b)"
  using assms by (auto simp: map_of_ealloc_put)

subsection \<open>Every operation keeps the ownership\<close>

lemma put_typed_fields [simp]:
  "w_ealloc (put_typed a ty w) = w_ealloc w" "w_rctrack (put_typed a ty w) = w_rctrack w"
  "w_gen (put_typed a ty w) = w_gen w" "w_strong (put_typed a ty w) = w_strong w"
  "w_rerun (put_typed a ty w) = w_rerun w" "w_shards (put_typed a ty w) = w_shards w"
  "w_arcs (put_typed a ty w) = w_arcs w"
  by (simp_all add: put_typed_def)

lemma arc_fields [simp]:
  "w_ealloc (drop_arc rc w) = w_ealloc w" "w_rctrack (drop_arc rc w) = w_rctrack w"
  "w_rerun (drop_arc rc w) = w_rerun w" "w_shards (drop_arc rc w) = w_shards w"
  "w_ealloc (clone_arc rc w) = w_ealloc w" "w_rctrack (clone_arc rc w) = w_rctrack w"
  "w_rerun (clone_arc rc w) = w_rerun w" "w_shards (clone_arc rc w) = w_shards w"
  by (simp_all add: drop_arc_def clone_arc_def)

lemma online_delete_fields:
  "w_ealloc (online_delete i a e owned w) = w_ealloc w" "w_rctrack (online_delete i a e owned w) = w_rctrack w"
  "w_rerun (online_delete i a e owned w) = w_rerun w"
  "w_shards (online_delete i a e owned w) = (w_shards w)[i := w_shards w ! i @ [DeleteEntity a e]]"
  by (simp_all add: online_delete_def Let_def split: option.split)

lemma init_entity_Inr:
  assumes "init_entity True ci a eid rc cm w = Inr w'"
  shows "w_ealloc w' = w_ealloc w" and "w_rerun w' = w_rerun w" and "w_shards w' = w_shards w"
    and "rctrack_set a (to_primitive eid) rc (w_rctrack w) = Inr (w_rctrack w')"
  using assms by (auto simp: init_entity_def Let_def)

lemma init_entity_keeps:
  fixes w :: "('a, 't, 'v, 'w::len raw, 'w raw set) world"
  assumes inv: "entity_inv ((a, eid) # pend) w" and r: "init_entity True ci a eid rc cm w = Inr w'"
  shows "entity_inv pend w'"
proof -
  note f = init_entity_Inr [OF r]
  have tr: "tracked (w_rctrack w') b j = (if b = a \<and> j = to_primitive eid then Some rc else tracked (w_rctrack w) b j)" for b j
    by (rule tracked_set [OF f(4)])
  have same: "owns pend w' b = owns ((a, eid) # pend) w b" for b
    by (auto simp: owns_def tr to_primitive_inj)
  have "\<forall>(b, e) \<in> set pend. tracked (w_rctrack w') b (to_primitive e) = None"
    using inv by (auto simp: entity_inv_def tr to_primitive_inj)
  with inv show ?thesis unfolding entity_inv_def same f(1) by auto
qed

lemma try_real_delete_keeps:
  fixes w :: "('a, 't, 'v, 'w::len raw, 'w raw set) world"
  assumes inv: "entity_inv pend w" and r: "try_real_delete_entity True ci rv a eid w = Inr (res, w')"
  shows "entity_inv pend w'" and "w_rerun w' = w_rerun w" and "w_shards w' = w_shards w"
proof -
  show "entity_inv pend w'"
  proof (cases res)
    case Terminating
    with r have "w' = w" by (auto simp: try_real_delete_entity_def Let_def split: if_splits)
    with inv show ?thesis by simp
  next
    case Deleted
    with r obtain rc tr al where
      rc: "rctrack_remove a (to_primitive eid) (w_rctrack w) = Inr (rc, tr)" and al: "map_of (w_ealloc w) a = Some al"
      and w': "w_rctrack w' = tr" "w_ealloc w' = ealloc_put a (queue_deallocate eid al) (w_ealloc w)"
      by (auto simp: try_real_delete_entity_def Let_def ealloc_get_def split: if_splits)
    note t = rctrack_remove_Inr [OF rc]
    have gone: "(a, eid) \<notin> set pend" using inv t(1) by (auto simp: entity_inv_def)
    have ow: "owns pend w' b = owns pend w b - (if b = a then {eid} else {})" for b
      using gone by (auto simp: owns_def w' t(2) to_primitive_inj)
    have "eid \<in> owns pend w a" using t(1) by (simp add: owns_def)
    from btree_rc.queue_deallocate_inv [OF entity_invD [OF inv al] this]
    have "ealloc_inv (\<lambda>_. True) (\<lambda>r. r) (owns pend w' a) (queue_deallocate eid al)" by (simp add: ow)
    moreover have "\<forall>(b, e) \<in> set pend. tracked (w_rctrack w') b (to_primitive e) = None"
      using inv by (auto simp: entity_inv_def w' t(2))
    ultimately show ?thesis
      using inv by (intro entity_inv_put [OF inv al]) (auto simp: w' map_of_put [OF al] ow entity_inv_def)
  qed
  show "w_rerun w' = w_rerun w" "w_shards w' = w_shards w"
    using r by (auto simp: try_real_delete_entity_def Let_def drop_arc_def split: if_splits)
qed

lemma flag_delete_keeps:
  fixes w :: "('a, 't, 'v, 'w::len raw, 'w raw set) world"
  assumes inv: "entity_inv pend w" and r: "flag_delete_entity True ci rv fl fv a eid w = Inr (res, w')"
  shows "entity_inv pend w'" and "w_rerun w' = w_rerun w" and "w_shards w' = w_shards w"
proof -
  from r obtain ty where
    r': "try_real_delete_entity True ci rv a eid (put_typed a ty w) = Inr (res, w')"
    by (auto simp: flag_delete_entity_def)
  have "entity_inv pend (put_typed a ty w)" using inv entity_inv_cong [OF refl, of "put_typed a ty w" w] by simp
  from try_real_delete_keeps [OF this r'] show "entity_inv pend w'" "w_rerun w' = w_rerun w" "w_shards w' = w_shards w"
    by simp_all
qed

text \<open>An allocation makes its identifier a pending one.\<close>

lemma allocation_keeps:
  fixes w :: "('a, 't, 'v, 'w::len raw, 'w raw set) world"
  assumes inv: "entity_inv pend w" and al: "map_of (w_ealloc w) a = Some al"
    and new: "eid \<notin> owns pend w a \<and> ealloc_inv (\<lambda>_. True) (\<lambda>r. r) (insert eid (owns pend w a)) al'"
    and w': "w_ealloc w' = ealloc_put a al' (w_ealloc w)" "w_rctrack w' = w_rctrack w"
  shows "entity_inv ((a, eid) # pend) w'"
proof -
  have ow: "owns ((a, eid) # pend) w' b = (if b = a then insert eid (owns pend w b) else owns pend w b)" for b
    by (auto simp: owns_def w')
  have "tracked (w_rctrack w) a (to_primitive eid) = None" "(a, eid) \<notin> set pend" using new by (auto simp: owns_def)
  with inv new show ?thesis
    by (intro entity_inv_put [OF inv al]) (auto simp: w' map_of_put [OF al] ow entity_inv_def)
qed

lemma create_keeps:
  fixes w :: "('a, 't, 'v, 'w::len raw, 'w raw set) world"
  assumes inv: "entity_inv pend w" and rng: "rng_ok rng"
    and r: "create_with_hint True btree_recycler rng ci a hint cm w = Inr (ref, w')"
  shows "entity_inv pend w'" and "w_rerun w' = w_rerun w" and "w_shards w' = w_shards w"
    and "sr_id ref \<noteq> 0" and "sr_id ref \<notin> owns pend w a"
    and "tracked (w_rctrack w') a (to_primitive (sr_id ref)) = Some (sr_rc ref)"
proof -
  from r obtain al where al: "map_of (w_ealloc w) a = Some al"
    by (auto simp: create_with_hint_def ealloc_get_def)
  obtain x al' where x: "allocate btree_recycler rng hint al = (x, al')" by fastforce
  with r al have alloc: "allocate btree_recycler rng hint al = (Inr (sr_id ref), al')"
    by (cases x) (auto simp: create_with_hint_def ealloc_get_def new_arc_def Let_def)
  define w1 where "w1 = snd (new_arc (w\<lparr>w_ealloc := ealloc_put a al' (w_ealloc w)\<rparr>))"
  have ini: "init_entity True ci a (sr_id ref) (sr_rc ref) cm w1 = Inr w'"
    using r al alloc by (cases ref) (auto simp: create_with_hint_def ealloc_get_def w1_def new_arc_def Let_def)
  have w1: "w_ealloc w1 = ealloc_put a al' (w_ealloc w)" "w_rctrack w1 = w_rctrack w"
    "w_rerun w1 = w_rerun w" "w_shards w1 = w_shards w"
    by (simp_all add: w1_def new_arc_def)
  note new = btree_rc.allocate_keeps_inv [OF entity_invD [OF inv al] rng alloc]
  show "sr_id ref \<noteq> 0" "sr_id ref \<notin> owns pend w a" using new by auto
  have "entity_inv ((a, sr_id ref) # pend) w1" by (rule allocation_keeps [OF inv al _ w1(1,2)]) (use new in auto)
  from init_entity_keeps [OF this ini] show "entity_inv pend w'" .
  note f = init_entity_Inr [OF ini]
  show "w_rerun w' = w_rerun w" "w_shards w' = w_shards w" using f w1 by auto
  show "tracked (w_rctrack w') a (to_primitive (sr_id ref)) = Some (sr_rc ref)"
    using tracked_set [OF f(4)] by simp
qed

lemma mark_need_flush_keeps:
  fixes w :: "('a, 't, 'v, 'w::len raw, 'w raw set) world"
  assumes inv: "entity_inv pend w" and r: "ealloc_map_mark_need_flush a (w_ealloc w) = Inr em"
  shows "entity_inv pend (w\<lparr>w_ealloc := em\<rparr>)"
proof -
  from r obtain al where al: "map_of (w_ealloc w) a = Some al" and em: "em = ealloc_put a (mark_need_flush al) (w_ealloc w)"
    by (auto simp: ealloc_map_mark_need_flush_def split: option.splits)
  have ow: "owns pend (w\<lparr>w_ealloc := x\<rparr>) b = owns pend w b" for x b by (simp add: owns_def)
  show ?thesis
    using inv entity_invD [OF inv al]
    by (intro entity_inv_put [OF inv al, where al' = "mark_need_flush al"]) (auto simp: em map_of_put [OF al] ow entity_inv_def)
qed

lemma queue_pending_append [simp]: "queue_pending (ps @ qs) = queue_pending ps @ queue_pending qs"
  by (simp add: queue_pending_def)

lemma queue_pending_Nil [simp]: "queue_pending [] = []"
  by (simp add: queue_pending_def)

lemma queue_pending_Cons [simp]: "queue_pending (p # ps) = pending_of p @ queue_pending ps"
  by (simp add: queue_pending_def)

lemma world_delete_keeps:
  fixes w :: "('a, 't, 'v, 'w::len raw, 'w raw set) world"
  assumes inv: "world_inv w" and r: "world_delete True ci rv fl fv a eid owned w = Inr (res, w')"
  shows "world_inv w'" and "w_shards w' = w_shards w"
proof -
  from r obtain em where em: "ealloc_map_mark_need_flush a (w_ealloc w) = Inr em"
    by (auto simp: world_delete_def)
  define w2 where "w2 = (case owned of Some rc \<Rightarrow> drop_arc rc (w\<lparr>w_ealloc := em\<rparr>) | None \<Rightarrow> w\<lparr>w_ealloc := em\<rparr>)"
  have w2: "w_ealloc w2 = em" "w_rctrack w2 = w_rctrack w" "w_rerun w2 = w_rerun w" "w_shards w2 = w_shards w"
    by (auto simp: w2_def split: option.split)
  have inv2: "entity_inv (world_pending w) w2"
    using mark_need_flush_keeps [OF inv [unfolded world_inv_def] em] w2
      entity_inv_cong [OF refl, of w2 "w\<lparr>w_ealloc := em\<rparr>"] by simp
  from r em obtain res3 w3 where w3: "flag_delete_entity True ci rv fl fv a eid w2 = Inr (res3, w3)"
    by (auto simp: world_delete_def w2_def [symmetric] Let_def)
  have w': "w' = (case res3 of Deleted \<Rightarrow> w3 | Terminating \<Rightarrow> w3\<lparr>w_rerun := w_rerun w3 @ [DeleteEntity a eid]\<rparr>)"
    using r em w3 by (cases res3) (auto simp: world_delete_def w2_def [symmetric] Let_def)
  note k = flag_delete_keeps [OF inv2 w3]
  show "w_shards w' = w_shards w" using w' k w2 by (auto split: delete_result.splits)
  have "world_pending w' = world_pending w"
    using w' k w2 by (auto simp: world_pending_def split: delete_result.splits)
  moreover have "entity_inv (world_pending w) w'"
    using k(1) w' entity_inv_cong [OF refl, of w' w3] by (auto split: delete_result.splits)
  ultimately show "world_inv w'" by (simp add: world_inv_def)
qed

lemma run_op_keeps:
  fixes w :: "('a, 't, 'v, 'w::len raw, 'w raw set) world"
  assumes inv: "entity_inv (pending_of p @ pend) w" and r: "run_op True ci rv fl fv p w = Inr (rerun, w')"
  shows "entity_inv pend w' \<and> (\<forall>q. rerun = Some q \<longrightarrow> pending_of q = []) \<and>
    w_rerun w' = w_rerun w \<and> w_shards w' = w_shards w"
proof (cases p)
  case (CreateEntity a eid rc cm)
  with inv r init_entity_keeps [of a eid pend w ci rc cm w'] init_entity_Inr [of ci a eid rc cm w w']
  show ?thesis by auto
next
  case (DeleteEntity a eid)
  with r obtain res where d: "flag_delete_entity True ci rv fl fv a eid w = Inr (res, w')"
    and q: "rerun = (case res of Deleted \<Rightarrow> None | Terminating \<Rightarrow> Some (DeleteEntity a eid))" by auto
  have "entity_inv pend w" using inv DeleteEntity by simp
  from flag_delete_keeps [OF this d] q show ?thesis by (cases res) auto
qed

lemma drain_ops_keeps:
  fixes w :: "('a, 't, 'v, 'w::len raw, 'w raw set) world"
  assumes "entity_inv (queue_pending ps) w" and "drain_ops True ci rv fl fv ps nq w = Inr (nq', w')"
    and "queue_pending nq = []"
  shows "entity_inv [] w' \<and> queue_pending nq' = [] \<and> w_rerun w' = w_rerun w \<and> w_shards w' = w_shards w"
  using assms
proof (induction ps arbitrary: nq w)
  case (Cons p ps)
  from Cons.prems(2) obtain rerun w1 where r: "run_op True ci rv fl fv p w = Inr (rerun, w1)"
    and rest: "drain_ops True ci rv fl fv ps (case rerun of None \<Rightarrow> nq | Some q \<Rightarrow> nq @ [q]) w1 = Inr (nq', w')"
    by auto
  have "entity_inv (pending_of p @ queue_pending ps) w" using Cons.prems(1) by simp
  note k = run_op_keeps [OF this r]
  have "queue_pending (case rerun of None \<Rightarrow> nq | Some q \<Rightarrow> nq @ [q]) = []"
    using k Cons.prems(3) by (auto split: option.split)
  with Cons.IH [OF _ rest] k show ?case by simp
qed simp

lemma queue_pending_empty: "queue_pending (concat (map (\<lambda>_. []) xs)) = []"
  by (induction xs) auto

lemma drain_cycle_keeps:
  fixes w :: "('a, 't, 'v, 'w::len raw, 'w raw set) world"
  assumes inv: "world_inv w" and r: "drain_cycle True ci rv fl fv w = Inr w'"
  shows "world_inv w'" and "length (w_shards w') = length (w_shards w)"
proof -
  let ?w = "w\<lparr>w_rerun := [], w_shards := map (\<lambda>_. []) (w_shards w)\<rparr>"
  from r obtain nq w1 where d: "drain_ops True ci rv fl fv (w_rerun w @ concat (w_shards w)) [] ?w = Inr (nq, w1)"
    and w': "w' = w1\<lparr>w_rerun := nq\<rparr>" by (auto simp: drain_cycle_def)
  have "entity_inv (queue_pending (w_rerun w @ concat (w_shards w))) ?w"
    using inv entity_inv_cong [OF refl, of ?w w] by (simp add: world_inv_def world_pending_def)
  note k = drain_ops_keeps [OF this d]
  have "world_pending w' = []" using k w' by (simp add: world_pending_def queue_pending_empty)
  with k w' entity_inv_cong [OF refl, of w' w1 "[]"] show "world_inv w'" by (simp add: world_inv_def)
  show "length (w_shards w') = length (w_shards w)" using k w' by simp
qed

subsection \<open>Cycles\<close>

text \<open>A pass over all allocators that keeps what each owns.\<close>

lemma map_values_of:
  assumes "map_values_res f m = Inr m'"
  shows "(map_of m a = None \<longrightarrow> map_of m' a = None) \<and>
     (\<forall>x. map_of m a = Some x \<longrightarrow> (\<exists>y. f x = Inr y \<and> map_of m' a = Some y))"
  using assms
proof (induction m arbitrary: m')
  case (Cons p m)
  then show ?case by (cases p) auto
qed simp

lemma allocators_keep:
  fixes w :: "('a, 't, 'v, 'w::len raw, 'w raw set) world"
  assumes inv: "entity_inv pend w"
    and none: "\<And>a. map_of (w_ealloc w) a = None \<Longrightarrow> map_of em a = None"
    and some: "\<And>a al. map_of (w_ealloc w) a = Some al \<Longrightarrow>
       \<exists>al'. map_of em a = Some al' \<and> (\<forall>live. ealloc_inv (\<lambda>_. True) (\<lambda>r. r) live al \<longrightarrow> ealloc_inv (\<lambda>_. True) (\<lambda>r. r) live al')"
  shows "entity_inv pend (w\<lparr>w_ealloc := em\<rparr>)"
proof -
  have ow: "owns pend (w\<lparr>w_ealloc := em\<rparr>) b = owns pend w b" for b by (simp add: owns_def)
  have "allocator_owns (owns pend w b) (map_of em b)" for b
  proof (cases "map_of (w_ealloc w) b")
    case None
    with none inv show ?thesis by (metis entity_inv_def)
  next
    case (Some al)
    with some [OF Some] entity_invD [OF inv Some] show ?thesis by auto
  qed
  with inv show ?thesis by (simp add: entity_inv_def ow)
qed

lemma flush_all_keeps:
  fixes w :: "('a, 't, 'v, 'w::len raw, 'w raw set) world"
  assumes "entity_inv pend w" and "map_values_res f (w_ealloc w) = Inr em"
    and "f = flush btree_recycler \<or> f = flush_if_marked btree_recycler"
  shows "entity_inv pend (w\<lparr>w_ealloc := em\<rparr>)"
proof (rule allocators_keep [OF assms(1)])
  fix a al assume "map_of (w_ealloc w) a = Some al"
  then obtain al' where al': "f al = Inr al'" "map_of em a = Some al'" using map_values_of [OF assms(2)] by blast
  have "ealloc_inv (\<lambda>_. True) (\<lambda>r. r) live al \<Longrightarrow> ealloc_inv (\<lambda>_. True) (\<lambda>r. r) live al'" for live
    using assms(3) al'(1) btree_rc.flush_keeps_inv [of live al al']
    by (auto simp: flush_if_marked_def split: if_splits)
  with al'(2) show "\<exists>al'. map_of em a = Some al' \<and> (\<forall>live. ealloc_inv (\<lambda>_. True) (\<lambda>r. r) live al \<longrightarrow> ealloc_inv (\<lambda>_. True) (\<lambda>r. r) live al')"
    by blast
qed (use map_values_of [OF assms(2)] in blast)

text \<open>Lending: every shard a worker gets exists.\<close>

definition shards_valid :: "('a, 'w::len) shard_map list \<Rightarrow> ('a \<times> ('w raw, 'w raw set) recycling) list \<Rightarrow> bool" where
  "shards_valid sms em \<longleftrightarrow> (\<forall>sm \<in> set sms. \<forall>a e al. map_of sm a = Some e \<longrightarrow> map_of em a = Some al \<longrightarrow>
     se_shard e < length (recycler_shards al))"

text \<open>What lending does to an allocator: nothing that ownership depends on.\<close>

definition same_owner :: "('w::len raw, 'w raw set) recycling \<Rightarrow> ('w raw, 'w raw set) recycling \<Rightarrow> bool" where
  "same_owner a b \<longleftrightarrow> recycler_shards b = recycler_shards a \<and> reuse_queue_shards b = reuse_queue_shards a \<and>
     global_gauge b = global_gauge a \<and> dealloc_queue b = dealloc_queue a \<and> shard_assigner b = shard_assigner a"

lemma same_owner_inv: "same_owner a b \<Longrightarrow> ealloc_inv P held live b = ealloc_inv P held live a"
  by (simp add: same_owner_def ealloc_inv_def)

lemma same_owner_trans: "same_owner a b \<Longrightarrow> same_owner b c \<Longrightarrow> same_owner a c"
  by (simp add: same_owner_def)

lemma same_owner_lending:
  "same_owner a a" "same_owner a (drop_shards a)" "same_owner a (drop_snapshot a)"
  "shards perm a = Inr (shs, b) \<Longrightarrow> same_owner a b" "take_snapshot a = Inr (sn, b) \<Longrightarrow> same_owner a b"
  by (auto simp: same_owner_def drop_shards_def drop_snapshot_def shards_def take_snapshot_def split: if_splits)

text \<open>Shard maps that grow by entries satisfying \<open>P\<close>.\<close>

definition grants :: "('a \<Rightarrow> 'w raw shard_entry \<Rightarrow> bool) \<Rightarrow> ('a, 'w::len) shard_map list \<Rightarrow> ('a, 'w) shard_map list \<Rightarrow> bool" where
  "grants P maps maps' \<longleftrightarrow> length maps' = length maps \<and>
     (\<forall>j < length maps. \<forall>t e. map_of (maps' ! j) t = Some e \<longrightarrow> map_of (maps ! j) t = Some e \<or> P t e)"

lemma grants_refl: "grants P maps maps"
  by (simp add: grants_def)

lemma grants_trans:
  assumes "grants P maps maps1" and "grants Q maps1 maps2"
    and "\<And>t e. P t e \<Longrightarrow> R t e" and "\<And>t e. Q t e \<Longrightarrow> R t e"
  shows "grants R maps maps2"
  using assms unfolding grants_def by metis

lemma grants_update: "grants (\<lambda>t e'. t = ty \<and> e' = e) maps (maps[k := AList.update ty e (maps ! k)])"
  unfolding grants_def
proof (intro conjI allI impI)
  fix j t e' assume "j < length maps" "map_of (maps[k := AList.update ty e (maps ! k)] ! j) t = Some e'"
  then show "map_of (maps ! j) t = Some e' \<or> t = ty \<and> e' = e"
    by (cases "j = k") (auto simp: update_conv split: if_splits)
qed simp

lemma assign_shards_kept:
  assumes "assign_shards ty k shs (maps, a) = Inr (maps', a')"
  shows "same_owner a a' \<and> grants (\<lambda>t e. t = ty \<and> se_shard e \<in> set shs) maps maps'"
  using assms
proof (induction shs arbitrary: k maps a)
  case (Cons sh shs)
  from Cons.prems obtain sn a1 where sn: "take_snapshot a = Inr (sn, a1)"
    and rest: "assign_shards ty (Suc k) shs
       (maps[k := AList.update ty \<lparr>se_snapshot = sn, se_shard = sh, se_borrowed = False\<rparr> (maps ! k)], a1) = Inr (maps', a')"
    by auto
  note IH = Cons.IH [OF rest]
  have "grants (\<lambda>t e. t = ty \<and> se_shard e \<in> set (sh # shs)) maps maps'"
    by (rule grants_trans [OF grants_update conjunct2 [OF IH]]) auto
  with IH same_owner_trans [OF same_owner_lending(5) [OF sn]] show ?case by blast
qed (auto simp: same_owner_lending grants_refl)

lemma shards_loop_kept:
  assumes "ealloc_map_shards_loop perm m maps = Inr (maps', m')" and "\<And>ty. hash_order_ok (perm ty)"
  shows "map fst m' = map fst m \<and> list_all2 (\<lambda>p q. same_owner (snd p) (snd q)) m m' \<and>
     grants (\<lambda>t e. \<exists>al. (t, al) \<in> set m \<and> se_shard e < length (recycler_shards al)) maps maps'"
  using assms(1)
proof (induction m arbitrary: maps m')
  case (Cons p m)
  obtain ty a where p: "p = (ty, a)" by fastforce
  from Cons.prems p obtain shs a1 maps1 a2 m2 where
    sh: "shards (perm ty) a = Inr (shs, a1)" and as: "assign_shards ty 0 shs (maps, a1) = Inr (maps1, a2)"
    and rest: "ealloc_map_shards_loop perm m maps1 = Inr (maps', m2)" and m': "m' = (ty, a2) # m2" by auto
  note IH = Cons.IH [OF rest]
  have shs: "set shs \<subseteq> {..< length (recycler_shards a)}"
    using sh assms(2) [of ty] by (cases "shard_assigner a") (auto simp: shards_def split: if_splits)
  have "grants (\<lambda>t e. \<exists>al. (t, al) \<in> set (p # m) \<and> se_shard e < length (recycler_shards al)) maps maps'"
    by (rule grants_trans [OF conjunct2 [OF assign_shards_kept [OF as]] conjunct2 [OF conjunct2 [OF IH]]])
      (use shs p in auto)
  moreover have "same_owner a a2"
    using same_owner_trans [OF same_owner_lending(4) [OF sh]] assign_shards_kept [OF as] by blast
  ultimately show ?case using IH unfolding m' p by simp
qed (simp add: grants_refl)

lemma lent_of:
  assumes "map fst m' = map fst m" and "list_all2 (\<lambda>p q. same_owner (snd p) (snd q)) m m'"
  shows "(map_of m a = None \<longrightarrow> map_of m' a = None) \<and>
     (\<forall>x. map_of m a = Some x \<longrightarrow> (\<exists>y. same_owner x y \<and> map_of m' a = Some y))"
  using assms
proof (induction m arbitrary: m')
  case (Cons p m)
  from Cons.prems(2) obtain q m1 where q: "m' = q # m1" "same_owner (snd p) (snd q)"
    "list_all2 (\<lambda>p q. same_owner (snd p) (snd q)) m m1" by (auto simp: list_all2_Cons1)
  with Cons.prems(1) have f: "fst q = fst p" "map fst m1 = map fst m" by auto
  from Cons.IH [OF f(2) q(3)] q(1,2) f(1) show ?case by (cases p; cases q) auto
qed simp

lemma drop_shard_maps_of:
  "map_of (drop_shard_maps sms em) a = map_option (\<lambda>al. snd (release sms (a, al))) (map_of em a)"
  by (induction em) (auto simp: drop_shard_maps_def release_def)

lemma release_same_owner: "same_owner al (snd (release sms (a, al)))"
  by (simp add: release_def drop_snapshot_pow same_owner_def drop_shards_def)

text \<open>Systems at work.\<close>

fun event_ok :: "nat \<Rightarrow> ('a, 'e, 't, 'v, 'h) online_event \<Rightarrow> bool" where
  "event_ok n (OnlineCreate i a hint cm) = (i < n)"
| "event_ok n (OnlineDelete i a e owned) = (i < n)"
| "event_ok n (OnlineDrop rc) = True"

lemma mset_queue_update:
  assumes "i < length shs"
  shows "mset (queue_pending (concat (shs[i := shs ! i @ [p]]))) = mset (pending_of p) + mset (queue_pending (concat shs))"
  using assms
proof (induction shs arbitrary: i)
  case (Cons x shs)
  then show ?case by (cases i) auto
qed simp

lemma online_allocate_length:
  "online_shard_allocate ops h i a = (x, a') \<Longrightarrow> length (recycler_shards a') = length (recycler_shards a)"
  by (auto simp: online_shard_allocate_def split: sum.splits prod.splits option.splits)

lemma run_online_keeps:
  fixes w :: "('a, 't, 'v, 'w::len raw, 'w raw set) world"
  assumes inv: "world_inv w" and sms: "shards_valid sms (w_ealloc w)" and ok: "event_ok (length (w_shards w)) ev"
    and len: "length sms = length (w_shards w)" and r: "run_online btree_recycler sms ev w = Inr w'"
  shows "world_inv w' \<and> shards_valid sms (w_ealloc w') \<and> length (w_shards w') = length (w_shards w)"
proof (cases ev)
  case (OnlineCreate i a hint cm)
  with ok len have i: "i < length (w_shards w)" "sms ! i \<in> set sms" by auto
  from r OnlineCreate obtain e al where e: "map_of (sms ! i) a = Some e" and al: "map_of (w_ealloc w) a = Some al"
    by (auto simp: online_create_def shard_map_get_def ealloc_get_def)
  obtain x al' where x: "online_shard_allocate btree_recycler hint (se_shard e) al = (x, al')" by fastforce
  with r OnlineCreate e al obtain eid where eid: "x = Inr eid"
    by (cases x) (auto simp: online_create_def shard_map_get_def ealloc_get_def)
  have w': "w_ealloc w' = ealloc_put a al' (w_ealloc w)" "w_rctrack w' = w_rctrack w" "w_rerun w' = w_rerun w"
    "w_shards w' = (w_shards w)[i := w_shards w ! i @ [CreateEntity a eid (w_arcs w) cm]]"
    using r OnlineCreate e al x eid
    by (auto simp: online_create_def shard_map_get_def ealloc_get_def new_arc_def Let_def)
  have sh: "se_shard e < length (recycler_shards al)" using sms i(2) e al by (auto simp: shards_valid_def)
  note new = btree_rc.online_keeps_inv [OF entity_invD [OF inv [unfolded world_inv_def] al] sh x [unfolded eid]]
  have "entity_inv ((a, eid) # world_pending w) w'"
    by (rule allocation_keeps [OF inv [unfolded world_inv_def] al _ w'(1,2)]) (use new in auto)
  moreover have "mset (world_pending w') = mset ((a, eid) # world_pending w)"
    using mset_queue_update [OF i(1), of "CreateEntity a eid (w_arcs w) cm"] by (simp add: world_pending_def w')
  ultimately have "world_inv w'" using entity_inv_cong [of _ _ w' w'] by (metis world_inv_def)
  moreover have "shards_valid sms (w_ealloc w')"
    using sms al online_allocate_length [OF x] by (auto simp: shards_valid_def w' map_of_put [OF al])
  ultimately show ?thesis by (simp add: w')
next
  case (OnlineDelete i a eid owned)
  with r have w': "w' = online_delete i a eid owned w" by simp
  have "mset (world_pending w') = mset (world_pending w)"
    using mset_queue_update [of i "w_shards w" "DeleteEntity a eid"] ok OnlineDelete
    by (simp add: world_pending_def w' online_delete_fields)
  with entity_inv_cong [OF this, of w' w] inv sms show ?thesis
    by (simp add: world_inv_def w' online_delete_fields)
next
  case (OnlineDrop rc)
  with r inv sms entity_inv_cong [OF refl, of "drop_arc rc w" w] show ?thesis
    by (auto simp: world_inv_def world_pending_def)
qed

lemma alloc_case_Inr [simp]:
  "case_prod (\<lambda>r s. case r of Inl p \<Rightarrow> Inl p | Inr x \<Rightarrow> f x s) q = Inr y \<longleftrightarrow> (\<exists>x s. q = (Inr x, s) \<and> f x s = Inr y)"
  by (cases q; cases "fst q") auto

text \<open>No operation adds or removes allocators.\<close>

abbreviation archetypes :: "('a, 't, 'v, 'e, 'r) world \<Rightarrow> 'a list" where
  "archetypes w \<equiv> map fst (w_ealloc w)"

lemma try_real_delete_archetypes:
  "try_real_delete_entity True ci rv a eid w = Inr (res, w') \<Longrightarrow> archetypes w' = archetypes w"
  by (auto simp: try_real_delete_entity_def Let_def drop_arc_def split: if_splits)

lemma flag_delete_archetypes:
  "flag_delete_entity True ci rv fl fv a eid w = Inr (res, w') \<Longrightarrow> archetypes w' = archetypes w"
  by (auto simp: flag_delete_entity_def dest!: try_real_delete_archetypes)

lemma run_op_archetypes:
  "run_op True ci rv fl fv p w = Inr (rerun, w') \<Longrightarrow> archetypes w' = archetypes w"
  by (cases p) (auto dest: init_entity_Inr(1) flag_delete_archetypes)

lemma drain_ops_archetypes:
  "drain_ops True ci rv fl fv ps nq w = Inr (nq', w') \<Longrightarrow> archetypes w' = archetypes w"
proof (induction ps arbitrary: nq w)
  case (Cons p ps)
  then show ?case by (fastforce dest: run_op_archetypes)
qed simp

lemma drain_cycle_archetypes: "drain_cycle True ci rv fl fv w = Inr w' \<Longrightarrow> archetypes w' = archetypes w"
  by (auto simp: drain_cycle_def dest!: drain_ops_archetypes)

lemma run_online_archetypes: "run_online ops sms ev w = Inr w' \<Longrightarrow> archetypes w' = archetypes w"
  by (cases ev)
    (auto simp: online_create_def online_delete_fields new_arc_def Let_def)

lemma create_archetypes:
  "create_with_hint True ops rng ci a hint cm w = Inr (ref, w') \<Longrightarrow> archetypes w' = archetypes w"
  by (auto simp: create_with_hint_def new_arc_def Let_def dest!: init_entity_Inr(1))

lemma world_delete_archetypes:
  assumes "world_delete True ci rv fl fv a eid owned w = Inr (res, w')"
  shows "archetypes w' = archetypes w"
proof -
  from assms obtain em where em: "ealloc_map_mark_need_flush a (w_ealloc w) = Inr em" by (auto simp: world_delete_def)
  then have "map fst em = archetypes w"
    by (auto simp: ealloc_map_mark_need_flush_def split: option.splits)
  moreover obtain w2 w3 res3 where "flag_delete_entity True ci rv fl fv a eid w2 = Inr (res3, w3)" "w_ealloc w2 = em"
    "w_ealloc w' = w_ealloc w3"
    using assms em by (auto simp: world_delete_def Let_def split: delete_result.splits option.splits; metis delete_result.exhaust)
  ultimately show ?thesis using flag_delete_archetypes by metis
qed

lemma execute_keeps:
  fixes w :: "('a, 't, 'v, 'w::len raw, 'w raw set) world"
  assumes inv: "world_inv w" and dist: "distinct (archetypes w)"
    and ok: "list_all (event_ok (length (w_shards w))) events" and perm: "\<And>a. hash_order_ok (perm a)"
    and r: "world_execute True btree_recycler ci rv fl fv perm events w = Inr w'"
  shows "world_inv w' \<and> archetypes w' = archetypes w \<and> length (w_shards w') = length (w_shards w)"
proof -
  from r obtain em0 sms em1 w1 w2 em2 where
    f0: "map_values_res (flush_if_marked btree_recycler) (w_ealloc w) = Inr em0"
    and lend: "ealloc_map_shards perm (length (w_shards w)) em0 = Inr (sms, em1)"
    and run: "fold_res (run_online btree_recycler sms) events (w\<lparr>w_ealloc := em1\<rparr>) = Inr w1"
    and drain: "drain_cycle True ci rv fl fv (w1\<lparr>w_ealloc := drop_shard_maps sms (w_ealloc w1)\<rparr>) = Inr w2"
    and f2: "map_values_res (flush btree_recycler) (w_ealloc w2) = Inr em2" and w': "w' = w2\<lparr>w_ealloc := em2\<rparr>"
    by (auto simp: world_execute_def ealloc_map_flush_if_marked_def ealloc_map_flush_def)
  have inv0: "entity_inv (world_pending w) (w\<lparr>w_ealloc := em0\<rparr>)"
    by (rule flush_all_keeps [OF inv [unfolded world_inv_def] f0]) simp
  have keys0: "map fst em0 = archetypes w" using f0 map_values_res_Inr by blast
  note l = shards_loop_kept [OF lend [unfolded ealloc_map_shards_def] perm]
  have em1: "map fst em1 = map fst em0" "list_all2 (\<lambda>p q. same_owner (snd p) (snd q)) em0 em1" using l by auto
  note lo = lent_of [OF em1]
  have "entity_inv (world_pending w) (w\<lparr>w_ealloc := em1\<rparr>)"
    using allocators_keep [OF inv0, of em1] lo same_owner_inv by (fastforce simp: same_owner_inv)
  then have inv1: "world_inv (w\<lparr>w_ealloc := em1\<rparr>)" by (simp add: world_inv_def world_pending_def)
  have sv: "shards_valid sms em1"
    unfolding shards_valid_def
  proof (intro ballI allI impI)
    fix sm a e al assume sm: "sm \<in> set sms" "map_of sm a = Some e" and al: "map_of em1 a = Some al"
    from sm(1) obtain j where j: "j < length sms" "sms ! j = sm" by (metis in_set_conv_nth)
    have "\<exists>b. (a, b) \<in> set em0 \<and> se_shard e < length (recycler_shards b)"
      using l j sm(2) unfolding grants_def by fastforce
    then obtain b where b: "(a, b) \<in> set em0" "se_shard e < length (recycler_shards b)" by blast
    then have "map_of em0 a = Some b" using dist keys0 by simp
    with lo [of a] al have "same_owner b al" by auto
    with b(2) show "se_shard e < length (recycler_shards al)" by (simp add: same_owner_def)
  qed
  have len: "length sms = length (w_shards w)" using l by (simp add: grants_def)
  have w1: "world_inv w1 \<and> shards_valid sms (w_ealloc w1) \<and> length (w_shards w1) = length (w_shards w) \<and> archetypes w1 = archetypes w"
    using run
  proof (rule fold_res_keeps)
    show "world_inv (w\<lparr>w_ealloc := em1\<rparr>) \<and> shards_valid sms (w_ealloc (w\<lparr>w_ealloc := em1\<rparr>)) \<and>
      length (w_shards (w\<lparr>w_ealloc := em1\<rparr>)) = length (w_shards w) \<and> archetypes (w\<lparr>w_ealloc := em1\<rparr>) = archetypes w"
      using inv1 sv em1(1) keys0 by simp
  next
    fix ev u u'
    assume "ev \<in> set events" "world_inv u \<and> shards_valid sms (w_ealloc u) \<and> length (w_shards u) = length (w_shards w) \<and> archetypes u = archetypes w"
      "run_online btree_recycler sms ev u = Inr u'"
    with ok len run_online_keeps [of u sms ev u'] run_online_archetypes [of btree_recycler sms ev u u']
    show "world_inv u' \<and> shards_valid sms (w_ealloc u') \<and> length (w_shards u') = length (w_shards w) \<and> archetypes u' = archetypes w"
      by (auto simp: list_all_iff)
  qed
  have "entity_inv (world_pending w1) (w1\<lparr>w_ealloc := drop_shard_maps sms (w_ealloc w1)\<rparr>)"
    by (rule allocators_keep [OF conjunct1 [OF w1, unfolded world_inv_def]])
      (auto simp: drop_shard_maps_of same_owner_inv [OF release_same_owner])
  then have "world_inv (w1\<lparr>w_ealloc := drop_shard_maps sms (w_ealloc w1)\<rparr>)" by (simp add: world_inv_def world_pending_def)
  note d = drain_cycle_keeps [OF this drain]
  have "entity_inv (world_pending w2) w'"
    unfolding w' by (rule flush_all_keeps [OF d(1) [unfolded world_inv_def] f2]) simp
  then have "world_inv w'" by (simp add: world_inv_def world_pending_def w')
  moreover have "archetypes w' = archetypes w"
    using f2 map_values_res_Inr [of _ "w_ealloc w2"] drain_cycle_archetypes [OF drain] w1
    by (simp add: w' drop_shard_maps_def release_def comp_def case_prod_beta)
  ultimately show ?thesis using d(2) w1 w' by simp
qed

subsection \<open>Histories\<close>

text \<open>
  What the program around a world does to it: create entities, delete them through any kind of
  reference, clone and drop strong references, and run cycles in which systems create and delete.
\<close>

datatype ('a, 'e, 't, 'v, 'h) command =
    Create 'a 'h "('t, 'v) comp_map"
  | Delete 'a 'e "nat option"
  | CloneRef nat
  | DropRef nat
  | Execute "('a, 'e, 't, 'v, 'h) online_event list"

fun run_command :: "bool \<Rightarrow> ('w::len raw, 'r, 'h) recycler_ops \<Rightarrow> (nat \<Rightarrow> nat) \<Rightarrow> ('a \<Rightarrow> nat list \<Rightarrow> nat list) \<Rightarrow> ('t \<Rightarrow> ('t, 'v) comp_info)
    \<Rightarrow> ('a, 't, 'v) ref_view \<Rightarrow> 't \<Rightarrow> 'v \<Rightarrow> ('a, 'w raw, 't, 'v, 'h) command
    \<Rightarrow> ('a, 't, 'v, 'w raw, 'r) world \<Rightarrow> ('a, 't, 'v, 'w raw, 'r) world res" where
  "run_command rc_on ops rng perm ci rv fl fv (Create a hint cm) w =
     bind_res (create_with_hint rc_on ops rng ci a hint cm w) (\<lambda>(_, w'). Inr w')"
| "run_command rc_on ops rng perm ci rv fl fv (Delete a eid owned) w =
     bind_res (world_delete rc_on ci rv fl fv a eid owned w) (\<lambda>(_, w'). Inr w')"
| "run_command rc_on ops rng perm ci rv fl fv (CloneRef rc) w = Inr (clone_arc rc w)"
| "run_command rc_on ops rng perm ci rv fl fv (DropRef rc) w = Inr (drop_arc rc w)"
| "run_command rc_on ops rng perm ci rv fl fv (Execute events) w = world_execute rc_on ops ci rv fl fv perm events w"

fun command_ok :: "nat \<Rightarrow> ('a, 'e, 't, 'v, 'h) command \<Rightarrow> bool" where
  "command_ok n (Execute events) = list_all (event_ok n) events"
| "command_ok n _ = True"

text \<open>A world whose allocators have handed out nothing, with nothing queued.\<close>

definition world_new :: "('a, 't, 'v, 'w::len raw, 'w raw set) world \<Rightarrow> bool" where
  "world_new w \<longleftrightarrow> distinct (archetypes w) \<and> w_rctrack w = fmempty \<and> w_rerun w = [] \<and> concat (w_shards w) = [] \<and>
     (\<forall>al \<in> snd ` set (w_ealloc w). \<exists>n sa. assigner_ok sa n \<and> al = new_with_shard_assigner btree_recycler n sa)"

lemma world_new_inv:
  fixes w :: "('a, 't, 'v, 'w::len raw, 'w raw set) world"
  assumes "world_new w"
  shows "world_inv w"
proof -
  have ow: "owns [] w a = {}" for a using assms by (simp add: owns_def world_new_def tracked_def)
  have "allocator_owns {} (map_of (w_ealloc w) a)" for a
  proof (cases "map_of (w_ealloc w) a")
    case (Some al)
    then have "al \<in> snd ` set (w_ealloc w)" by (force dest: map_of_SomeD)
    then obtain n sa where "assigner_ok sa n" "al = new_with_shard_assigner btree_recycler n sa"
      using assms by (auto simp: world_new_def)
    with Some btree_rc.new_inv [of sa n] show ?thesis by simp
  qed simp
  moreover have "world_pending w = []"
    using assms unfolding world_pending_def world_new_def by (elim conjE) (simp only: append.simps queue_pending_Nil)
  ultimately show ?thesis using ow by (simp add: world_inv_def entity_inv_def)
qed

lemma run_command_keeps:
  fixes w :: "('a, 't, 'v, 'w::len raw, 'w raw set) world"
  assumes inv: "world_inv w \<and> distinct (archetypes w)" and "rng_ok rng" and "\<And>a. hash_order_ok (perm a)"
    and ok: "command_ok (length (w_shards w)) c"
    and r: "run_command True btree_recycler rng perm ci rv fl fv c w = Inr w'"
  shows "world_inv w' \<and> distinct (archetypes w') \<and> length (w_shards w') = length (w_shards w)"
proof (cases c)
  case (Create a hint cm)
  with r obtain ref where c: "create_with_hint True btree_recycler rng ci a hint cm w = Inr (ref, w')" by auto
  from create_keeps [OF conjunct1 [OF inv, unfolded world_inv_def] assms(2) c] create_archetypes [OF c] inv
  show ?thesis by (simp add: world_inv_def world_pending_def)
next
  case (Delete a eid owned)
  with r obtain res where d: "world_delete True ci rv fl fv a eid owned w = Inr (res, w')" by auto
  from world_delete_keeps [OF conjunct1 [OF inv] d] world_delete_archetypes [OF d] inv show ?thesis by simp
next
  case (CloneRef rc)
  with r inv entity_inv_cong [OF refl, of "clone_arc rc w" w] show ?thesis
    by (auto simp: world_inv_def world_pending_def)
next
  case (DropRef rc)
  with r inv entity_inv_cong [OF refl, of "drop_arc rc w" w] show ?thesis
    by (auto simp: world_inv_def world_pending_def)
next
  case (Execute events)
  with r ok execute_keeps [of w events perm ci rv fl fv w'] inv assms(3) show ?thesis by simp
qed

lemma history_keeps:
  fixes w :: "('a, 't, 'v, 'w::len raw, 'w raw set) world"
  assumes "world_new w" and "rng_ok rng" and "\<And>a. hash_order_ok (perm a)"
    and "list_all (command_ok (length (w_shards w))) cs"
    and "fold_res (run_command True btree_recycler rng perm ci rv fl fv) cs w = Inr w'"
  shows "world_inv w'"
proof -
  have "world_inv w' \<and> distinct (archetypes w') \<and> length (w_shards w') = length (w_shards w)"
  proof (rule fold_res_keeps [OF assms(5)])
    show "world_inv w \<and> distinct (archetypes w) \<and> length (w_shards w) = length (w_shards w)"
      using world_new_inv [OF assms(1)] assms(1) by (simp add: world_new_def)
  next
    fix c u u'
    assume "c \<in> set cs" "world_inv u \<and> distinct (archetypes u) \<and> length (w_shards u) = length (w_shards w)"
      "run_command True btree_recycler rng perm ci rv fl fv c u = Inr u'"
    with run_command_keeps [of u rng perm c ci rv fl fv u'] assms(2-4)
    show "world_inv u' \<and> distinct (archetypes u') \<and> length (w_shards u') = length (w_shards w)"
      by (auto simp: list_all_iff)
  qed
  then show ?thesis by simp
qed

subsection \<open>Initialization does not touch the tracker\<close>

lemma fold_res_Inl: "fold_res f xs s = Inl p \<Longrightarrow> \<exists>x \<in> set xs. \<exists>s. f x s = Inl p"
proof (induction xs arbitrary: s)
  case (Cons x xs)
  then show ?case by (cases "f x s") auto
qed simp

lemma map_values_Inl: "map_values_res f m = Inl p \<Longrightarrow> \<exists>x. f x = Inl p"
proof (induction m)
  case (Cons q m)
  then show ?case by (cases q) (auto simp: res_simps)
qed simp

lemma raw_add_Inl: "raw_add e n = Inl p \<Longrightarrow> p = IntegerOverflow"
  by (auto simp: raw_add_def res_simps checked_plus_def split: if_splits)

lemma raw_load_Inl: "raw_load e = Inl p \<Longrightarrow> p = InvalidState"
  by (auto simp: raw_load_def res_simps)

lemma iter_gaps_Inl:
  fixes g :: "'a::len raw"
  shows "iter_gaps g bps = Inl p \<Longrightarrow> p = IntegerOverflow \<or> p = InvalidState"
proof -
  have "gap_start prev = Inl p \<Longrightarrow> p = IntegerOverflow \<or> p = InvalidState" for prev :: "'a word previous"
    by (cases prev) (auto simp: res_simps dest: raw_add_Inl raw_load_Inl)
  then have step: "iter_gaps_next g st = Inl p \<Longrightarrow> p = IntegerOverflow \<or> p = InvalidState" for g :: "'a raw" and st
    by (cases st; cases "fst st"; cases "gap_start (snd st)") (auto split: option.splits)
  have "iter_gaps_all g st = Inl p \<Longrightarrow> p = IntegerOverflow \<or> p = InvalidState" for g :: "'a raw" and st
  proof (induction g st rule: iter_gaps_all.induct)
    case (1 g st)
    show ?case
    proof (cases "iter_gaps_next g st")
      case (Inl q)
      with "1.prems" step [of g st] show ?thesis by (simp add: iter_gaps_all.simps [of g st])
    next
      case (Inr q)
      obtain c st' where q: "q = (c, st')" by (cases q)
      with Inr "1.prems" obtain chunk where "c = Some chunk" "iter_gaps_all g st' = Inl p"
        by (cases c) (auto simp: iter_gaps_all.simps [of g st] res_simps)
      with "1.IH" [OF Inr q [symmetric]] Inr q show ?thesis by simp
    qed
  qed
  then show "iter_gaps g bps = Inl p \<Longrightarrow> p = IntegerOverflow \<or> p = InvalidState" by (auto simp: iter_gaps_def res_simps)
qed

lemma dep_values_Inl: "dep_values ss i e locked deps = Inl p \<Longrightarrow> p \<noteq> NotFreed"
  by (induction deps arbitrary: locked) (auto simp: res_simps assert_res_def split: if_splits)

lemma init_simple_Inl: "init_simple ci e s = Inl p \<Longrightarrow> p \<noteq> NotFreed"
  unfolding init_simple_def
proof (drule fold_res_Inl, elim bexE exE)
  fix i s assume "fill_init_simple ci e i s = Inl p"
  then show "p \<noteq> NotFreed"
    by (auto simp: fill_init_simple_def Let_def case_prod_beta res_simps dest: dep_values_Inl
        split: option.splits init_strategy.splits if_splits)
qed

lemma get_or_create_Inl:
  assumes "get_or_create strategy d (iter_allocated_chunks sn) m = Inl p"
  shows "p = IntegerOverflow \<or> p = InvalidState \<or> p = Unimplemented"
  using assms
  by (auto simp: get_or_create_def iter_allocated_chunks_def panic_dep_init_def res_simps dest!: fold_res_Inl iter_gaps_Inl
      split: option.splits init_strategy.splits if_splits)

lemma fill_init_isotope_Inl:
  fixes s :: "'b isotope_map \<times> ('t, 'b) comp_map"
  assumes "fill_init_isotope ci ss al e c s = Inl p"
  shows "p \<noteq> NotFreed"
proof -
  have given: "fill_given_isotope st al e dv m = Inl p \<Longrightarrow> p \<noteq> NotFreed" for st dv and m :: "'b isotope_map"
    by (auto simp: fill_given_isotope_def take_snapshot_def res_simps dest: get_or_create_Inl raw_load_Inl)
  have auto: "fill_auto_isotope ss deps f e m = Inl p \<Longrightarrow> p \<noteq> NotFreed" for deps f and m :: "(nat, 'b) fmap"
    by (auto simp: fill_auto_isotope_def res_simps dest: dep_values_Inl split: if_splits)
  show ?thesis
    using assms given auto
    by (cases "ci_init (ci c)")
      (auto simp: fill_init_isotope_def Let_def case_prod_beta res_simps dest!: fold_res_Inl map_values_Inl
        split: if_splits)
qed

lemma init_isotopes_Inl: "init_isotopes ci ss al e ms cm = Inl p \<Longrightarrow> p \<noteq> NotFreed"
proof (induction ms arbitrary: cm)
  case (Cons q ms)
  then show ?case by (cases q) (auto simp: res_simps dest: fill_init_isotope_Inl)
qed simp

lemma init_entity_not_freed:
  assumes "tracked (w_rctrack w) a (to_primitive eid) = None"
  shows "init_entity True ci a eid rc cm w \<noteq> Inl NotFreed"
proof
  assume "init_entity True ci a eid rc cm w = Inl NotFreed"
  moreover obtain tr where "rctrack_set a (to_primitive eid) rc (w_rctrack w) = Inr tr"
    using assms by (auto simp: rctrack_set_outcome)
  ultimately show False
    by (auto simp: init_entity_def Let_def res_simps archetype_mut_def ealloc_get_def typed_init_entity_def
        dest: init_simple_Inl init_isotopes_Inl)
qed

lemma allocate_not_freed:
  assumes "ealloc_inv (\<lambda>_. True) (\<lambda>r. r) live al" and "rng_ok rng"
  shows "fst (allocate btree_recycler rng h al) \<noteq> Inl NotFreed"
proof (cases "shards_lent al")
  case False
  from btree_rc.allocate_total [OF assms False, of h] show ?thesis by auto
next
  case True
  have "select_for_offline_allocation rng sa n = Inl p \<Longrightarrow> p = IndexOutOfBounds" for sa n p
    by (cases sa) (auto split: if_splits)
  with True show ?thesis
    by (auto simp: allocate_def get_offline_def res_simps split: sum.splits)
qed

subsection \<open>Properties of the life cycle\<close>

text \<open>
  C30. With reference counts compiled in, every identifier has one owner, in every history. Start
  from a world that has handed out nothing and let the program create, clone, drop, delete and run
  cycles in any order, with systems creating and deleting in between. While no operation has panicked,
  a live entity's identifier was handed out and is in no recycler and no deallocation queue; and
  creating an entity then never finds its identifier still in use: it yields an identifier that is not
  live, or panics for another reason than a predecessor that was not freed.
\<close>

theorem live_ids_have_one_owner:
  fixes w w' :: "('a, 't, 'v, 'w::len raw, 'w raw set) world"
  assumes new: "world_new w" and rng: "rng_ok rng" and "\<And>b. hash_order_ok (perm b)"
    and "list_all (command_ok (length (w_shards w))) cs"
    and "fold_res (run_command True btree_recycler rng perm ci rv fl fv) cs w = Inr w'"
    and al: "map_of (w_ealloc w') a = Some al"
  shows "(\<forall>e. tracked (w_rctrack w') a (to_primitive e) \<noteq> None \<longrightarrow>
            e \<in> handed_out (global_gauge al) \<and> e \<notin> \<Union> (set (recycler_shards al)) \<and> e \<notin> set (dealloc_queue al)) \<and>
         (case create_with_hint True btree_recycler rng ci a hint cm w' of
            Inr (ref, w'') \<Rightarrow> tracked (w_rctrack w') a (to_primitive (sr_id ref)) = None \<and>
                              tracked (w_rctrack w'') a (to_primitive (sr_id ref)) = Some (sr_rc ref)
          | Inl p \<Rightarrow> p \<noteq> NotFreed)"
proof (intro conjI allI impI)
  have inv: "world_inv w'" by (rule history_keeps [OF assms(1-5)])
  note own = entity_invD [OF inv [unfolded world_inv_def] al]
  fix e :: "'w raw" assume "tracked (w_rctrack w') a (to_primitive e) \<noteq> None"
  then have "e \<in> owns (world_pending w') w' a" by (simp add: owns_def)
  with btree_rc.inv_sets [OF own] show "e \<in> handed_out (global_gauge al)" "e \<notin> \<Union> (set (recycler_shards al))"
    "e \<notin> set (dealloc_queue al)" by auto
next
  have inv: "entity_inv (world_pending w') w'" using history_keeps [OF assms(1-5)] by (simp add: world_inv_def)
  show "case create_with_hint True btree_recycler rng ci a hint cm w' of
      Inr (ref, w'') \<Rightarrow> tracked (w_rctrack w') a (to_primitive (sr_id ref)) = None \<and>
                        tracked (w_rctrack w'') a (to_primitive (sr_id ref)) = Some (sr_rc ref)
    | Inl p \<Rightarrow> p \<noteq> NotFreed"
  proof (cases "create_with_hint True btree_recycler rng ci a hint cm w'")
    case (Inr q)
    obtain ref w'' where q: "q = (ref, w'')" by fastforce
    from create_keeps(5,6) [OF inv rng Inr [unfolded q]] Inr q show ?thesis by (simp add: owns_def)
  next
    case (Inl p)
    obtain x al' where x: "allocate btree_recycler rng hint al = (x, al')" by fastforce
    have "p \<noteq> NotFreed"
    proof (cases x)
      case (Inl p')
      with x al \<open>_ = Inl p\<close> allocate_not_freed [OF entity_invD [OF inv al] rng, of hint] show ?thesis
        by (auto simp: create_with_hint_def ealloc_get_def)
    next
      case (Inr eid)
      have "eid \<notin> owns (world_pending w') w' a"
        using btree_rc.allocate_keeps_inv [OF entity_invD [OF inv al] rng x [unfolded Inr]] by simp
      then have "init_entity True ci a eid (w_arcs w') cm (snd (new_arc (w'\<lparr>w_ealloc := ealloc_put a al' (w_ealloc w')\<rparr>)))
          \<noteq> Inl NotFreed"
        by (intro init_entity_not_freed) (simp add: owns_def new_arc_def)
      with x Inr al \<open>_ = Inl p\<close> show ?thesis
        by (auto simp: create_with_hint_def ealloc_get_def new_arc_def Let_def res_simps)
    qed
    with Inl show ?thesis by simp
  qed
qed

text \<open>
  The world of the witnesses: archetype \<open>A\<close> with two shards; component 0 is the deletion flag, 1 has an
  initializer, 2 is a finalizer, 3 an isotope component with an initializer.
\<close>

definition life_ci :: "nat \<Rightarrow> (nat, nat) comp_info" where
  "life_ci c =
     \<lparr>ci_presence = Optional,
      ci_init = (if c = 1 then Auto [] (\<lambda>_. 10) else if c = 3 then Auto [] (\<lambda>_. 5) else NoInit),
      ci_finalizer = (c = 2)\<rparr>"

definition life_world :: "(string, nat, nat, 16 raw, 16 raw set) world" where
  "life_world =
     \<lparr>w_ealloc = [(''A'', new_with_shard_assigner demo_ops 2 ThreadRngShardAssigner)],
      w_comps = [(''A'', \<lparr>ty_simple = [(0, fmempty), (1, fmempty), (2, fmempty)], ty_isotope = [(3, [])]\<rparr>)],
      w_gen = fmempty, w_rctrack = fmempty, w_strong = (\<lambda>_. 0), w_arcs = 0, w_rerun = [], w_shards = [[], []]\<rparr>"

text \<open>A component of value 0 holds the entity 1, and so does the system \<open>S\<close>.\<close>

definition life_rv :: "(string, nat, nat) ref_view" where
  "life_rv =
     \<lparr>rv_rf = (\<lambda>v. Fields (if v = 0 then [Strong ''A'' 1] else [])),
      rv_arch = (\<lambda>a. a), rv_comp = (\<lambda>c. if c = 1 then ''C'' else ''D''), rv_discrim = (\<lambda>_. []),
      rv_systems = [(''S'', [Fields [Weak ''A'' 1, Strong ''A'' 1]])], rv_globals = []\<rparr>"

definition life_history :: "bool \<Rightarrow> (string, 16 raw, nat, nat, 16 btree_hint) command list
    \<Rightarrow> (string, nat, nat, 16 raw, 16 raw set) world res" where
  "life_history rc_on cs =
     fold_res (run_command rc_on demo_ops (\<lambda>_. 0) (\<lambda>_ is. is) life_ci life_rv 0 7) cs life_world"

lemma life_world_new: "world_new life_world"
  by (auto simp: world_new_def life_world_def assigner_ok_def
      intro!: exI [of _ "2 :: nat"] exI [of _ ThreadRngShardAssigner])

theorem live_ids_have_one_owner_witness:
  "tracked (w_rctrack (returned (life_history True
      [Create ''A'' None comp_map_default, Execute [OnlineCreate 1 ''A'' None comp_map_default],
       Delete ''A'' 1 (Some 0), Execute []]))) ''A'' (to_primitive (2 :: 16 raw)) \<noteq> None \<and>
   (2 :: 16 raw) \<notin> set (dealloc_queue (snd (hd (w_ealloc (returned (life_history True
      [Create ''A'' None comp_map_default, Execute [OnlineCreate 1 ''A'' None comp_map_default],
       Delete ''A'' 1 (Some 0), Execute []]))))))"
proof -
  let ?cs = "[Create ''A'' None comp_map_default, Execute [OnlineCreate 1 ''A'' None comp_map_default],
       Delete ''A'' 1 (Some 0), Execute []] :: (string, 16 raw, nat, nat, 16 btree_hint) command list"
  let ?w = "returned (life_history True ?cs)"
  have "life_history True ?cs = Inr ?w" by (rule returned_eq) code_simp
  then have run: "fold_res (run_command True demo_ops (\<lambda>_. 0) (\<lambda>_ is. is) life_ci life_rv 0 7) ?cs life_world = Inr ?w"
    by (simp only: life_history_def)
  have live: "tracked (w_rctrack ?w) ''A'' (to_primitive (2 :: 16 raw)) \<noteq> None" by code_simp
  have "archetypes ?w = [''A'']" by code_simp
  then have al: "map_of (w_ealloc ?w) ''A'' = Some (snd (hd (w_ealloc ?w)))" by (cases "w_ealloc ?w") auto
  have "list_all (command_ok (length (w_shards life_world))) ?cs" by (simp add: life_world_def)
  from live_ids_have_one_owner [OF life_world_new demo_rng _ this run al] live
  show ?thesis by (simp add: hash_order_ok_def)
qed

end
