(* ===== verification/Entity_Laws.thy ===== *)
theory Entity_Laws
  imports Lifecycle
begin

section \<open>What creation and deletion do to an entity\<close>


subsection \<open>Deletion\<close>





lemma put_typed_twice [simp]: "put_typed a ty2 (put_typed a ty1 w) = put_typed a ty2 w"
  by (auto simp: put_typed_def intro!: arg_cong [where f = "\<lambda>m. w_comps_update (\<lambda>_. m) w"])











subsection \<open>Isotope components survive deletion\<close>




subsection \<open>Deletion without reference counts\<close>




subsection \<open>Creation\<close>
















subsection \<open>Weak references\<close>

text \<open>
  C35. A weak reference recognizes that its identifier was reused, up to wrap-around. Take a weak
  reference to an identifier, let any sequence of entities be created, and take another one to the
  same identifier: the generations agree exactly if the number of creations under this identifier in
  between is a multiple of \<open>2 ^ 32\<close>.
\<close>

theorem generations_tell_reuse:
  fixes r r' :: "'w::len raw strong_ref"
  assumes "entity_weak r (fmlookup m a) = Inr wk" and "sr_id r' = sr_id r"
    and "entity_weak r' (fmlookup (fold (\<lambda>(b, i). snd \<circ> gen_map_next b i) created m) a) = Inr wk'"
  shows "wr_generation wk' = wr_generation wk \<longleftrightarrow> 2 ^ 32 dvd count_list created (a, to_primitive (sr_id r))"
proof -
  let ?n = "to_primitive (sr_id r)"
  have gen: "wr_generation k = gen_map_get a (to_primitive (sr_id q)) s"
    if "entity_weak q (fmlookup s a) = Inr k" for q s and k :: "'w raw weak_ref"
    using that by (auto simp: entity_weak_def gen_map_get_def split: option.splits)
  have "wr_generation wk' = gen_map_get a ?n m + of_nat (count_list created (a, ?n))"
    using gen [OF assms(3)] assms(2) by (simp add: gen_map_get_fold)
  moreover have "(of_nat k :: generation) = 0 \<longleftrightarrow> 2 ^ 32 dvd k" for k
    by (simp add: word_of_nat_eq_0_iff)
  ultimately show ?thesis using gen [OF assms(1)] by simp
qed

theorem generations_tell_reuse_witness:
  "\<exists>wk wk'. entity_weak \<lparr>sr_id = (3 :: 16 raw), sr_rc = 0\<rparr> (Some [0, 0, 0, 1]) = Inr wk \<and>
     entity_weak \<lparr>sr_id = (3 :: 16 raw), sr_rc = 1\<rparr> (Some [0, 0, 0, 2]) = Inr wk' \<and> wr_generation wk' \<noteq> wr_generation wk"
proof -
  let ?m = "fmupd ''A'' [0, 0, 0, 1] fmempty :: (string, generation list) fmap"
  let ?m' = "fold (\<lambda>(b, i). snd \<circ> gen_map_next b i) [(''A'', 3)] ?m"
  have m': "fmlookup ?m' ''A'' = Some [0, 0, 0, 2]" by code_simp
  obtain wk wk' where w: "entity_weak \<lparr>sr_id = (3 :: 16 raw), sr_rc = 0\<rparr> (fmlookup ?m ''A'') = Inr wk"
    "entity_weak \<lparr>sr_id = (3 :: 16 raw), sr_rc = 1\<rparr> (fmlookup ?m' ''A'') = Inr wk'"
    unfolding m' by (simp add: entity_weak_def)
  have three: "to_primitive (3 :: 16 raw) = 3" by code_simp
  from generations_tell_reuse [OF w(1) _ w(2)] three have "wr_generation wk' \<noteq> wr_generation wk" by simp
  with w m' show ?thesis by auto
qed

subsection \<open>Types that hold references\<close>

text \<open>
  C36. Visiting the types of a component finds every archetype. Let the types of a program be finitely
  many, cyclic or not. The visit ends, and the archetypes it finds are exactly those of the strong
  references that can be reached below the visited types; weak references are not among them.
\<close>

theorem visit_types_exact:
  assumes "(type_edges node)\<^sup>* `` set tys \<subseteq> set all_types"
  shows "a \<in> found_archs (visit_types all_types node tys visit_type_new) \<longleftrightarrow>
     (\<exists>t u. t \<in> set tys \<and> (t, u) \<in> (type_edges node)\<^sup>* \<and> node u = EntityType a)"
  unfolding visit_types_found [OF assms] by blast

text \<open>A list node: type 3 has fields of types 4 (a reference to \<open>A\<close>) and 5, a box of type 3.\<close>

theorem visit_types_exact_witness:
  "''A'' \<in> found_archs (visit_types [3, 4, 5] ((\<lambda>_. WeakType)(3 := Compound [4, 5], 4 := EntityType ''A'', 5 := Compound [3]))
     [5 :: nat] visit_type_new)"
proof -
  let ?node = "(\<lambda>_. WeakType)(3 := Compound [4, 5], 4 := EntityType ''A'', 5 := Compound [3]) :: nat \<Rightarrow> (nat, string) type_node"
  have edges: "type_edges ?node = {(3, 4), (3, 5), (5, 3)}"
    unfolding type_edges_def by (auto split: if_splits)
  have "u \<in> {3, 4, 5}" if "(t, u) \<in> (type_edges ?node)\<^sup>*" "t = 5" for t u
    using that by (induction rule: rtrancl_induct) (auto simp: edges)
  then have sub: "(type_edges ?node)\<^sup>* `` set [5] \<subseteq> set [3, 4, 5]" by auto
  have "(5, 3) \<in> type_edges ?node" "(3, 4) \<in> type_edges ?node" by (simp_all add: edges)
  then have "(5, 4) \<in> (type_edges ?node)\<^sup>*" by (meson converse_rtrancl_into_rtrancl r_into_rtrancl)
  then show ?thesis unfolding visit_types_exact [OF sub] by (intro exI [of _ 5] exI [of _ 4]) simp
qed

subsection \<open>Registration\<close>

text \<open>
  C37. Registering a component ends and keeps the storages in dependency order. If no initializer
  depends on itself through others, adding a component to an archetype whose storages are in
  dependency order returns: it appends the missing dependencies and the component, each after the
  storages its initializer reads, or it reports an initializer that names a dependency twice.
\<close>

theorem registration_ends_in_order:
  assumes "wf (dep_rel ci)" and "toposorted ci (tb_simple tb)"
  shows "(\<exists>tb' xs. add_simple_storage_if_missing ci c tb = Inr tb' \<and> tb_simple tb' = tb_simple tb @ xs \<and>
           c \<in> set (tb_simple tb') \<and> toposorted ci (tb_simple tb') \<and> tb_isotope tb' = tb_isotope tb) \<or>
         add_simple_storage_if_missing ci c tb = Inl DuplicateDependency \<and> (\<exists>d. \<not> distinct (init_deps ci d))"
proof -
  obtain r where r: "add_simple_storages_if_missing ci [c] (tb_simple tb) = Some r"
    using add_storages_total [OF assms(1)] by blast
  have reg: "registered ci [c] (tb_simple tb) r" by (rule add_storages_correct [OF r assms(2)])
  show ?thesis
  proof (cases r)
    case (Inl e)
    with r reg show ?thesis by (simp add: add_simple_storage_if_missing_def registered_def)
  next
    case (Inr st)
    with r reg show ?thesis by (auto simp: add_simple_storage_if_missing_def registered_def)
  qed
qed

text \<open>Component 2 is computed from 1, and 1 from nothing.\<close>

theorem registration_ends_in_order_witness:
  "\<exists>tb' xs. add_simple_storage_if_missing
       (\<lambda>c. \<lparr>ci_presence = Required, ci_init = Auto (if c = 2 then [1] else []) (sum_list :: nat list \<Rightarrow> nat), ci_finalizer = False\<rparr>) 2
       (typed_builder_new 0) = Inr tb' \<and> tb_simple tb' = [0 :: nat] @ xs \<and> 2 \<in> set (tb_simple tb')"
proof -
  let ?ci = "\<lambda>c. \<lparr>ci_presence = Required, ci_init = Auto (if c = 2 then [1] else []) sum_list, ci_finalizer = False\<rparr>
    :: (nat, nat) comp_info"
  have deps: "init_deps ?ci c = (if c = 2 then [1] else [])" for c by (simp add: init_deps_def)
  have "dep_rel ?ci \<subseteq> less_than" by (auto simp: dep_rel_def deps split: if_splits)
  then have wf: "wf (dep_rel ?ci)" by (rule wf_subset [OF wf_less_than])
  have "toposorted ?ci (tb_simple (typed_builder_new 0))" by (simp add: toposorted_def typed_builder_new_def deps)
  moreover have "distinct (init_deps ?ci d)" for d by (simp add: deps)
  moreover have "tb_simple (typed_builder_new 0) = [0 :: nat]" by (simp add: typed_builder_new_def)
  ultimately show ?thesis using registration_ends_in_order [OF wf, of "typed_builder_new 0" 2] by metis
qed

end
