(* ===== verification/Access.thy ===== *)
theory Access
  imports World World_Builder
begin

section \<open>Access to globals and component storages\<close>

text \<open>
  \<open>src/world/global.rs\<close>, \<open>src/world/rw/simple.rs\<close> and \<open>src/world/rw/isotope\<close>: the locks a system
  takes for its parameters, and the part of \<open>codegen/src/system.rs\<close> that turns parameters into
  requests and into these calls.

  The \<open>RwLock\<close> of \<open>parking_lot\<close> is a parameter: \<open>ops\<close> holds its operations on a lock state \<open>'l\<close>, and
  \<open>rw_lock_ok\<close> states what its documentation promises. A guard is what is released when an accessor
  is dropped. The mutex of an isotope map is only held across calls by an accessor for writing to all
  discriminants; a blocking \<open>lock()\<close> that would have to wait for such an accessor yields \<open>MutexBlocked\<close>.
\<close>

subsection \<open>Locks and guards\<close>

record 'l rw_ops =
  rw_try_read :: "'l \<Rightarrow> 'l option"
  rw_try_write :: "'l \<Rightarrow> 'l option"
  rw_unlock_read :: "'l \<Rightarrow> 'l"
  rw_unlock_write :: "'l \<Rightarrow> 'l"

definition rw_lock_ok :: "'l rw_ops \<Rightarrow> ('l \<Rightarrow> nat) \<Rightarrow> ('l \<Rightarrow> bool) \<Rightarrow> bool" where
  "rw_lock_ok ops readers writer \<longleftrightarrow> (\<forall>l.
     (if writer l then rw_try_read ops l = None
      else \<exists>l'. rw_try_read ops l = Some l' \<and> readers l' = readers l + 1 \<and> \<not> writer l') \<and>
     (if writer l \<or> readers l > 0 then rw_try_write ops l = None
      else \<exists>l'. rw_try_write ops l = Some l' \<and> readers l' = 0 \<and> writer l') \<and>
     (\<not> writer l \<and> readers l > 0 \<longrightarrow> readers (rw_unlock_read ops l) = readers l - 1 \<and> \<not> writer (rw_unlock_read ops l)) \<and>
     (writer l \<and> readers l = 0 \<longrightarrow> readers (rw_unlock_write ops l) = 0 \<and> \<not> writer (rw_unlock_write ops l)))"

datatype 't lock_key = GlobalLock 't | SimpleLock 't 't | IsotopeLock 't 't nat

datatype 't guard = ReadGuard "'t lock_key" | WriteGuard "'t lock_key" | MapGuard 't 't

record ('t, 'v, 'l) store =
  st_sync :: "'t set"
  st_unsync :: "'t set"
  st_comps :: "('t \<times> ('t, 'v) typed) list"
  st_locks :: "'t lock_key \<Rightarrow> 'l"
  st_maps :: "('t \<times> 't) set"

definition lock_read :: "'l rw_ops \<Rightarrow> 't lock_key \<Rightarrow> ('t, 'v, 'l) store \<Rightarrow> ('t guard list \<times> ('t, 'v, 'l) store) res" where
  "lock_read ops k st =
     bind_res (expect LockBusy (rw_try_read ops (st_locks st k))) (\<lambda>l.
     Inr ([ReadGuard k], st\<lparr>st_locks := (st_locks st)(k := l)\<rparr>))"

definition lock_write :: "'l rw_ops \<Rightarrow> 't lock_key \<Rightarrow> ('t, 'v, 'l) store \<Rightarrow> ('t guard list \<times> ('t, 'v, 'l) store) res" where
  "lock_write ops k st =
     bind_res (expect LockBusy (rw_try_write ops (st_locks st k))) (\<lambda>l.
     Inr ([WriteGuard k], st\<lparr>st_locks := (st_locks st)(k := l)\<rparr>))"

fun drop_guard :: "'l rw_ops \<Rightarrow> 't guard \<Rightarrow> ('t, 'v, 'l) store \<Rightarrow> ('t, 'v, 'l) store" where
  "drop_guard ops (ReadGuard k) st = st\<lparr>st_locks := (st_locks st)(k := rw_unlock_read ops (st_locks st k))\<rparr>"
| "drop_guard ops (WriteGuard k) st = st\<lparr>st_locks := (st_locks st)(k := rw_unlock_write ops (st_locks st k))\<rparr>"
| "drop_guard ops (MapGuard a c) st = st\<lparr>st_maps := st_maps st - {(a, c)}\<rparr>"

subsection \<open>Globals\<close>

definition globals_read :: "'l rw_ops \<Rightarrow> 't \<Rightarrow> ('t, 'v, 'l) store \<Rightarrow> ('t guard list \<times> ('t, 'v, 'l) store) res" where
  "globals_read ops g st = (if g \<in> st_sync st then lock_read ops (GlobalLock g) st else Inl UnusedResource)"

definition globals_write :: "'l rw_ops \<Rightarrow> 't \<Rightarrow> ('t, 'v, 'l) store \<Rightarrow> ('t guard list \<times> ('t, 'v, 'l) store) res" where
  "globals_write ops g st = (if g \<in> st_sync st then lock_write ops (GlobalLock g) st else Inl UnusedResource)"

text \<open>Offline access, and the globals of the main thread: the exclusive reference needs no lock.\<close>

definition globals_get_mut :: "'t \<Rightarrow> ('t, 'v, 'l) store \<Rightarrow> unit res" where
  "globals_get_mut g st = assert_res UnusedResource (g \<in> st_sync st)"

definition unsync_get :: "'t \<Rightarrow> ('t, 'v, 'l) store \<Rightarrow> ('t guard list \<times> ('t, 'v, 'l) store) res" where
  "unsync_get g st = (if g \<in> st_unsync st then Inr ([], st) else Inl UnusedResource)"

subsection \<open>Simple components\<close>

definition find_archetype :: "'t \<Rightarrow> ('t, 'v, 'l) store \<Rightarrow> ('t, 'v) typed res" where
  "find_archetype a st = expect UnknownArchetype (map_of (st_comps st) a)"

definition read_simple_storage :: "'l rw_ops \<Rightarrow> 't \<Rightarrow> 't \<Rightarrow> ('t, 'v, 'l) store \<Rightarrow> ('t guard list \<times> ('t, 'v, 'l) store) res" where
  "read_simple_storage ops a c st =
     bind_res (find_archetype a st) (\<lambda>ty.
     bind_res (expect UnusedResource (map_of (ty_simple ty) c)) (\<lambda>_. lock_read ops (SimpleLock a c) st))"

definition write_simple_storage :: "'l rw_ops \<Rightarrow> 't \<Rightarrow> 't \<Rightarrow> ('t, 'v, 'l) store \<Rightarrow> ('t guard list \<times> ('t, 'v, 'l) store) res" where
  "write_simple_storage ops a c st =
     bind_res (find_archetype a st) (\<lambda>ty.
     bind_res (expect UnusedResource (map_of (ty_simple ty) c)) (\<lambda>_. lock_write ops (SimpleLock a c) st))"

definition get_simple_storage :: "'t \<Rightarrow> 't \<Rightarrow> ('t, 'v, 'l) store \<Rightarrow> (nat, 'v) fmap res" where
  "get_simple_storage a c st =
     bind_res (find_archetype a st) (\<lambda>ty. expect UnusedResource (map_of (ty_simple ty) c))"

subsection \<open>Isotope components\<close>

definition storage_map :: "'t \<Rightarrow> 't \<Rightarrow> ('t, 'v, 'l) store \<Rightarrow> 'v isotope_map res" where
  "storage_map a c st =
     bind_res (find_archetype a st) (\<lambda>ty. expect UnusedResource (map_of (ty_isotope ty) c))"

definition put_map :: "'t \<Rightarrow> 't \<Rightarrow> 'v isotope_map \<Rightarrow> ('t, 'v, 'l) store \<Rightarrow> ('t, 'v, 'l) store" where
  "put_map a c m st =
     st\<lparr>st_comps := map (\<lambda>(b, ty). (b, if b = a then ty\<lparr>ty_isotope :=
          map (\<lambda>(d, m0). (d, if d = c then m else m0)) (ty_isotope ty)\<rparr> else ty)) (st_comps st)\<rparr>"

definition own_storage :: "'l rw_ops \<Rightarrow> bool \<Rightarrow> 't \<Rightarrow> 't \<Rightarrow> nat \<Rightarrow> ('t, 'v, 'l) store \<Rightarrow> ('t guard list \<times> ('t, 'v, 'l) store) res" where
  "own_storage ops mutable a c d st =
     (if mutable then lock_write ops (IsotopeLock a c d) st else lock_read ops (IsotopeLock a c d) st)"

text \<open>The mutex of an isotope map: a blocking lock for the length of a call.\<close>

definition map_lock :: "'t \<Rightarrow> 't \<Rightarrow> ('t, 'v, 'l) store \<Rightarrow> unit res" where
  "map_lock a c st = assert_res MutexBlocked ((a, c) \<notin> st_maps st)"

fun own_all :: "'l rw_ops \<Rightarrow> bool \<Rightarrow> 't \<Rightarrow> 't \<Rightarrow> nat list \<Rightarrow> ('t, 'v, 'l) store \<Rightarrow> ('t guard list \<times> ('t, 'v, 'l) store) res" where
  "own_all ops mutable a c [] st = Inr ([], st)"
| "own_all ops mutable a c (d # ds) st =
     bind_res (own_storage ops mutable a c d st) (\<lambda>(gs, st1).
     bind_res (own_all ops mutable a c ds st1) (\<lambda>(gs', st2). Inr (gs @ gs', st2)))"

definition read_full_isotope_storage :: "'l rw_ops \<Rightarrow> 't \<Rightarrow> 't \<Rightarrow> ('t, 'v, 'l) store \<Rightarrow> ('t guard list \<times> ('t, 'v, 'l) store) res" where
  "read_full_isotope_storage ops a c st =
     bind_res (storage_map a c st) (\<lambda>m.
     bind_res (map_lock a c st) (\<lambda>_. own_all ops False a c (map fst m) st))"

definition write_full_isotope_storage :: "'l rw_ops \<Rightarrow> 't \<Rightarrow> 't \<Rightarrow> ('t, 'v, 'l) store \<Rightarrow> ('t guard list \<times> ('t, 'v, 'l) store) res" where
  "write_full_isotope_storage ops a c st =
     bind_res (storage_map a c st) (\<lambda>m.
     bind_res (assert_res LockBusy ((a, c) \<notin> st_maps st)) (\<lambda>_.
     bind_res (own_all ops True a c (map fst m) (st\<lparr>st_maps := insert (a, c) (st_maps st)\<rparr>)) (\<lambda>(gs, st1).
     Inr (MapGuard a c # gs, st1))))"

text \<open>\<open>get_or_create\<close> followed by \<open>own_storage\<close>, on the locked map.\<close>

definition create_and_own :: "'l rw_ops \<Rightarrow> ('t, 'v) init_strategy \<Rightarrow> 'w::len raw chunk list res \<Rightarrow> bool \<Rightarrow> 't \<Rightarrow> 't \<Rightarrow> nat
    \<Rightarrow> ('t, 'v, 'l) store \<Rightarrow> ('t guard list \<times> ('t, 'v, 'l) store) res" where
  "create_and_own ops strategy entities mutable a c d st =
     bind_res (storage_map a c st) (\<lambda>m.
     bind_res (get_or_create strategy d entities m) (\<lambda>m'. own_storage ops mutable a c d (put_map a c m' st)))"

fun own_partial :: "'l rw_ops \<Rightarrow> ('t, 'v) init_strategy \<Rightarrow> 'w::len raw chunk list res \<Rightarrow> bool \<Rightarrow> 't \<Rightarrow> 't \<Rightarrow> nat list
    \<Rightarrow> ('t, 'v, 'l) store \<Rightarrow> ('t guard list \<times> ('t, 'v, 'l) store) res" where
  "own_partial ops strategy entities mutable a c [] st = Inr ([], st)"
| "own_partial ops strategy entities mutable a c (d # ds) st =
     bind_res (create_and_own ops strategy entities mutable a c d st) (\<lambda>(gs, st1).
     bind_res (own_partial ops strategy entities mutable a c ds st1) (\<lambda>(gs', st2). Inr (gs @ gs', st2)))"

definition partial_isotope_storage :: "'l rw_ops \<Rightarrow> ('t, 'v) init_strategy \<Rightarrow> 'w::len raw chunk list res \<Rightarrow> bool \<Rightarrow> 't \<Rightarrow> 't \<Rightarrow> nat list
    \<Rightarrow> ('t, 'v, 'l) store \<Rightarrow> ('t guard list \<times> ('t, 'v, 'l) store) res" where
  "partial_isotope_storage ops strategy entities mutable a c ds st =
     bind_res (storage_map a c st) (\<lambda>_.
     bind_res (map_lock a c st) (\<lambda>_. own_partial ops strategy entities mutable a c ds st))"

text \<open>
  \<open>get_storage\<close> and \<open>get_storage_mut\<close> of an accessor for all discriminants that holds \<open>held\<close>: a
  discriminant it does not know yet is created and locked.
\<close>

definition full_get_storage :: "'l rw_ops \<Rightarrow> ('t, 'v) init_strategy \<Rightarrow> 'w::len raw chunk list res \<Rightarrow> bool \<Rightarrow> 't \<Rightarrow> 't \<Rightarrow> nat
    \<Rightarrow> 't guard list \<Rightarrow> ('t, 'v, 'l) store \<Rightarrow> ('t guard list \<times> ('t, 'v, 'l) store) res" where
  "full_get_storage ops strategy entities mutable a c d held st =
     (if (if mutable then WriteGuard (IsotopeLock a c d) else ReadGuard (IsotopeLock a c d)) \<in> set held then Inr ([], st)
      else if mutable then create_and_own ops strategy entities True a c d st
      else bind_res (map_lock a c st) (\<lambda>_. create_and_own ops strategy entities False a c d st))"

text \<open>\<open>get_storage\<close> of a partial accessor: the key is a position in the requested discriminants.\<close>

definition partial_get_storage :: "nat list \<Rightarrow> nat \<Rightarrow> nat res" where
  "partial_get_storage ds key = expect MissingKey (list_get ds key)"

text \<open>\<open>offline_isotope_storage\<close> and \<open>get_isotope\<close>.\<close>

definition offline_isotope_storage :: "'t \<Rightarrow> 't \<Rightarrow> nat \<Rightarrow> ('t, 'v, 'l) store \<Rightarrow> (nat, 'v) fmap option res" where
  "offline_isotope_storage a c d st = bind_res (storage_map a c st) (\<lambda>m. Inr (map_of m d))"

definition get_isotope :: "'t \<Rightarrow> 't \<Rightarrow> nat \<Rightarrow> nat \<Rightarrow> ('t, 'v, 'l) store \<Rightarrow> 'v option res" where
  "get_isotope a c entity d st =
     bind_res (offline_isotope_storage a c d st) (\<lambda>storage. Inr (Option.bind storage (\<lambda>s. fmlookup s entity)))"

subsection \<open>The parameters of a system\<close>

datatype 't arg =
    GlobalArg bool 't bool                    \<comment> \<open>thread-local, type, mutable\<close>
  | SimpleArg 't 't bool                      \<comment> \<open>archetype, component, mutable\<close>
  | IsotopeArg 't 't "nat list option" bool   \<comment> \<open>archetype, component, discriminants, mutable\<close>

text \<open>What the macro puts into the specification of the system.\<close>

fun arg_request :: "'t arg \<Rightarrow> 't resource_type \<times> resource_access" where
  "arg_request (GlobalArg _ g m) = (GlobalRes g, access_new m)"
| "arg_request (SimpleArg a c m) = (SimpleRes a c, access_new m)"
| "arg_request (IsotopeArg a c ds m) = (IsotopeRes a c, access_with_discrim m ds)"

text \<open>The expression the macro passes to the function of the system; \<open>snap\<close> gives the snapshots of the cycle.\<close>

fun acquire_arg :: "'l rw_ops \<Rightarrow> ('t \<Rightarrow> ('t, 'v) comp_info) \<Rightarrow> ('t \<Rightarrow> 'w::len raw snapshot) \<Rightarrow> 't arg
    \<Rightarrow> ('t, 'v, 'l) store \<Rightarrow> ('t guard list \<times> ('t, 'v, 'l) store) res" where
  "acquire_arg ops ci snap (GlobalArg True g m) st = unsync_get g st"
| "acquire_arg ops ci snap (GlobalArg False g True) st = globals_write ops g st"
| "acquire_arg ops ci snap (GlobalArg False g False) st = globals_read ops g st"
| "acquire_arg ops ci snap (SimpleArg a c True) st = write_simple_storage ops a c st"
| "acquire_arg ops ci snap (SimpleArg a c False) st = read_simple_storage ops a c st"
| "acquire_arg ops ci snap (IsotopeArg a c (Some ds) m) st =
     partial_isotope_storage ops (ci_init (ci c)) (iter_allocated_chunks (snap a)) m a c ds st"
| "acquire_arg ops ci snap (IsotopeArg a c None True) st = write_full_isotope_storage ops a c st"
| "acquire_arg ops ci snap (IsotopeArg a c None False) st = read_full_isotope_storage ops a c st"

end
