(* ===== verification/Access_Laws.thy ===== *)
theory Access_Laws
  imports Access Lifecycle
begin

section \<open>The schedule keeps systems from waiting for each other's locks\<close>

text \<open>
  The scheduler and the locks of \<open>Access\<close> together: the requests of a scheduled system do not
  conflict among themselves, those of systems that run at the same time do not conflict either, so
  every lock a running system asks for is free.
\<close>

subsection \<open>The requests of one system\<close>

lemma use_resource_log:
  assumes "use_resource node ty access b = Inr b'"
  shows "accesses_of b' ty' n' =
      (if ty' = ty \<and> n' = node then accesses_of b ty node @ [access] else accesses_of b ty' n')"
    and "\<forall>other \<in> set (accesses_of b ty node). \<not> conflicts access other"
  using assms
  by (auto simp: use_resource_def accesses_of_def Let_def update_conv' split: option.splits if_splits)

definition all_quiet :: "('t, 'p) builder \<Rightarrow> bool" where
  "all_quiet b \<longleftrightarrow> (\<forall>ty n. sorted_wrt (\<lambda>x y. \<not> conflicts x y) (accesses_of b ty n))"

definition logs :: "node \<Rightarrow> ('t resource_type \<times> resource_access) list \<Rightarrow> ('t, 'u, 'g) world_builder
    \<Rightarrow> ('t, 'u, 'g) world_builder \<Rightarrow> bool" where
  "logs node rs wb wb' \<longleftrightarrow>
     (\<forall>ty. accesses_of (wb_scheduler wb') ty node =
        accesses_of (wb_scheduler wb) ty node @ map snd (filter (\<lambda>r. fst r = ty) rs)) \<and>
     (all_quiet (wb_scheduler wb) \<longrightarrow> all_quiet (wb_scheduler wb'))"

lemma logs_trans: "logs node rs a b \<Longrightarrow> logs node ss b c \<Longrightarrow> logs node (rs @ ss) a c"
  by (simp add: logs_def)

lemma logs_same:
  "resources (wb_scheduler wb') = resources (wb_scheduler wb) \<Longrightarrow> logs node [] wb wb'"
  by (simp add: logs_def all_quiet_def accesses_of_def)

lemma logs_after:
  fixes wb wb0 wb1 wb' :: "('t, 'u, 'g) world_builder"
  assumes "resources (wb_scheduler wb0) = resources (wb_scheduler wb)" and "logs node rs wb0 wb1"
    and "resources (wb_scheduler wb') = resources (wb_scheduler wb1)"
  shows "logs node rs wb wb'"
  using logs_trans [OF logs_trans [OF logs_same [OF assms(1)] assms(2)] logs_same [OF assms(3)]] by simp

lemma use_resource_wb_logs: "use_resource_wb node ty access wb = Inr wb' \<Longrightarrow> logs node [(ty, access)] wb wb'"
proof -
  assume "use_resource_wb node ty access wb = Inr wb'"
  then obtain b where b: "use_resource node ty access (wb_scheduler wb) = Inr b" and wb': "wb_scheduler wb' = b"
    by (auto simp: use_resource_wb_def)
  note log = use_resource_log [OF b]
  have "all_quiet (wb_scheduler wb) \<longrightarrow> all_quiet b"
    using log(2) conflicts_sym by (auto simp: all_quiet_def log(1) sorted_wrt_append)
  with log(1) show ?thesis by (simp add: logs_def wb')
qed

lemma add_dependencies_resources [simp]: "resources (add_dependencies deps n b) = resources b"
  by (induction deps n b rule: add_dependencies.induct)
    (auto simp: add_dependency_def push_partition_def Let_def split: prod.splits option.splits)

lemma depend_on_resources [simp]: "resources (wb_scheduler (depend_on deps n wb)) = resources (wb_scheduler wb)"
  by (simp add: depend_on_def)

lemma depend_strong_resources [simp]: "resources (wb_scheduler (depend_strong refs n wb)) = resources (wb_scheduler wb)"
  unfolding depend_strong_def by (induction refs arbitrary: wb) auto

lemma register_logs:
  fixes wb wb' :: "('t, 'u, 'g) world_builder"
  shows "register_global sync node g wb = Inr wb' \<Longrightarrow> logs node [(GlobalRes (gr_ty g), access_new (gr_mutable g))] wb wb'"
    and "register_simple ci flag node s wb = Inr wb' \<Longrightarrow>
      logs node [(SimpleRes (sr_arch s) (sr_comp s), access_new (sr_mutable s))] wb wb'"
    and "register_isotope flag node i wb = Inr wb' \<Longrightarrow>
      logs node [(IsotopeRes (ir_arch i) (ir_comp i), access_with_discrim (ir_mutable i) (ir_discrim i))] wb wb'"
proof -
  have step: "\<forall>wb refs. resources (wb_scheduler wb0) = resources (wb_scheduler wb) \<longrightarrow>
      logs node [(ty, access)] wb (depend_strong refs node wb1)"
    if "use_resource_wb node ty access wb0 = Inr wb1" for ty access and wb0 wb1 :: "('t, 'u, 'g) world_builder"
    using logs_after [OF _ use_resource_wb_logs [OF that]] by simp
  show "register_global sync node g wb = Inr wb' \<Longrightarrow> logs node [(GlobalRes (gr_ty g), access_new (gr_mutable g))] wb wb'"
    by (auto simp: register_global_def split: global_initial.splits if_splits dest!: step)
  show "register_simple ci flag node s wb = Inr wb' \<Longrightarrow>
      logs node [(SimpleRes (sr_arch s) (sr_comp s), access_new (sr_mutable s))] wb wb'"
    by (auto simp: register_simple_def dest!: step)
  show "register_isotope flag node i wb = Inr wb' \<Longrightarrow>
      logs node [(IsotopeRes (ir_arch i) (ir_comp i), access_with_discrim (ir_mutable i) (ir_discrim i))] wb wb'"
    by (auto simp: register_isotope_def Let_def dest!: step)
qed

lemma fold_logs:
  assumes "fold_res f xs wb = Inr wb'" and "\<And>x wb wb'. f x wb = Inr wb' \<Longrightarrow> logs node [r x] wb wb'"
  shows "logs node (map r xs) wb wb'"
  using assms(1)
proof (induction xs arbitrary: wb)
  case Nil
  then show ?case using logs_same [of wb' wb] by simp
next
  case (Cons x xs)
  then obtain wb1 where "f x wb = Inr wb1" "fold_res f xs wb1 = Inr wb'" by auto
  with logs_trans [OF assms(2) Cons.IH] show ?case by fastforce
qed

lemma register_resources_logs:
  fixes wb wb' :: "('t, 'u, 'g) world_builder"
  assumes "register_resources ci flag node sys wb = Inr wb'"
  shows "logs node (requests sys) wb wb'"
proof -
  let ?wb0 = "depend_strong (filter (\<lambda>arch. arch \<notin> set (sys_maybe_uninit sys)) (sys_found_archs sys)) node wb"
  from assms obtain wb1 wb2 wb3 where
      1: "fold_res (register_global (sys_sync sys) node) (global_requests (sys_spec sys)) ?wb0 = Inr wb1"
    and 2: "fold_res (register_simple ci flag node) (simple_requests (sys_spec sys)) wb1 = Inr wb2"
    and 3: "fold_res (register_isotope flag node) (isotope_requests (sys_spec sys)) wb2 = Inr wb3"
    and 5: "wb' = depend_on (spec_dependencies (sys_spec sys)) node
      (fold (register_creator node) (entity_creator_requests (sys_spec sys)) wb3)"
    by (auto simp: register_resources_def Let_def)
  have creators: "resources (wb_scheduler (fold (register_creator node) es wb)) = resources (wb_scheduler wb)"
    for es :: "'t entity_creator_request list" and wb :: "('t, 'u, 'g) world_builder"
    by (induction es arbitrary: wb) (auto simp: register_creator_def)
  have "logs node (map (\<lambda>r. (GlobalRes (gr_ty r), access_new (gr_mutable r))) (global_requests (sys_spec sys))) ?wb0 wb1"
    by (rule fold_logs [OF 1]) (rule register_logs(1))
  moreover have "logs node (map (\<lambda>r. (SimpleRes (sr_arch r) (sr_comp r), access_new (sr_mutable r))) (simple_requests (sys_spec sys))) wb1 wb2"
    by (rule fold_logs [OF 2]) (rule register_logs(2))
  moreover have "logs node (map (\<lambda>r. (IsotopeRes (ir_arch r) (ir_comp r), access_with_discrim (ir_mutable r) (ir_discrim r)))
      (isotope_requests (sys_spec sys))) wb2 wb3"
    by (rule fold_logs [OF 3]) (rule register_logs(3))
  ultimately have "logs node (requests sys) ?wb0 wb3"
    unfolding requests_def by (blast intro: logs_trans)
  then show ?thesis by (rule logs_after [rotated]) (simp_all add: 5 creators)
qed

definition own_quiet :: "('t, 'u, 'g) system \<Rightarrow> bool" where
  "own_quiet sys \<longleftrightarrow> sorted_wrt (\<lambda>r s. fst r = fst s \<longrightarrow> \<not> conflicts (snd r) (snd s)) (requests sys)"

lemma sorted_wrt_by_type:
  assumes "\<And>ty. sorted_wrt R (map snd (filter (\<lambda>r. fst r = ty) rs))"
  shows "sorted_wrt (\<lambda>r s. fst r = fst s \<longrightarrow> R (snd r) (snd s)) rs"
  using assms
proof (induction rs)
  case (Cons r rs)
  have "sorted_wrt R (map snd (filter (\<lambda>s. fst s = ty) rs))" for ty
    using Cons.prems [of ty] by (cases "fst r = ty") auto
  then show ?case using Cons.IH Cons.prems [of "fst r"] by auto
qed simp

lemma schedule_system_quiet:
  assumes "schedule_system ci flag sys wb = Inr wb'" and "all_quiet (wb_scheduler wb)"
  shows "all_quiet (wb_scheduler wb') \<and> own_quiet sys"
proof -
  obtain node b where "register_resources ci flag node sys (wb\<lparr>wb_scheduler := b\<rparr>) = Inr wb'"
    and b: "resources b = resources (wb_scheduler wb)"
    using assms(1) by (auto simp: schedule_system_def push_send_system_def push_unsend_system_def split: if_splits)
  from register_resources_logs [OF this(1)] have log: "logs node (requests sys) (wb\<lparr>wb_scheduler := b\<rparr>) wb'" .
  moreover have "all_quiet b" using assms(2) b by (simp add: all_quiet_def accesses_of_def)
  ultimately have q: "all_quiet (wb_scheduler wb')" by (simp add: logs_def)
  then have "sorted_wrt (\<lambda>x y. \<not> conflicts x y) (map snd (filter (\<lambda>r. fst r = ty) (requests sys)))" for ty
    using log by (auto simp: all_quiet_def logs_def sorted_wrt_append dest!: spec [of _ node] spec [of _ ty])
  then show ?thesis using q sorted_wrt_by_type unfolding own_quiet_def by blast
qed

lemma schedule_all_quiet:
  assumes "schedule_all ci flag syss wb = Inr wb'" and "all_quiet (wb_scheduler wb)"
  shows "all_quiet (wb_scheduler wb') \<and> (\<forall>sys \<in> set syss. own_quiet sys)"
  using assms(1)
proof (induction syss arbitrary: wb' rule: rev_induct)
  case Nil
  with assms(2) show ?case by (simp add: schedule_all_def)
next
  case (snoc sys syss)
  then show ?case
    by (fastforce simp: schedule_all_def fold_res_append dest: schedule_system_quiet)
qed

lemma all_quiet_new: "all_quiet (wb_scheduler (world_builder_new gt gs n))"
  by (simp add: all_quiet_def accesses_of_def world_builder_new_def builder_new_def)

subsection \<open>Locks and the guards that are held\<close>

definition maps_distinct :: "('t, 'v, 'l) store \<Rightarrow> bool" where
  "maps_distinct st \<longleftrightarrow>
     (\<forall>ty \<in> snd ` set (st_comps st). \<forall>m \<in> snd ` set (ty_isotope ty). distinct (map fst m))"

text \<open>The locks of a store are those of the guards \<open>T\<close>, which do not contradict each other.\<close>

definition held_ok :: "('l \<Rightarrow> nat) \<Rightarrow> ('l \<Rightarrow> bool) \<Rightarrow> 't guard multiset \<Rightarrow> ('t, 'v, 'l) store \<Rightarrow> bool" where
  "held_ok readers writer T st \<longleftrightarrow>
     (\<forall>k. readers (st_locks st k) = count T (ReadGuard k) \<and> (writer (st_locks st k) \<longleftrightarrow> WriteGuard k \<in># T) \<and>
          count T (WriteGuard k) \<le> 1 \<and> (WriteGuard k \<in># T \<longrightarrow> ReadGuard k \<notin># T)) \<and>
     (\<forall>a c. ((a, c) \<in> st_maps st \<longleftrightarrow> MapGuard a c \<in># T) \<and> count T (MapGuard a c) \<le> 1) \<and> maps_distinct st"

fun free :: "'t guard \<Rightarrow> 't guard multiset \<Rightarrow> bool" where
  "free (ReadGuard k) T = (WriteGuard k \<notin># T)"
| "free (WriteGuard k) T = (WriteGuard k \<notin># T \<and> ReadGuard k \<notin># T)"
| "free (MapGuard a c) T = (MapGuard a c \<notin># T)"

definition guard_of :: "bool \<Rightarrow> 't lock_key \<Rightarrow> 't guard" where
  "guard_of mutable k = (if mutable then WriteGuard k else ReadGuard k)"

text \<open>An operation that starts with the guards \<open>T\<close> and takes guards with property \<open>P\<close>, or fails for other reasons than locks.\<close>

definition takes :: "('l \<Rightarrow> nat) \<Rightarrow> ('l \<Rightarrow> bool) \<Rightarrow> ('t guard \<Rightarrow> bool) \<Rightarrow> 't guard multiset
    \<Rightarrow> ('t guard list \<times> ('t, 'v, 'l) store) res \<Rightarrow> bool" where
  "takes readers writer P T r \<longleftrightarrow>
     (\<forall>p. r = Inl p \<longrightarrow> p \<noteq> LockBusy \<and> p \<noteq> MutexBlocked) \<and>
     (\<forall>gs st'. r = Inr (gs, st') \<longrightarrow> held_ok readers writer (T + mset gs) st' \<and> (\<forall>g \<in> set gs. P g))"

lemma takes_Inl [simp]: "takes readers writer P T (Inl p) \<longleftrightarrow> p \<noteq> LockBusy \<and> p \<noteq> MutexBlocked"
  by (auto simp: takes_def)

lemma takes_Inr [simp]:
  "takes readers writer P T (Inr (gs, st')) \<longleftrightarrow> held_ok readers writer (T + mset gs) st' \<and> (\<forall>g \<in> set gs. P g)"
  by (auto simp: takes_def)

lemma takes_mono: "takes readers writer P T r \<Longrightarrow> (\<And>g. P g \<Longrightarrow> Q g) \<Longrightarrow> takes readers writer Q T r"
  by (auto simp: takes_def)

lemma takes_no_wait: "takes readers writer P T r \<Longrightarrow> r \<notin> {Inl LockBusy, Inl MutexBlocked}"
  by (auto simp: takes_def)

lemma takes_bind:
  assumes "takes readers writer P T r"
    and "\<And>gs st'. r = Inr (gs, st') \<Longrightarrow> held_ok readers writer (T + mset gs) st' \<Longrightarrow>
      takes readers writer P (T + mset gs) (f st')"
  shows "takes readers writer P T (bind_res r (\<lambda>(gs, st1). bind_res (f st1) (\<lambda>(gs', st2). Inr (gs @ gs', st2))))"
proof (cases r)
  case (Inr q)
  obtain gs st1 where q: "q = (gs, st1)" by fastforce
  show ?thesis
    using assms Inr q by (cases "f st1") (auto simp: takes_def ac_simps)
qed (use assms in simp)

lemma lock_takes:
  assumes ops: "rw_lock_ok ops readers writer" and ok: "held_ok readers writer T st"
  shows "free (ReadGuard k) T \<Longrightarrow> takes readers writer (\<lambda>g. g = ReadGuard k) T (lock_read ops k st)"
    and "free (WriteGuard k) T \<Longrightarrow> takes readers writer (\<lambda>g. g = WriteGuard k) T (lock_write ops k st)"
proof -
  let ?l = "st_locks st k"
  have view: "readers ?l = count T (ReadGuard k)" "writer ?l \<longleftrightarrow> WriteGuard k \<in># T" using ok by (auto simp: held_ok_def)
  show "takes readers writer (\<lambda>g. g = ReadGuard k) T (lock_read ops k st)" if "free (ReadGuard k) T"
  proof -
    from that view obtain l' where "rw_try_read ops ?l = Some l'" "readers l' = readers ?l + 1" "\<not> writer l'"
      using ops unfolding rw_lock_ok_def by (metis free.simps(1))
    with that view ok show ?thesis by (auto simp: lock_read_def held_ok_def maps_distinct_def)
  qed
  show "takes readers writer (\<lambda>g. g = WriteGuard k) T (lock_write ops k st)" if "free (WriteGuard k) T"
  proof -
    from that view have "\<not> (writer ?l \<or> readers ?l > 0)" by (simp add: not_in_iff)
    then obtain l' where "rw_try_write ops ?l = Some l'" "readers l' = 0" "writer l'"
      using ops unfolding rw_lock_ok_def by metis
    with that view ok show ?thesis by (auto simp: lock_write_def held_ok_def maps_distinct_def not_in_iff)
  qed
qed

lemma own_storage_takes:
  assumes "rw_lock_ok ops readers writer" and "held_ok readers writer T st" and "free (guard_of m (IsotopeLock a c d)) T"
  shows "takes readers writer (\<lambda>g. g = guard_of m (IsotopeLock a c d)) T (own_storage ops m a c d st)"
  using lock_takes [OF assms(1,2)] assms(3) by (auto simp: own_storage_def guard_of_def)

lemma drop_guard_ok:
  assumes ops: "rw_lock_ok ops readers writer" and ok: "held_ok readers writer (add_mset g T) st"
  shows "held_ok readers writer T (drop_guard ops g st)"
proof (cases g)
  case (ReadGuard k)
  let ?l = "st_locks st k"
  have view: "readers ?l = count T (ReadGuard k) + 1" "\<not> writer ?l" using ok ReadGuard by (auto simp: held_ok_def)
  then have "readers (rw_unlock_read ops ?l) = count T (ReadGuard k)" "\<not> writer (rw_unlock_read ops ?l)"
    using ops unfolding rw_lock_ok_def by (metis add_diff_cancel_right' zero_less_Suc add.commute plus_1_eq_Suc)+
  with ok ReadGuard view show ?thesis by (auto simp: held_ok_def maps_distinct_def split: if_splits)
next
  case (WriteGuard k)
  let ?l = "st_locks st k"
  have view: "readers ?l = 0" "writer ?l" "WriteGuard k \<notin># T" "ReadGuard k \<notin># T"
    using ok WriteGuard by (auto simp: held_ok_def not_in_iff)
  then have "readers (rw_unlock_write ops ?l) = 0" "\<not> writer (rw_unlock_write ops ?l)"
    using ops unfolding rw_lock_ok_def by metis+
  with ok WriteGuard view show ?thesis by (auto simp: held_ok_def maps_distinct_def not_in_iff split: if_splits)
next
  case (MapGuard a c)
  have "count T (MapGuard b d) \<le> 1 \<and> ((b, d) \<in> st_maps st - {(a, c)} \<longleftrightarrow> MapGuard b d \<in># T)" for b d
  proof -
    have "count (add_mset (MapGuard a c) T) (MapGuard b d) \<le> 1"
      "(b, d) \<in> st_maps st \<longleftrightarrow> MapGuard b d \<in># add_mset (MapGuard a c) T"
      using ok MapGuard by (simp_all add: held_ok_def)
    then show ?thesis by (cases "(b, d) = (a, c)") (auto simp: not_in_iff split: if_splits)
  qed
  with ok MapGuard show ?thesis by (simp add: held_ok_def maps_distinct_def)
qed

lemma drop_guards_ok:
  assumes ops: "rw_lock_ok ops readers writer" and "held_ok readers writer (T + mset gs) st"
  shows "held_ok readers writer T (fold (drop_guard ops) gs st)"
  using assms(2)
proof (induction gs arbitrary: st)
  case (Cons g gs)
  then show ?case using drop_guard_ok [OF ops, of g "T + mset gs" st] by simp
qed simp

subsection \<open>What a parameter may lock\<close>

fun permits :: "'t arg \<Rightarrow> 't guard \<Rightarrow> bool" where
  "permits (GlobalArg _ g m) x \<longleftrightarrow> x = guard_of m (GlobalLock g)"
| "permits (SimpleArg a c m) x \<longleftrightarrow> x = guard_of m (SimpleLock a c)"
| "permits (IsotopeArg a c ds m) x \<longleftrightarrow>
     (\<exists>d. (ds = None \<or> d \<in> set (the ds)) \<and> x = guard_of m (IsotopeLock a c d)) \<or> x = MapGuard a c \<and> m \<and> ds = None"

definition apart :: "'t arg \<Rightarrow> 't arg \<Rightarrow> bool" where
  "apart A B \<longleftrightarrow> fst (arg_request A) = fst (arg_request B) \<longrightarrow> \<not> conflicts (snd (arg_request A)) (snd (arg_request B))"

lemma apart_sym: "apart A B \<longleftrightarrow> apart B A"
  by (auto simp: apart_def conflicts_sym)

text \<open>Guards that exclude each other belong to parameters that conflict.\<close>

fun key_request :: "'t lock_key \<Rightarrow> 't resource_type" where
  "key_request (GlobalLock g) = GlobalRes g"
| "key_request (SimpleLock a c) = SimpleRes a c"
| "key_request (IsotopeLock a c d) = IsotopeRes a c"

fun key_discrim :: "'t lock_key \<Rightarrow> nat" where
  "key_discrim (IsotopeLock a c d) = d"
| "key_discrim _ = 0"

lemma permits_request:
  assumes "permits A (guard_of m k)"
  shows "fst (arg_request A) = key_request k" and "ra_mutable (snd (arg_request A)) = m"
    and "reaches (snd (arg_request A)) (key_discrim k)"
  using assms
  by (cases A; auto simp: guard_of_def access_new_def access_with_discrim_def reaches_def split: if_splits option.splits)+

lemma permits_map:
  assumes "permits A (MapGuard a c)"
  shows "arg_request A = (IsotopeRes a c, access_with_discrim True None)"
  using assms by (cases A) (auto simp: guard_of_def split: if_splits)

lemma apart_guards:
  assumes "permits A (guard_of m k)" and "permits B (guard_of m' k)" and "apart A B"
  shows "\<not> m \<and> \<not> m'"
  using no_conflict_no_race [of "snd (arg_request A)" "snd (arg_request B)" "key_discrim k"]
    permits_request [OF assms(1)] permits_request [OF assms(2)] assms(3) by (auto simp: apart_def)

lemma permits_free:
  assumes "permits A (guard_of m k)" and "\<forall>y. y \<in># T \<longrightarrow> (\<exists>B. permits B y \<and> apart A B)"
  shows "free (guard_of m k) T"
proof -
  have "\<not> m \<and> \<not> m'" if y: "guard_of m' k \<in># T" for m'
  proof -
    obtain B where "permits B (guard_of m' k)" "apart A B" using assms(2) y by blast
    then show ?thesis by (rule apart_guards [OF assms(1)])
  qed
  from this [of True] this [of False] show ?thesis by (auto simp: guard_of_def)
qed

lemma permits_map_free:
  assumes "fst (arg_request A) = IsotopeRes a c" and "\<forall>y. y \<in># T \<longrightarrow> (\<exists>B. permits B y \<and> apart A B)"
  shows "MapGuard a c \<notin># T"
proof
  assume "MapGuard a c \<in># T"
  with assms(2) obtain B where B: "permits B (MapGuard a c)" "apart A B" by blast
  have "conflicts (snd (arg_request A)) (access_with_discrim True None)"
    by (simp add: conflicts_iff overlapping_def access_with_discrim_def split: option.split)
  with permits_map [OF B(1)] B(2) assms(1) show False by (simp add: apart_def)
qed

subsection \<open>Isotope accessors\<close>

lemma own_all_takes:
  assumes ops: "rw_lock_ok ops readers writer" and "held_ok readers writer T st"
    and "\<forall>d \<in> set ds. free (guard_of m (IsotopeLock a c d)) T" and "m \<longrightarrow> distinct ds"
  shows "takes readers writer (\<lambda>g. \<exists>d \<in> set ds. g = guard_of m (IsotopeLock a c d)) T (own_all ops m a c ds st)"
  using assms(2-)
proof (induction ds arbitrary: T st)
  case (Cons d ds)
  have first: "takes readers writer (\<lambda>g. g = guard_of m (IsotopeLock a c d)) T (own_storage ops m a c d st)"
    using Cons.prems by (intro own_storage_takes [OF ops]) auto
  show ?case
    unfolding own_all.simps
  proof (rule takes_bind)
    show "takes readers writer (\<lambda>g. \<exists>d \<in> set (d # ds). g = guard_of m (IsotopeLock a c d)) T (own_storage ops m a c d st)"
      by (rule takes_mono [OF first]) auto
    fix gs st'
    assume r: "own_storage ops m a c d st = Inr (gs, st')" and ok: "held_ok readers writer (T + mset gs) st'"
    have gs: "\<forall>g \<in> set gs. g = guard_of m (IsotopeLock a c d)" using first r by simp
    have "\<forall>d' \<in> set ds. free (guard_of m (IsotopeLock a c d')) (T + mset gs)"
      using Cons.prems gs by (auto simp: guard_of_def)
    from Cons.IH [OF ok this] Cons.prems(3)
    show "takes readers writer (\<lambda>g. \<exists>d \<in> set (d # ds). g = guard_of m (IsotopeLock a c d)) (T + mset gs) (own_all ops m a c ds st')"
      by (auto intro: takes_mono)
  qed
qed simp

lemma storage_map_distinct: "maps_distinct st \<Longrightarrow> storage_map a c st = Inr m \<Longrightarrow> distinct (map fst m)"
  by (force simp: maps_distinct_def storage_map_def find_archetype_def dest!: map_of_SomeD)

lemma get_or_create_keys: "get_or_create strategy d es m = Inr m' \<Longrightarrow> distinct (map fst m) \<Longrightarrow> distinct (map fst m')"
  by (auto simp: get_or_create_def map_of_eq_None_iff split: option.splits init_strategy.splits)

lemma put_map_ok:
  "held_ok readers writer T st \<Longrightarrow> distinct (map fst m) \<Longrightarrow> held_ok readers writer T (put_map a c m st)"
proof -
  assume ok: "held_ok readers writer T st" and m: "distinct (map fst m)"
  have "maps_distinct st" using ok by (simp add: held_ok_def)
  then have "maps_distinct (put_map a c m st)"
    using m unfolding maps_distinct_def put_map_def by (fastforce split: if_splits)
  with ok show ?thesis by (simp add: held_ok_def put_map_def)
qed

lemma storage_map_Inl: "storage_map a c st = Inl p \<Longrightarrow> p = UnknownArchetype \<or> p = UnusedResource"
  by (auto simp: storage_map_def find_archetype_def res_simps)

lemma create_and_own_takes:
  assumes ops: "rw_lock_ok ops readers writer" and ok: "held_ok readers writer T st"
    and "free (guard_of m (IsotopeLock a c d)) T"
  shows "takes readers writer (\<lambda>g. g = guard_of m (IsotopeLock a c d)) T
    (create_and_own ops strategy (iter_allocated_chunks sn) m a c d st)"
proof (cases "storage_map a c st")
  case (Inr mp)
  show ?thesis
  proof (cases "get_or_create strategy d (iter_allocated_chunks sn) mp")
    case (Inl p)
    with Inr get_or_create_Inl [OF Inl] show ?thesis by (auto simp: create_and_own_def)
  next
    case (Inr mp')
    have "distinct (map fst mp)" using ok \<open>storage_map a c st = Inr mp\<close> by (auto simp: held_ok_def intro: storage_map_distinct)
    from own_storage_takes [OF ops put_map_ok [OF ok get_or_create_keys [OF Inr this]] assms(3)]
    show ?thesis using Inr \<open>storage_map a c st = Inr mp\<close> by (simp add: create_and_own_def)
  qed
qed (use storage_map_Inl in \<open>fastforce simp: create_and_own_def\<close>)

lemma own_partial_takes:
  assumes ops: "rw_lock_ok ops readers writer" and "held_ok readers writer T st"
    and "\<forall>d \<in> set ds. free (guard_of m (IsotopeLock a c d)) T" and "m \<longrightarrow> distinct ds"
  shows "takes readers writer (\<lambda>g. \<exists>d \<in> set ds. g = guard_of m (IsotopeLock a c d)) T
    (own_partial ops strategy (iter_allocated_chunks sn) m a c ds st)"
  using assms(2-)
proof (induction ds arbitrary: T st)
  case (Cons d ds)
  let ?create = "create_and_own ops strategy (iter_allocated_chunks sn) m a c d st"
  have first: "takes readers writer (\<lambda>g. g = guard_of m (IsotopeLock a c d)) T ?create"
    using Cons.prems by (intro create_and_own_takes [OF ops]) auto
  show ?case
    unfolding own_partial.simps
  proof (rule takes_bind)
    show "takes readers writer (\<lambda>g. \<exists>d \<in> set (d # ds). g = guard_of m (IsotopeLock a c d)) T ?create"
      by (rule takes_mono [OF first]) auto
    fix gs st'
    assume r: "?create = Inr (gs, st')" and ok: "held_ok readers writer (T + mset gs) st'"
    have gs: "\<forall>g \<in> set gs. g = guard_of m (IsotopeLock a c d)" using first r by simp
    have "\<forall>d' \<in> set ds. free (guard_of m (IsotopeLock a c d')) (T + mset gs)"
      using Cons.prems gs by (auto simp: guard_of_def)
    from Cons.IH [OF ok this] Cons.prems(3)
    show "takes readers writer (\<lambda>g. \<exists>d \<in> set (d # ds). g = guard_of m (IsotopeLock a c d)) (T + mset gs)
        (own_partial ops strategy (iter_allocated_chunks sn) m a c ds st')"
      by (auto intro: takes_mono)
  qed
qed simp

text \<open>A parameter that names a discriminant twice for writing would lock it twice.\<close>

fun arg_ok :: "'t arg \<Rightarrow> bool" where
  "arg_ok (IsotopeArg a c (Some ds) True) = distinct ds"
| "arg_ok _ = True"

lemma lock_of_takes:
  assumes "rw_lock_ok ops readers writer" and "held_ok readers writer T st" and "free (guard_of m k) T" and "P (guard_of m k)"
  shows "takes readers writer P T (if m then lock_write ops k st else lock_read ops k st)"
proof (cases m)
  case True
  show ?thesis using takes_mono [OF lock_takes(2) [OF assms(1,2)], of k P] assms(3,4) True by (simp add: guard_of_def)
next
  case False
  show ?thesis using takes_mono [OF lock_takes(1) [OF assms(1,2)], of k P] assms(3,4) False by (simp add: guard_of_def)
qed

lemma globals_takes:
  assumes "rw_lock_ok ops readers writer" and "held_ok readers writer T st" and "free (guard_of m (GlobalLock g)) T"
  shows "takes readers writer (permits (GlobalArg False g m)) T (acquire_arg ops ci snap (GlobalArg False g m) st)"
proof -
  have "acquire_arg ops ci snap (GlobalArg False g m) st =
      (if g \<in> st_sync st then (if m then lock_write ops (GlobalLock g) st else lock_read ops (GlobalLock g) st) else Inl UnusedResource)"
    by (cases m) (simp_all add: globals_read_def globals_write_def)
  with lock_of_takes [OF assms, of "permits (GlobalArg False g m)"] show ?thesis by simp
qed

lemma simple_takes:
  assumes "rw_lock_ok ops readers writer" and "held_ok readers writer T st" and "free (guard_of m (SimpleLock a c)) T"
  shows "takes readers writer (permits (SimpleArg a c m)) T (acquire_arg ops ci snap (SimpleArg a c m) st)"
proof -
  have err: "get_simple_storage a c st = Inl p \<Longrightarrow> p = UnknownArchetype \<or> p = UnusedResource" for p
    by (auto simp: get_simple_storage_def find_archetype_def res_simps)
  have "acquire_arg ops ci snap (SimpleArg a c m) st =
      bind_res (get_simple_storage a c st) (\<lambda>_. if m then lock_write ops (SimpleLock a c) st else lock_read ops (SimpleLock a c) st)"
    by (cases m; cases "find_archetype a st")
      (simp_all add: read_simple_storage_def write_simple_storage_def get_simple_storage_def)
  with lock_of_takes [OF assms, of "permits (SimpleArg a c m)"] show ?thesis
    using err by (cases "get_simple_storage a c st") auto
qed

lemma isotope_takes:
  assumes ops: "rw_lock_ok ops readers writer" and ok: "held_ok readers writer T st" and A: "arg_ok (IsotopeArg a c ds m)"
    and all: "\<forall>y. y \<in># T \<longrightarrow> (\<exists>B. permits B y \<and> apart (IsotopeArg a c ds m) B)"
  shows "takes readers writer (permits (IsotopeArg a c ds m)) T (acquire_arg ops ci snap (IsotopeArg a c ds m) st)"
proof -
  let ?A = "IsotopeArg a c ds m"
  have free: "free (guard_of m (IsotopeLock a c d)) T" if "ds = None \<or> d \<in> set (the ds)" for d
    using that by (intro permits_free [OF _ all]) auto
  have map: "MapGuard a c \<notin># T" by (rule permits_map_free [OF _ all]) simp
  then have unlocked: "(a, c) \<notin> st_maps st" using ok by (simp add: held_ok_def)
  show ?thesis
  proof (cases "storage_map a c st")
    case (Inl p)
    then show ?thesis
      using storage_map_Inl [OF Inl]
      by (cases ds; cases m) (auto simp: read_full_isotope_storage_def write_full_isotope_storage_def partial_isotope_storage_def)
  next
    case (Inr mp)
    have dist: "distinct (map fst mp)" using ok Inr by (auto simp: held_ok_def intro: storage_map_distinct)
    show ?thesis
    proof (cases ds)
      case (Some l)
      have "m \<longrightarrow> distinct l" using A Some by (cases m) auto
      then have "takes readers writer (\<lambda>g. \<exists>d \<in> set l. g = guard_of m (IsotopeLock a c d)) T
          (own_partial ops (ci_init (ci c)) (iter_allocated_chunks (snap a)) m a c l st)"
        using free Some by (intro own_partial_takes [OF ops ok]) auto
      then have "takes readers writer (permits ?A) T
          (own_partial ops (ci_init (ci c)) (iter_allocated_chunks (snap a)) m a c l st)"
        by (rule takes_mono) (auto simp: Some)
      with Some Inr unlocked show ?thesis
        by (simp add: partial_isotope_storage_def map_lock_def assert_res_def)
    next
      case None
      show ?thesis
      proof (cases m)
        case False
        have "takes readers writer (\<lambda>g. \<exists>d \<in> set (map fst mp). g = guard_of m (IsotopeLock a c d)) T (own_all ops m a c (map fst mp) st)"
          using free None False by (intro own_all_takes [OF ops ok]) auto
        then have "takes readers writer (permits ?A) T (own_all ops m a c (map fst mp) st)"
          by (rule takes_mono) (auto simp: None)
        with None False Inr unlocked show ?thesis
          by (simp add: read_full_isotope_storage_def map_lock_def assert_res_def)
      next
        case True
        let ?st = "st\<lparr>st_maps := insert (a, c) (st_maps st)\<rparr>" and ?T = "add_mset (MapGuard a c) T"
        have ok': "held_ok readers writer ?T ?st"
          using ok map by (auto simp: held_ok_def maps_distinct_def not_in_iff)
        have "takes readers writer (\<lambda>g. \<exists>d \<in> set (map fst mp). g = guard_of m (IsotopeLock a c d)) ?T (own_all ops m a c (map fst mp) ?st)"
          using free None True dist by (intro own_all_takes [OF ops ok']) (auto simp: guard_of_def)
        then have "takes readers writer (permits ?A) ?T (own_all ops m a c (map fst mp) ?st)"
          by (rule takes_mono) (auto simp: None)
        with None True Inr unlocked show ?thesis
          by (cases "own_all ops True a c (map fst mp) ?st")
            (auto simp: write_full_isotope_storage_def assert_res_def)
      qed
    qed
  qed
qed

lemma acquire_takes:
  assumes ops: "rw_lock_ok ops readers writer" and ok: "held_ok readers writer T st" and A: "arg_ok A"
    and all: "\<forall>y. y \<in># T \<longrightarrow> (\<exists>B. permits B y \<and> apart A B)"
  shows "takes readers writer (permits A) T (acquire_arg ops ci snap A st)"
proof (cases A)
  case (GlobalArg tl g m)
  show ?thesis
  proof (cases tl)
    case True
    with GlobalArg ok show ?thesis by (simp add: unsync_get_def)
  next
    case False
    have "free (guard_of m (GlobalLock g)) T" by (rule permits_free [OF _ all]) (simp add: GlobalArg)
    with globals_takes [OF ops ok this] False GlobalArg show ?thesis by simp
  qed
next
  case (SimpleArg a c m)
  have "free (guard_of m (SimpleLock a c)) T" by (rule permits_free [OF _ all]) (simp add: SimpleArg)
  with simple_takes [OF ops ok this] SimpleArg show ?thesis by simp
next
  case (IsotopeArg a c ds m)
  with isotope_takes [OF ops ok] A all show ?thesis by simp
qed

text \<open>A new discriminant of an accessor for all of them: \<open>held\<close> are the guards of its system.\<close>

lemma lazy_takes:
  assumes ops: "rw_lock_ok ops readers writer" and ok: "held_ok readers writer T st"
    and all: "\<forall>y. y \<in># T \<longrightarrow> (\<exists>B. permits B y \<and> apart (IsotopeArg a c None m) B) \<or> y \<in> set held \<and> permits (IsotopeArg a c None m) y"
  shows "takes readers writer (permits (IsotopeArg a c None m)) T
    (full_get_storage ops strategy (iter_allocated_chunks sn) m a c d held st)"
proof (cases "guard_of m (IsotopeLock a c d) \<in> set held")
  case True
  with ok show ?thesis by (auto simp: full_get_storage_def guard_of_def)
next
  case False
  have "\<not> m \<and> \<not> m'" if y: "guard_of m' (IsotopeLock a c d) \<in># T" for m'
  proof -
    from all y consider B where "permits B (guard_of m' (IsotopeLock a c d))" "apart (IsotopeArg a c None m) B"
      | "guard_of m' (IsotopeLock a c d) \<in> set held" "permits (IsotopeArg a c None m) (guard_of m' (IsotopeLock a c d))" by blast
    then show ?thesis
    proof cases
      case 1
      then show ?thesis using apart_guards [of "IsotopeArg a c None m" m "IsotopeLock a c d" B m'] by auto
    next
      case 2
      with False show ?thesis by (auto simp: guard_of_def split: if_splits)
    qed
  qed
  from this [of True] this [of False] have free: "free (guard_of m (IsotopeLock a c d)) T" by (auto simp: guard_of_def)
  have take: "takes readers writer (permits (IsotopeArg a c None m)) T
      (create_and_own ops strategy (iter_allocated_chunks sn) m a c d st)"
    by (rule takes_mono [OF create_and_own_takes [OF ops ok free]]) auto
  have "MapGuard a c \<notin># T" if "\<not> m"
  proof
    assume "MapGuard a c \<in># T"
    with all that obtain B where "permits B (MapGuard a c)" "apart (IsotopeArg a c None m) B"
      by (auto simp: guard_of_def)
    then show False
      using permits_map_free [of "IsotopeArg a c None m" a c "{#MapGuard a c#}"] by auto
  qed
  then have "m \<or> (a, c) \<notin> st_maps st" using ok by (auto simp: held_ok_def)
  with take False show ?thesis
    by (cases m) (auto simp: full_get_storage_def guard_of_def map_lock_def assert_res_def)
qed

end
