(* ===== verification/Access_Run.thy ===== *)
theory Access_Run
  imports Access_Laws
begin

section \<open>Cycles with locks\<close>

text \<open>
  The planner and the locks as one transition system: systems are stolen, take the locks of their
  parameters, and release them when they return, in any interleaving. The invariant ties the locks to
  the guards that are held and the guards to the parameters of running systems.
\<close>

subsection \<open>Running systems and their guards\<close>

text \<open>
  A cycle with locks: the planner, the store, the guards each system holds, with the parameter that
  took them, and how many of its parameters it has obtained. A system obtains its parameters one by one after it was stolen, may ask
  its accessors for new discriminants, and drops its guards when it returns; the steps of different
  systems interleave in any order.
\<close>

record ('t, 'v, 'l) run_state =
  rs_planner :: planner
  rs_store :: "('t, 'v, 'l) store"
  rs_held :: "nat \<Rightarrow> (nat \<times> 't guard) list"
  rs_done :: "nat \<Rightarrow> nat"

text \<open>The guards of one parameter: what its accessor knows.\<close>

definition own_guards :: "nat \<Rightarrow> (nat \<times> 't guard) list \<Rightarrow> 't guard list" where
  "own_guards j h = map snd (filter (\<lambda>x. fst x = j) h)"

inductive access_reach :: "'l rw_ops \<Rightarrow> ('t \<Rightarrow> ('t, 'v) comp_info) \<Rightarrow> ('t \<Rightarrow> 'w::len raw snapshot) \<Rightarrow> 'p topology
    \<Rightarrow> ('t, 'u, 'g) system list \<Rightarrow> (nat \<Rightarrow> 't arg list) \<Rightarrow> ('t, 'v, 'l) store \<Rightarrow> ('t, 'v, 'l) run_state \<Rightarrow> bool"
  for ops ci snap t syss args st0 where
  init: "access_reach ops ci snap t syss args st0
     \<lparr>rs_planner = initial_planner t, rs_store = st0, rs_held = (\<lambda>_. []), rs_done = (\<lambda>_. 0)\<rparr>"
| steal: "access_reach ops ci snap t syss args st0 r \<Longrightarrow>
     steal_send t (rs_planner r) = Inr (res, p') \<or> steal_unsend t (rs_planner r) = Inr (res, p') \<Longrightarrow>
     access_reach ops ci snap t syss args st0 (r\<lparr>rs_planner := p'\<rparr>)"
| obtain_arg: "access_reach ops ci snap t syss args st0 r \<Longrightarrow> i < length syss \<Longrightarrow> node_at syss i \<in> running (rs_planner r) \<Longrightarrow>
     rs_done r i < length (args i) \<Longrightarrow> acquire_arg ops ci snap (args i ! rs_done r i) (rs_store r) = Inr (gs, st') \<Longrightarrow>
     access_reach ops ci snap t syss args st0
       (r\<lparr>rs_store := st', rs_held := (rs_held r)(i := rs_held r i @ map (Pair (rs_done r i)) gs),
          rs_done := (rs_done r)(i := rs_done r i + 1)\<rparr>)"
| new_discrim: "access_reach ops ci snap t syss args st0 r \<Longrightarrow> i < length syss \<Longrightarrow> node_at syss i \<in> running (rs_planner r) \<Longrightarrow>
     j < rs_done r i \<Longrightarrow> args i ! j = IsotopeArg a c None m \<Longrightarrow>
     full_get_storage ops (ci_init (ci c)) (iter_allocated_chunks (snap a)) m a c d (own_guards j (rs_held r i)) (rs_store r) = Inr (gs, st') \<Longrightarrow>
     access_reach ops ci snap t syss args st0
       (r\<lparr>rs_store := st', rs_held := (rs_held r)(i := rs_held r i @ map (Pair j) gs)\<rparr>)"
| return: "access_reach ops ci snap t syss args st0 r \<Longrightarrow> i < length syss \<Longrightarrow> node_at syss i \<in> running (rs_planner r) \<Longrightarrow>
     complete t (node_at syss i) (rs_planner r) = Inr p' \<Longrightarrow>
     access_reach ops ci snap t syss args st0
       (r\<lparr>rs_planner := p', rs_store := fold (drop_guard ops) (map snd (rs_held r i)) (rs_store r),
          rs_held := (rs_held r)(i := []), rs_done := (rs_done r)(i := 0)\<rparr>)"

definition all_held :: "nat \<Rightarrow> (nat \<Rightarrow> (nat \<times> 't guard) list) \<Rightarrow> 't guard multiset" where
  "all_held n h = (\<Sum>k<n. mset (map snd (h k)))"

lemma all_held_iff: "y \<in># all_held n h \<longleftrightarrow> (\<exists>k<n. y \<in> snd ` set (h k))"
  unfolding all_held_def by (induction n) (auto simp: less_Suc_eq)

lemma all_held_cong: "(\<And>k. k < n \<Longrightarrow> h k = h' k) \<Longrightarrow> all_held n h = all_held n h'"
  unfolding all_held_def by (intro sum.cong) auto

lemma all_held_append:
  assumes "i < n"
  shows "all_held n (h(i := h i @ gs)) = all_held n h + mset (map snd gs)"
proof -
  have "all_held n g = mset (map snd (g i)) + (\<Sum>k \<in> {..<n} - {i}. mset (map snd (g k)))" for g :: "nat \<Rightarrow> (nat \<times> 'a guard) list"
    unfolding all_held_def using assms by (intro sum.remove) auto
  from this [of "h(i := h i @ gs)"] this [of h] show ?thesis
    by (simp add: ac_simps)
qed

lemma all_held_drop:
  assumes "i < n"
  shows "all_held n h = all_held n (h(i := [])) + mset (map snd (h i))"
  using all_held_append [OF assms, of "h(i := [])" "h i"] by simp

lemma sorted_wrt_mset:
  assumes "symp R" and "sorted_wrt R xs" and "mset ys = mset xs"
  shows "sorted_wrt R ys"
  using assms(2,3)
proof (induction xs arbitrary: ys)
  case (Cons x xs)
  then have "x \<in> set ys" by (metis list.set_intros(1) set_mset_mset)
  then obtain as bs where ys: "ys = as @ x # bs" by (meson split_list)
  with Cons.prems(2) have m: "mset (as @ bs) = mset xs" by simp
  have "sorted_wrt R (as @ bs)" using Cons.IH [OF _ m] Cons.prems(1) by simp
  moreover have "\<forall>y \<in> set (as @ bs). R x y" using Cons.prems(1) m by (metis list.simps(15) insertCI set_mset_mset sorted_wrt.simps(2))
  ultimately show ?case using assms(1) by (auto simp: ys sorted_wrt_append dest: sympD)
qed simp

text \<open>The parameters of scheduled systems: apart within a system, and between running systems.\<close>

definition args_apart :: "('t, 'u, 'g) system list \<Rightarrow> (nat \<Rightarrow> 't arg list) \<Rightarrow> planner \<Rightarrow> bool" where
  "args_apart syss args p \<longleftrightarrow>
     (\<forall>i < length syss. \<forall>k < length syss. \<forall>j < length (args i). \<forall>l < length (args k).
        node_at syss i \<in> running p \<and> node_at syss k \<in> running p \<and> (i, j) \<noteq> (k, l) \<longrightarrow> apart (args i ! j) (args k ! l))"

lemma scheduled_args_apart:
  assumes sch: "schedule_all ci flag syss (world_builder_new gt gs n) = Inr wb"
    and ho: "hash_order_ok ho" and b: "build ho (wb_scheduler wb) = Some (Inr s)"
    and args: "\<forall>i < length syss. mset (map arg_request (args i)) = mset (requests (syss ! i))"
    and inv: "planner_inv (sched_topology s) p"
  shows "args_apart syss args p"
  unfolding args_apart_def
proof (intro allI impI)
  fix i k j l
  assume i: "i < length syss" and k: "k < length syss" and j: "j < length (args i)" and l: "l < length (args k)"
    and run: "node_at syss i \<in> running p \<and> node_at syss k \<in> running p \<and> (i, j) \<noteq> (k, l)"
  note w = world_schedule [OF sch ho b]
  have req: "arg_request (args i ! j) \<in> set (requests (syss ! i))" if "i < length syss" "j < length (args i)" for i j
  proof -
    have "arg_request (args i ! j) \<in> set (map arg_request (args i))" using that by simp
    then show ?thesis using args that(1) by (metis set_mset_mset)
  qed
  show "apart (args i ! j) (args k ! l)"
  proof (cases "i = k")
    case True
    let ?R = "\<lambda>r s. fst r = fst s \<longrightarrow> \<not> conflicts (snd r) (snd s)"
    have "own_quiet (syss ! i)" using schedule_all_quiet [OF sch all_quiet_new] i by simp
    then have own: "sorted_wrt ?R (requests (syss ! i))" by (simp add: own_quiet_def)
    have "symp ?R" unfolding symp_def using conflicts_sym by metis
    from sorted_wrt_mset [OF this own] args i have "sorted_wrt ?R (map arg_request (args i))" by blast
    then have quiet: "sorted_wrt apart (args i)" by (simp add: sorted_wrt_map apart_def [abs_def])
    from run True have "j < l \<or> l < j" by auto
    then show ?thesis
    proof
      assume "j < l"
      with quiet l True show ?thesis by (simp add: sorted_wrt_iff_nth_less)
    next
      assume "l < j"
      with quiet j True have "apart (args k ! l) (args i ! j)" by (simp add: sorted_wrt_iff_nth_less)
      then show ?thesis by (rule apart_sym [THEN iffD1])
    qed
  next
    case False
    show ?thesis
      unfolding apart_def
    proof
      assume same: "fst (arg_request (args i ! j)) = fst (arg_request (args k ! l))"
      show "\<not> conflicts (snd (arg_request (args i ! j))) (snd (arg_request (args k ! l)))"
      proof
        assume c: "conflicts (snd (arg_request (args i ! j))) (snd (arg_request (args k ! l)))"
        have "(fst (arg_request (args i ! j)), snd (arg_request (args i ! j))) \<in> set (requests (syss ! i))"
          "(fst (arg_request (args i ! j)), snd (arg_request (args k ! l))) \<in> set (requests (syss ! k))"
          using req [OF i j] req [OF k l] same by (metis prod.collapse)+
        from requests_excluded [OF w(1,3) i k False this c] run
          built.running_independent [of ho "wb_scheduler wb" p "node_at syss i" "node_at syss k"] w(2) inv
        show False by auto
      qed
    qed
  qed
qed

subsection \<open>The invariant of a cycle\<close>

definition run_inv :: "('l \<Rightarrow> nat) \<Rightarrow> ('l \<Rightarrow> bool) \<Rightarrow> 'p topology \<Rightarrow> ('t, 'u, 'g) system list \<Rightarrow> (nat \<Rightarrow> 't arg list)
    \<Rightarrow> ('t, 'v, 'l) run_state \<Rightarrow> bool" where
  "run_inv readers writer t syss args r \<longleftrightarrow>
     planner_reach t (rs_planner r) \<and> held_ok readers writer (all_held (length syss) (rs_held r)) (rs_store r) \<and>
     (\<forall>i < length syss. rs_done r i \<le> length (args i) \<and>
        (\<forall>(j, g) \<in> set (rs_held r i). j < rs_done r i \<and> permits (args i ! j) g) \<and>
        (rs_done r i > 0 \<longrightarrow> node_at syss i \<in> running (rs_planner r)))"

text \<open>Whatever a running system asks for next, other guards belong to parameters that are apart from it.\<close>

lemma run_others:
  assumes inv: "run_inv readers writer t syss args r" and ap: "args_apart syss args (rs_planner r)"
    and i: "i < length syss" "node_at syss i \<in> running (rs_planner r)" and j: "j < length (args i)"
    and y: "y \<in># all_held (length syss) (rs_held r)"
  shows "(\<exists>B. permits B y \<and> apart (args i ! j) B) \<or>
    y \<in> set (own_guards j (rs_held r i)) \<and> permits (args i ! j) y"
proof -
  from y obtain k l where k: "k < length syss" "(l, y) \<in> set (rs_held r k)" by (auto simp: all_held_iff)
  with inv have l: "l < rs_done r k" "permits (args k ! l) y" "rs_done r k \<le> length (args k)"
    "node_at syss k \<in> running (rs_planner r)" unfolding run_inv_def by fastforce+
  show ?thesis
  proof (cases "(i, j) = (k, l)")
    case True
    with k l show ?thesis by (force simp: own_guards_def)
  next
    case False
    with ap i j k l have "apart (args i ! j) (args k ! l)" unfolding args_apart_def by (meson less_le_trans)
    with l show ?thesis by blast
  qed
qed

lemma run_acquire:
  assumes ops: "rw_lock_ok ops readers writer" and ok: "\<forall>i < length syss. list_all arg_ok (args i)"
    and inv: "run_inv readers writer t syss args r" and ap: "args_apart syss args (rs_planner r)"
    and i: "i < length syss" "node_at syss i \<in> running (rs_planner r)"
  shows "rs_done r i < length (args i) \<Longrightarrow>
      takes readers writer (permits (args i ! rs_done r i)) (all_held (length syss) (rs_held r))
        (acquire_arg ops ci snap (args i ! rs_done r i) (rs_store r))"
    and "j < rs_done r i \<Longrightarrow> args i ! j = IsotopeArg a c None m \<Longrightarrow>
      takes readers writer (permits (args i ! j)) (all_held (length syss) (rs_held r))
        (full_get_storage ops strategy (iter_allocated_chunks sn) m a c d (own_guards j (rs_held r i)) (rs_store r))"
proof -
  have held: "held_ok readers writer (all_held (length syss) (rs_held r)) (rs_store r)"
    and le: "rs_done r i \<le> length (args i)" using inv i by (auto simp: run_inv_def)
  note others = run_others [OF inv ap i]
  show "takes readers writer (permits (args i ! rs_done r i)) (all_held (length syss) (rs_held r))
      (acquire_arg ops ci snap (args i ! rs_done r i) (rs_store r))" if "rs_done r i < length (args i)"
  proof (rule acquire_takes [OF ops held])
    show "arg_ok (args i ! rs_done r i)" using ok i(1) that by (auto simp: list_all_length)
    have "own_guards (rs_done r i) (rs_held r i) = []"
      using inv i(1) by (fastforce simp: own_guards_def run_inv_def filter_empty_conv)
    with others [OF that] show "\<forall>y. y \<in># all_held (length syss) (rs_held r) \<longrightarrow>
        (\<exists>B. permits B y \<and> apart (args i ! rs_done r i) B)" by auto
  qed
  show "takes readers writer (permits (args i ! j)) (all_held (length syss) (rs_held r))
      (full_get_storage ops strategy (iter_allocated_chunks sn) m a c d (own_guards j (rs_held r i)) (rs_store r))"
    if "j < rs_done r i" "args i ! j = IsotopeArg a c None m"
    using others [of j] le that by (simp, intro lazy_takes [OF ops held]) auto
qed

text \<open>A system that takes guards keeps the invariant.\<close>

lemma run_inv_take:
  assumes inv: "run_inv readers writer t syss args r" and i: "i < length syss" "node_at syss i \<in> running (rs_planner r)"
    and take: "takes readers writer (permits (args i ! j)) (all_held (length syss) (rs_held r)) (Inr (gs, st'))"
    and j: "j < done" "rs_done r i \<le> done" "done \<le> length (args i)"
  shows "run_inv readers writer t syss args
    (r\<lparr>rs_store := st', rs_held := (rs_held r)(i := rs_held r i @ map (Pair j) gs), rs_done := (rs_done r)(i := done)\<rparr>)"
proof -
  have "l < done \<and> permits (args i ! l) g" if "(l, g) \<in> set (rs_held r i @ map (Pair j) gs)" for l g
  proof (cases "(l, g) \<in> set (rs_held r i)")
    case True
    with inv i(1) have "l < rs_done r i" "permits (args i ! l) g" unfolding run_inv_def by fastforce+
    with j(2) show ?thesis by simp
  next
    case False
    with that take j(1) show ?thesis by auto
  qed
  with inv i take j show ?thesis by (fastforce simp: run_inv_def all_held_append comp_def)
qed

lemma run_inv_steal:
  assumes inv: "run_inv readers writer t syss args r" and t: "schedule t"
    and st: "steal_send t (rs_planner r) = Inr (res, p') \<or> steal_unsend t (rs_planner r) = Inr (res, p')"
  shows "run_inv readers writer t syss args (r\<lparr>rs_planner := p'\<rparr>)"
proof -
  have reach: "planner_reach t (rs_planner r)" using inv by (simp add: run_inv_def)
  have keep: "running p \<subseteq> running p''" if "steal_spec t f p res' p''" for f p res' p''
    using that by (cases res') (auto simp: steal_spec_def)
  have "running (rs_planner r) \<subseteq> running p'"
    using schedule_graph.steal_send_ok [OF schedule.axioms(1) [OF t] schedule.reach_inv [OF t reach]]
      schedule_graph.steal_unsend_ok [OF schedule.axioms(1) [OF t] schedule.reach_inv [OF t reach]] st keep by fastforce
  moreover have "planner_reach t p'" using st reach by (auto intro: planner_reach.intros)
  ultimately show ?thesis using inv by (auto simp: run_inv_def)
qed

lemma run_inv_return:
  assumes ops: "rw_lock_ok ops readers writer" and inv: "run_inv readers writer t syss args r" and t: "schedule t"
    and i: "i < length syss" "node_at syss i \<in> running (rs_planner r)"
    and c: "complete t (node_at syss i) (rs_planner r) = Inr p'"
  shows "run_inv readers writer t syss args
    (r\<lparr>rs_planner := p', rs_store := fold (drop_guard ops) (map snd (rs_held r i)) (rs_store r),
       rs_held := (rs_held r)(i := []), rs_done := (rs_done r)(i := 0)\<rparr>)"
proof -
  have reach: "planner_reach t (rs_planner r)" using inv by (simp add: run_inv_def)
  have "node_at syss k \<in> running p'" if "k < length syss" "k \<noteq> i" "node_at syss k \<in> running (rs_planner r)" for k
    using schedule_graph.complete_ok [OF schedule.axioms(1) [OF t] schedule.reach_inv [OF t reach], of "node_at syss i"] i c that
      node_at_inj [of k syss i] by (auto simp: running_def node_at_def)
  moreover have "planner_reach t p'" using reach i(2) c by (rule planner_reach.complete)
  moreover have "held_ok readers writer (all_held (length syss) ((rs_held r)(i := [])))
      (fold (drop_guard ops) (map snd (rs_held r i)) (rs_store r))"
    using inv all_held_drop [OF i(1), of "rs_held r"] by (intro drop_guards_ok [OF ops]) (simp add: run_inv_def)
  ultimately show ?thesis using inv by (auto simp: run_inv_def)
qed

lemma access_reach_inv:
  assumes "access_reach ops ci snap t syss args st0 r" and ops: "rw_lock_ok ops readers writer" and t: "schedule t"
    and ap: "\<And>p. planner_inv t p \<Longrightarrow> args_apart syss args p"
    and ok: "\<forall>i < length syss. list_all arg_ok (args i)" and st0: "held_ok readers writer {#} st0"
  shows "run_inv readers writer t syss args r"
  using assms(1)
proof (induction rule: access_reach.induct)
  case init
  show ?case using st0 by (simp add: run_inv_def all_held_def planner_reach.init)
next
  case (steal r res p')
  then show ?case using run_inv_steal [OF _ t] by blast
next
  case (obtain_arg r i gs st')
  then have "args_apart syss args (rs_planner r)" using ap schedule.reach_inv [OF t] by (auto simp: run_inv_def)
  from run_acquire(1) [OF ops ok obtain_arg.IH this obtain_arg.hyps(2-4), of ci snap] obtain_arg.hyps(5)
  have take: "takes readers writer (permits (args i ! rs_done r i)) (all_held (length syss) (rs_held r)) (Inr (gs, st'))"
    by simp
  show ?case
    by (rule run_inv_take [OF obtain_arg.IH obtain_arg.hyps(2,3) take]) (use obtain_arg.hyps(4) in auto)
next
  case (new_discrim r i j a c m d gs st')
  then have ap: "args_apart syss args (rs_planner r)" and le: "rs_done r i \<le> length (args i)"
    using ap schedule.reach_inv [OF t] by (auto simp: run_inv_def)
  have "takes readers writer (permits (args i ! j)) (all_held (length syss) (rs_held r)) (Inr (gs, st'))"
    using run_acquire(2) [OF ops ok new_discrim.IH ap new_discrim.hyps(2-5), of "ci_init (ci c)" "snap a" d]
      new_discrim.hyps(6) by simp
  from run_inv_take [OF new_discrim.IH new_discrim.hyps(2,3) this new_discrim.hyps(4) order_refl le] show ?case by simp
next
  case (return r i p')
  then show ?case using run_inv_return [OF ops _ t] by blast
qed

text \<open>A system that holds a lock for writing is alone with it.\<close>

lemma write_guard_alone:
  assumes inv: "run_inv readers writer t syss args r" and k: "k < length syss" and i: "i < length syss"
    and ki: "k \<noteq> i" and w: "WriteGuard lk \<in> snd ` set (rs_held r i)"
  shows "WriteGuard lk \<notin> snd ` set (rs_held r k) \<and> ReadGuard lk \<notin> snd ` set (rs_held r k)"
proof -
  let ?T = "all_held (length syss) (rs_held r)"
  have T: "count ?T (WriteGuard lk) \<le> 1" "WriteGuard lk \<in># ?T \<longrightarrow> ReadGuard lk \<notin># ?T"
    using inv by (auto simp: run_inv_def held_ok_def)
  have "ReadGuard lk \<notin> snd ` set (rs_held r k)" using T(2) w i k unfolding all_held_iff by blast
  moreover have "WriteGuard lk \<notin># all_held (length syss) ((rs_held r)(i := []))"
  proof -
    have "count ?T (WriteGuard lk) = count (all_held (length syss) ((rs_held r)(i := []))) (WriteGuard lk)
        + count (mset (map snd (rs_held r i))) (WriteGuard lk)"
      by (simp add: all_held_drop [OF i, of "rs_held r"])
    moreover from w have "count (mset (map snd (rs_held r i))) (WriteGuard lk) > 0"
      unfolding count_greater_zero_iff set_mset_mset list.set_map .
    ultimately show ?thesis using T(1) unfolding not_in_iff by linarith
  qed
  then have "WriteGuard lk \<notin> snd ` set (((rs_held r)(i := [])) k)" using k unfolding all_held_iff by blast
  ultimately show ?thesis using ki by simp
qed

end
