(* ===== verification/Single_Access.thy ===== *)
theory Single_Access
  imports Tree_Storage Snapshot
begin

section \<open>Accessors of a single storage\<close>

text \<open>
  \<open>src/system/access/single.rs\<close>: what a system does with the storage of one component. An accessor
  wraps a storage or a partition of one; the storage is the vector or the tree of the crate. A
  reference to a component is the position of its cell together with the component: for both storages
  the position is the primitive of the entity.

  \<open>rayon::iter::split\<close> divides its data with a given function as long as it wants more pieces of work:
  which pieces it divides is up to its scheduler and given as a \<open>plan\<close>, over which the results are
  quantified. The pieces are collected in order.
\<close>

datatype ('e, 'v) storage_ref = VecRef "'v vec_storage" | TreeRef "('e, 'v) fmap"

datatype ('e, 'v) partition_ref = VecPart "'v vec_partition" | TreePart "('e, 'v) tree_partition"

subsection \<open>Reading\<close>

fun try_get :: "'w::len raw \<Rightarrow> ('w raw, 'v) storage_ref \<Rightarrow> 'v option res" where
  "try_get e (VecRef s) = vec_get e s"
| "try_get e (TreeRef s) = tree_get e s"

fun single_iter :: "('w::len raw, 'v) storage_ref \<Rightarrow> ('w raw \<times> 'v) list res" where
  "single_iter (VecRef s) = vec_iter s"
| "single_iter (TreeRef s) = tree_iter s"

definition single_get :: "'w::len raw \<Rightarrow> ('w raw, 'v) storage_ref \<Rightarrow> 'v res" where
  "single_get e s = bind_res (try_get e s) (expect MissingComponent)"

text \<open>Only the vector storage is chunked.\<close>

definition single_get_chunk :: "'w::len raw chunk \<Rightarrow> 'v vec_storage \<Rightarrow> 'v list res" where
  "single_get_chunk chunk s = bind_res (vec_get_chunk (fst chunk) (snd chunk) s) (expect ChunkIncomplete)"

subsection \<open>Writing\<close>

fun try_get_mut :: "'w::len raw \<Rightarrow> ('w raw, 'v) storage_ref \<Rightarrow> nat option res" where
  "try_get_mut e (VecRef s) = vec_get_mut e s"
| "try_get_mut e (TreeRef s) = Inr (map_option to_primitive (tree_get_mut e s))"

fun try_get_many_mut :: "'w::len raw list \<Rightarrow> ('w raw, 'v) storage_ref \<Rightarrow> nat list option res" where
  "try_get_many_mut es (VecRef s) = vec_get_many_mut es s"
| "try_get_many_mut es (TreeRef s) = Inr (map_option (map to_primitive) (tree_get_many_mut es s))"

definition single_get_mut :: "'w::len raw \<Rightarrow> ('w raw, 'v) storage_ref \<Rightarrow> nat res" where
  "single_get_mut e s = bind_res (try_get_mut e s) (expect MissingComponent)"

definition single_get_many_mut :: "'w::len raw list \<Rightarrow> ('w raw, 'v) storage_ref \<Rightarrow> nat list res" where
  "single_get_many_mut es s = bind_res (try_get_many_mut es s) (expect MissingComponent)"

fun single_set :: "'w::len raw \<Rightarrow> 'v option \<Rightarrow> ('w raw, 'v) storage_ref \<Rightarrow> ('v option \<times> ('w raw, 'v) storage_ref) res" where
  "single_set e v (VecRef s) = bind_res (vec_set e v s) (\<lambda>(old, s'). Inr (old, VecRef s'))"
| "single_set e v (TreeRef s) = bind_res (tree_set e v s) (\<lambda>(old, s'). Inr (old, TreeRef s'))"

text \<open>\<open>get_chunk_mut\<close> has the body of \<open>get_chunk\<close>, and its type.\<close>

definition single_get_chunk_mut :: "'w::len raw chunk \<Rightarrow> 'v vec_storage \<Rightarrow> 'v list res" where
  "single_get_chunk_mut chunk s = bind_res (vec_get_chunk (fst chunk) (snd chunk) s) (expect ChunkIncomplete)"

subsection \<open>Partitions\<close>

fun as_partition :: "('w::len raw, 'v) storage_ref \<Rightarrow> ('w raw, 'v) partition_ref" where
  "as_partition (VecRef s) = VecPart (vec_as_partition s)"
| "as_partition (TreeRef s) = TreePart (tree_as_partition s)"

text \<open>The accessor that is left, and the one that is returned.\<close>

fun single_split_out :: "'w::len raw \<Rightarrow> ('w raw, 'v) partition_ref \<Rightarrow> (('w raw, 'v) partition_ref \<times> ('w raw, 'v) partition_ref) res" where
  "single_split_out e (VecPart p) = bind_res (vec_split_out e p) (\<lambda>(l, r). Inr (VecPart l, VecPart r))"
| "single_split_out e (TreePart p) = bind_res (tree_split_out e p) (\<lambda>(l, r). Inr (TreePart l, TreePart r))"

definition single_split_at :: "'w::len raw \<Rightarrow> ('w raw, 'v) partition_ref \<Rightarrow> (('w raw, 'v) partition_ref \<times> ('w raw, 'v) partition_ref) res" where
  "single_split_at e p = bind_res (single_split_out e p) (\<lambda>(self, right). Inr (self, right))"

fun try_into_mut :: "'w::len raw \<Rightarrow> ('w raw, 'v) partition_ref \<Rightarrow> (nat \<times> 'v) option res" where
  "try_into_mut e (VecPart p) = vec_into_mut e p"
| "try_into_mut e (TreePart p) = bind_res (tree_into_mut e p) (\<lambda>r. Inr (map_option (\<lambda>(k, v). (to_primitive k, v)) r))"

definition single_into_mut :: "'w::len raw \<Rightarrow> ('w raw, 'v) partition_ref \<Rightarrow> (nat \<times> 'v) res" where
  "single_into_mut e p = bind_res (try_into_mut e p) (expect MissingComponent)"

fun single_into_iter_mut :: "('w::len raw, 'v) partition_ref \<Rightarrow> ('w raw \<times> 'v) list res" where
  "single_into_iter_mut (VecPart p) = vec_into_iter_mut p"
| "single_into_iter_mut (TreePart p) = tree_into_iter_mut p"

definition single_into_chunk_mut :: "'w::len raw chunk \<Rightarrow> 'v vec_partition \<Rightarrow> 'v list res" where
  "single_into_chunk_mut chunk p = bind_res (vec_into_chunk_mut (fst chunk) (snd chunk) p) (expect MissingComponent)"

definition single_into_iter_chunks_mut :: "'v vec_partition \<Rightarrow> ('w::len raw chunk \<times> 'v list) list res" where
  "single_into_iter_chunks_mut p =
     bind_res (vec_into_iter_chunks_mut p) (map_res (\<lambda>(e, data).
       bind_res (raw_add e (length data)) (\<lambda>finish. Inr ((e, finish), data))))"

subsection \<open>Parallel iteration\<close>

datatype plan = Whole | Halves plan plan

fun par_split :: "plan \<Rightarrow> ('d \<Rightarrow> ('d \<times> 'd option) res) \<Rightarrow> 'd \<Rightarrow> 'd list res" where
  "par_split Whole f d = Inr [d]"
| "par_split (Halves pl pr) f d =
     bind_res (f d) (\<lambda>(left, right).
     case right of
       None \<Rightarrow> Inr [left]
     | Some r \<Rightarrow> bind_res (par_split pl f left) (\<lambda>xs. bind_res (par_split pr f r) (\<lambda>ys. Inr (xs @ ys))))"

definition par_iter :: "plan \<Rightarrow> 'w::len raw snapshot \<Rightarrow> ('w raw, 'v) storage_ref \<Rightarrow> ('w raw \<times> 'v) list res" where
  "par_iter plan sn s =
     bind_res (as_slice sn) (\<lambda>slice.
     bind_res (par_split plan split_slice slice) (\<lambda>slices.
     bind_res (map_res (\<lambda>slice. bind_res (iter_chunks slice) (\<lambda>cs.
       map_res (\<lambda>e. bind_res (single_get e s) (\<lambda>v. Inr (e, v))) (chunk_ids cs))) slices) (\<lambda>xss.
     Inr (concat xss))))"

definition par_iter_chunks :: "plan \<Rightarrow> 'w::len raw snapshot \<Rightarrow> 'v vec_storage \<Rightarrow> ('w raw chunk \<times> 'v list) list res" where
  "par_iter_chunks plan sn s =
     bind_res (as_slice sn) (\<lambda>slice.
     bind_res (par_split plan split_slice slice) (\<lambda>slices.
     bind_res (map_res (\<lambda>slice. bind_res (iter_chunks slice)
       (map_res (\<lambda>chunk. bind_res (single_get_chunk chunk s) (\<lambda>vs. Inr (chunk, vs))))) slices) (\<lambda>xss.
     Inr (concat xss))))"

definition split_with_slice :: "('w::len raw, 'v) partition_ref \<times> 'w raw slice
    \<Rightarrow> ((('w raw, 'v) partition_ref \<times> 'w raw slice) \<times> (('w raw, 'v) partition_ref \<times> 'w raw slice) option) res" where
  "split_with_slice q =
     bind_res (midpoint_for_split (snd q)) (\<lambda>m.
     case m of
       None \<Rightarrow> Inr (q, None)
     | Some midpt \<Rightarrow>
         (let (slice_left, slice_right) = split_at (snd q) midpt in
          bind_res (single_split_at midpt (fst q)) (\<lambda>(left, right).
          Inr ((left, slice_left), Some (right, slice_right)))))"

definition par_iter_mut :: "plan \<Rightarrow> 'w::len raw snapshot \<Rightarrow> ('w raw, 'v) storage_ref \<Rightarrow> ('w raw \<times> 'v) list res" where
  "par_iter_mut plan sn s =
     bind_res (as_slice sn) (\<lambda>slice.
     bind_res (par_split plan split_with_slice (as_partition s, slice)) (\<lambda>parts.
     bind_res (map_res (\<lambda>(p, _). single_into_iter_mut p) parts) (\<lambda>xss. Inr (concat xss))))"

text \<open>The bounds of \<open>par_iter_chunks_mut\<close> leave only chunked partitions, those of the vector.\<close>

fun chunks_of_part :: "('w::len raw, 'v) partition_ref \<Rightarrow> ('w raw chunk \<times> 'v list) list res" where
  "chunks_of_part (VecPart p) = single_into_iter_chunks_mut p"
| "chunks_of_part (TreePart p) = Inl Unreachable"

definition par_iter_chunks_mut :: "plan \<Rightarrow> 'w::len raw snapshot \<Rightarrow> 'v vec_storage \<Rightarrow> ('w raw chunk \<times> 'v list) list res" where
  "par_iter_chunks_mut plan sn s =
     bind_res (as_slice sn) (\<lambda>slice.
     bind_res (par_split plan split_with_slice (as_partition (VecRef s), slice)) (\<lambda>parts.
     bind_res (map_res (\<lambda>(p, _). chunks_of_part p) parts) (\<lambda>xss. Inr (concat xss))))"

end
