(* ===== verification/Entity_Iter.thy ===== *)
theory Entity_Iter
  imports Single_Access
begin

section \<open>Iterating over the entities of an archetype\<close>

text \<open>
  \<open>src/system/iter.rs\<close> and \<open>src/system/iter/tuple_impls.rs\<close>. The iterators of \<open>EntityIterator\<close> walk the
  identifiers of a snapshot and take the components of each entity from a \<open>Zip\<close>: read accessors
  are shared, write accessors are partitions that are split behind the entity, so that what is
  handed out is never reachable again. An iterator is the list it yields, a panic of one item the panic of
  the whole.
\<close>

subsection \<open>Zips\<close>

text \<open>\<open>MissingResln\<close>: what to do about an absent component.\<close>

datatype resln = MustMissingResln | TryMissingResln

datatype 'a resolved = MustHave 'a | MayHave "'a option"

fun must_or_try :: "resln \<Rightarrow> 'a option \<Rightarrow> 'a resolved res" where
  "must_or_try MustMissingResln (Some v) = Inr (MustHave v)"
| "must_or_try MustMissingResln None = Inl MissingComponent"
| "must_or_try TryMissingResln v = Inr (MayHave v)"

datatype ('e, 'v) zip =
    ReadZip resln "('e, 'v) storage_ref"
  | WriteZip resln "('e, 'v) partition_ref"
  | TupleZip "('e, 'v) zip list"

text \<open>What can be passed to an iterator: \<open>&accessor\<close>, \<open>&mut accessor\<close>, both in \<open>Try\<close>, and tuples.\<close>

datatype ('e, 'v) zippable =
    Shared resln "('e, 'v) storage_ref"
  | Exclusive resln "('e, 'v) storage_ref"
  | Tuple "('e, 'v) zippable list"

fun into_zip :: "('w::len raw, 'v) zippable \<Rightarrow> ('w raw, 'v) zip" where
  "into_zip (Shared m s) = ReadZip m s"
| "into_zip (Exclusive m s) = WriteZip m (as_partition s)"
| "into_zip (Tuple zs) = TupleZip (map into_zip zs)"

text \<open>An item: a component, or a reference with its position for write accessors.\<close>

datatype 'v item = ReadItem "'v resolved" | WriteItem "(nat \<times> 'v) resolved" | TupleItem "'v item list"

fun zip_split :: "'w::len raw \<Rightarrow> ('w raw, 'v) zip \<Rightarrow> (('w raw, 'v) zip \<times> ('w raw, 'v) zip) res"
and zips_split :: "'w::len raw \<Rightarrow> ('w raw, 'v) zip list \<Rightarrow> (('w raw, 'v) zip list \<times> ('w raw, 'v) zip list) res" where
  "zip_split offset (ReadZip m s) = Inr (ReadZip m s, ReadZip m s)"
| "zip_split offset (WriteZip m p) =
     bind_res (single_split_out offset p) (\<lambda>(self, right). Inr (WriteZip m self, WriteZip m right))"
| "zip_split offset (TupleZip zs) =
     bind_res (zips_split offset zs) (\<lambda>(self, right). Inr (TupleZip self, TupleZip right))"
| "zips_split offset [] = Inr ([], [])"
| "zips_split offset (z # zs) =
     bind_res (zip_split offset z) (\<lambda>(l, r).
     bind_res (zips_split offset zs) (\<lambda>(ls, rs). Inr (l # ls, r # rs)))"

fun zip_get :: "'w::len raw \<Rightarrow> ('w raw, 'v) zip \<Rightarrow> 'v item res"
and zips_get :: "'w::len raw \<Rightarrow> ('w raw, 'v) zip list \<Rightarrow> 'v item list res" where
  "zip_get e (ReadZip m s) =
     bind_res (try_get e s) (\<lambda>v. bind_res (must_or_try m v) (\<lambda>r. Inr (ReadItem r)))"
| "zip_get e (WriteZip m p) =
     bind_res (try_into_mut e p) (\<lambda>v. bind_res (must_or_try m v) (\<lambda>r. Inr (WriteItem r)))"
| "zip_get e (TupleZip zs) = bind_res (zips_get e zs) (\<lambda>is. Inr (TupleItem is))"
| "zips_get e [] = Inr []"
| "zips_get e (z # zs) = bind_res (zip_get e z) (\<lambda>i. bind_res (zips_get e zs) (\<lambda>is. Inr (i # is)))"

subsection \<open>Chunks of zips\<close>

text \<open>
  \<open>ZipChunked\<close> is implemented for accessors of chunked storages, without \<open>Try\<close>, and for tuples of
  them; the trait bounds rule out every other zip. A slice for writing comes with the position of its
  first component.
\<close>

datatype 'v zip_chunk = ReadChunk "'v list" | WriteChunk nat "'v list" | TupleChunk "'v zip_chunk list"

fun zip_chunked :: "('e, 'v) zip \<Rightarrow> bool" where
  "zip_chunked (ReadZip MustMissingResln (VecRef _)) = True"
| "zip_chunked (WriteZip MustMissingResln (VecPart _)) = True"
| "zip_chunked (TupleZip zs) = (zs \<noteq> [] \<and> list_all zip_chunked zs)"
| "zip_chunked _ = False"

fun zip_get_chunk :: "'w::len raw chunk \<Rightarrow> ('w raw, 'v) zip \<Rightarrow> 'v zip_chunk res"
and zips_get_chunk :: "'w::len raw chunk \<Rightarrow> ('w raw, 'v) zip list \<Rightarrow> 'v zip_chunk list res" where
  "zip_get_chunk chunk (ReadZip m (VecRef s)) = bind_res (single_get_chunk chunk s) (\<lambda>vs. Inr (ReadChunk vs))"
| "zip_get_chunk chunk (WriteZip m (VecPart p)) =
     bind_res (single_into_chunk_mut chunk p) (\<lambda>vs. Inr (WriteChunk (to_primitive (fst chunk)) vs))"
| "zip_get_chunk chunk (TupleZip zs) = bind_res (zips_get_chunk chunk zs) (\<lambda>cs. Inr (TupleChunk cs))"
| "zip_get_chunk chunk _ = Inl Unreachable"
| "zips_get_chunk chunk [] = Inr []"
| "zips_get_chunk chunk (z # zs) =
     bind_res (zip_get_chunk chunk z) (\<lambda>c. bind_res (zips_get_chunk chunk zs) (\<lambda>cs. Inr (c # cs)))"

text \<open>\<open>uniform_izip!\<close>, which stops with the shortest list.\<close>

fun izip :: "'a list list \<Rightarrow> 'a list list" where
  "izip [] = []"
| "izip [xs] = map (\<lambda>x. [x]) xs"
| "izip (xs # ys # yss) = map (\<lambda>(x, t). x # t) (zip xs (izip (ys # yss)))"

fun chunk_to_entities :: "'v zip_chunk \<Rightarrow> 'v item list" where
  "chunk_to_entities (ReadChunk vs) = map (\<lambda>v. ReadItem (MustHave v)) vs"
| "chunk_to_entities (WriteChunk start vs) =
     map (\<lambda>(i, v). WriteItem (MustHave (i, v))) (zip [start ..< start + length vs] vs)"
| "chunk_to_entities (TupleChunk cs) = map TupleItem (izip (map chunk_to_entities cs))"

subsection \<open>Taking from the front\<close>

definition take_serial :: "'w::len raw \<Rightarrow> ('w raw, 'v) zip \<Rightarrow> ('v item \<times> ('w raw, 'v) zip) res" where
  "take_serial e z =
     bind_res (raw_add e 1) (\<lambda>offset.
     bind_res (zip_split offset z) (\<lambda>(left, right).
     bind_res (zip_get e left) (\<lambda>item. Inr (item, right))))"

definition take_serial_chunk :: "'w::len raw chunk \<Rightarrow> ('w raw, 'v) zip \<Rightarrow> ('v zip_chunk \<times> ('w raw, 'v) zip) res" where
  "take_serial_chunk chunk z =
     bind_res (zip_split (snd chunk) z) (\<lambda>(left, right).
     bind_res (zip_get_chunk chunk left) (\<lambda>c. Inr (c, right)))"

text \<open>An iterator over \<open>ids\<close> or \<open>chunks\<close> whose closure owns the zip.\<close>

fun take_entities :: "'w::len raw list \<Rightarrow> ('w raw, 'v) zip \<Rightarrow> ('w raw \<times> 'v item) list res" where
  "take_entities [] z = Inr []"
| "take_entities (e # es) z =
     bind_res (take_serial e z) (\<lambda>(item, z').
     bind_res (take_entities es z') (\<lambda>xs. Inr ((e, item) # xs)))"

fun take_chunks :: "'w::len raw chunk list \<Rightarrow> ('w raw, 'v) zip \<Rightarrow> ('w raw chunk \<times> 'v zip_chunk) list res" where
  "take_chunks [] z = Inr []"
| "take_chunks (c # cs) z =
     bind_res (take_serial_chunk c z) (\<lambda>(data, z').
     bind_res (take_chunks cs z') (\<lambda>xs. Inr ((c, data) # xs)))"

subsection \<open>\<open>EntityIterator\<close>\<close>

definition entities :: "'w::len raw snapshot \<Rightarrow> 'w raw list res" where
  "entities sn = bind_res (iter_allocated_chunks sn) (\<lambda>cs. Inr (chunk_ids cs))"

definition chunks :: "'w::len raw snapshot \<Rightarrow> 'w raw chunk list res" where
  "chunks sn = iter_allocated_chunks sn"

definition entities_with :: "'w::len raw snapshot \<Rightarrow> ('w raw, 'v) zippable \<Rightarrow> ('w raw \<times> 'v item) list res" where
  "entities_with sn zs =
     bind_res (iter_allocated_chunks sn) (\<lambda>cs. take_entities (chunk_ids cs) (into_zip zs))"

definition chunks_with :: "'w::len raw snapshot \<Rightarrow> ('w raw, 'v) zippable \<Rightarrow> ('w raw chunk \<times> 'v zip_chunk) list res" where
  "chunks_with sn zs = bind_res (iter_allocated_chunks sn) (\<lambda>cs. take_chunks cs (into_zip zs))"

definition chunk_items :: "'w::len raw chunk \<times> 'v zip_chunk \<Rightarrow> ('w raw \<times> 'v item) list" where
  "chunk_items c = zip (raw_range (fst (fst c)) (snd (fst c))) (chunk_to_entities (snd c))"

definition entities_with_chunked :: "'w::len raw snapshot \<Rightarrow> ('w raw, 'v) zippable \<Rightarrow> ('w raw \<times> 'v item) list res" where
  "entities_with_chunked sn zs = bind_res (chunks_with sn zs) (\<lambda>cs. Inr (concat (map chunk_items cs)))"

subsection \<open>Parallel iteration\<close>

definition split_raw_chunk :: "'w::len raw slice \<times> ('w raw, 'v) zip
    \<Rightarrow> (('w raw slice \<times> ('w raw, 'v) zip) \<times> ('w raw slice \<times> ('w raw, 'v) zip) option) res" where
  "split_raw_chunk q =
     bind_res (midpoint_for_split (fst q)) (\<lambda>m.
     case m of
       None \<Rightarrow> Inr (q, None)
     | Some midpt \<Rightarrow>
         (let (slice_left, slice_right) = split_at (fst q) midpt in
          bind_res (zip_split midpt (snd q)) (\<lambda>(zip_left, zip_right).
          Inr ((slice_left, zip_left), Some (slice_right, zip_right)))))"

definition par_raw_chunks :: "plan \<Rightarrow> 'w::len raw snapshot \<Rightarrow> ('w raw, 'v) zippable
    \<Rightarrow> ('w raw slice \<times> ('w raw, 'v) zip) list res" where
  "par_raw_chunks plan sn zs =
     bind_res (as_slice sn) (\<lambda>slice. par_split plan split_raw_chunk (slice, into_zip zs))"

definition par_entities_with :: "plan \<Rightarrow> 'w::len raw snapshot \<Rightarrow> ('w raw, 'v) zippable \<Rightarrow> ('w raw \<times> 'v item) list res" where
  "par_entities_with plan sn zs =
     bind_res (par_raw_chunks plan sn zs) (\<lambda>qs.
     bind_res (map_res (\<lambda>(slice, z). take_entities (raw_range (sl_start slice) (sl_end slice)) z) qs) (\<lambda>xss.
     Inr (concat xss)))"

definition par_chunks_with :: "plan \<Rightarrow> 'w::len raw snapshot \<Rightarrow> ('w raw, 'v) zippable \<Rightarrow> ('w raw chunk \<times> 'v zip_chunk) list res" where
  "par_chunks_with plan sn zs =
     bind_res (par_raw_chunks plan sn zs) (map_res (\<lambda>(slice, z).
       bind_res (take_serial_chunk (sl_start slice, sl_end slice) z) (\<lambda>(c, _).
       Inr ((sl_start slice, sl_end slice), c))))"

definition par_entities_with_chunked :: "plan \<Rightarrow> 'w::len raw snapshot \<Rightarrow> ('w raw, 'v) zippable
    \<Rightarrow> ('w raw \<times> 'v item) list res" where
  "par_entities_with_chunked plan sn zs =
     bind_res (par_raw_chunks plan sn zs) (\<lambda>qs.
     bind_res (map_res (\<lambda>(slice, z).
       bind_res (take_serial_chunk (sl_start slice, sl_end slice) z) (\<lambda>(c, _).
       Inr (zip (raw_range (sl_start slice) (sl_end slice)) (chunk_to_entities c)))) qs) (\<lambda>xss.
     Inr (concat xss)))"

end
