(* ===== verification/Partition_Laws.thy ===== *)
theory Partition_Laws
  imports Single_Access
begin

section \<open>The contract of a partition\<close>

text \<open>
  What iteration relies on when it splits a storage: a partition answers for the entities it covers,
  and splitting it at a covered entity gives each side its part of the components. The partitions of
  both storages satisfy the contract; they differ in what they cover: a tree partition ends before its
  upper bound, so that it cannot be split at its own end, a vector partition has no upper bound.
\<close>

locale partition =
  fixes into_mut :: "'w::len raw \<Rightarrow> 'p \<Rightarrow> (nat \<times> 'v) option res"
    and split_out :: "'w raw \<Rightarrow> 'p \<Rightarrow> ('p \<times> 'p) res"
    and into_iter :: "'p \<Rightarrow> ('w raw \<times> 'v) list res"
    and inv :: "'p \<Rightarrow> bool"
    and covers :: "'p \<Rightarrow> 'w raw set"
    and \<alpha> :: "'p \<Rightarrow> 'w raw \<rightharpoonup> 'v"
  assumes into_mut_law: "inv p \<Longrightarrow> e \<in> covers p \<Longrightarrow> into_mut e p = Inr (map_option (Pair (to_primitive e)) (\<alpha> p e))"
    and split_law: "inv p \<Longrightarrow> e \<in> covers p \<Longrightarrow> \<exists>l r. split_out e p = Inr (l, r) \<and> inv l \<and> inv r \<and>
          covers p \<inter> {..< e} \<subseteq> covers l \<and> covers p \<inter> {e ..} \<subseteq> covers r \<and>
          \<alpha> l = \<alpha> p |` {..< e} \<and> \<alpha> r = \<alpha> p |` {e ..}"
    and iter_law: "inv p \<Longrightarrow> \<exists>xs. into_iter p = Inr xs \<and> entries_of (\<alpha> p) xs"
begin

text \<open>Taking the component of an entity off a partition.\<close>

lemma take_one:
  assumes inv: "inv p" and e: "e \<in> covers p" and next_e: "e' \<in> covers p" "e < e'"
  shows "\<exists>l r. split_out e' p = Inr (l, r) \<and> into_mut e l = Inr (map_option (Pair (to_primitive e)) (\<alpha> p e)) \<and>
    inv l \<and> inv r \<and> covers p \<inter> {e' ..} \<subseteq> covers r \<and> \<alpha> l = \<alpha> p |` {..< e'} \<and> \<alpha> r = \<alpha> p |` {e' ..}"
proof -
  from split_law [OF inv next_e(1)] obtain l r where lr: "split_out e' p = Inr (l, r)" "inv l" "inv r"
    "covers p \<inter> {..< e'} \<subseteq> covers l" "covers p \<inter> {e' ..} \<subseteq> covers r" "\<alpha> l = \<alpha> p |` {..< e'}" "\<alpha> r = \<alpha> p |` {e' ..}"
    by blast
  then have "into_mut e l = Inr (map_option (Pair (to_primitive e)) (\<alpha> p e))"
    using into_mut_law [of l e] e next_e(2) by auto
  with lr show ?thesis by blast
qed

end

text \<open>Entries of the two parts of a map, one after the other.\<close>

lemma entries_of_append:
  fixes f :: "'w::len raw \<rightharpoonup> 'v"
  assumes "entries_of (f |` {..< e}) xs" and "entries_of (f |` {e ..}) ys"
  shows "entries_of f (xs @ ys)"
proof -
  have dom: "fst ` set xs = dom (f |` {..< e})" "fst ` set ys = dom (f |` {e ..})"
    using assms by (auto simp: entries_of_def dom_map_of_conv_image_fst [symmetric])
  have "x < e" if "x \<in> fst ` set xs" for x using that dom(1) by (auto simp: restrict_map_def split: if_splits)
  moreover have "e \<le> y" if "y \<in> fst ` set ys" for y using that dom(2) by (auto simp: restrict_map_def split: if_splits)
  ultimately have "\<forall>x \<in> set (map fst xs). \<forall>y \<in> set (map fst ys). x < y" unfolding list.set_map by (meson less_le_trans)
  then have "sorted_wrt (<) (map fst (xs @ ys))"
    using assms by (simp add: entries_of_def sorted_wrt_append)
  moreover have "map_of (xs @ ys) = f"
  proof
    fix x
    have "map_of xs x = (f |` {..< e}) x" "map_of ys x = (f |` {e ..}) x" using assms by (simp_all add: entries_of_def)
    then show "map_of (xs @ ys) x = f x" by (cases "x < e") (auto simp: map_add_def split: option.splits)
  qed
  ultimately show ?thesis by (simp add: entries_of_def)
qed

subsection \<open>The partitions of the two storages\<close>

text \<open>
  A vector partition whose slots are as many as its bits: no split can run out of slots. Removing an
  absent component is what breaks this.
\<close>

definition vec_part_inv :: "'w::len itself \<Rightarrow> 'v vec_partition \<Rightarrow> bool" where
  "vec_part_inv w p \<longleftrightarrow> vp_ok w p \<and> length (vp_data p) = length (vp_bits p)"

interpretation vec_pt: partition "vec_into_mut :: 'w::len raw \<Rightarrow> _" vec_split_out vec_into_iter_mut
    "vec_part_inv TYPE('w)" "\<lambda>p. {e. vp_offset p \<le> to_primitive e}" vp_map
proof unfold_locales
  fix p :: "'v vec_partition" and e :: "'w raw"
  assume inv: "vec_part_inv TYPE('w) p"
  show "\<exists>xs. vec_into_iter_mut p = Inr xs \<and> entries_of (vp_map p :: 'w raw \<rightharpoonup> 'v) xs"
    by (rule vec_into_iter_mut_outcome) (use inv in \<open>simp add: vec_part_inv_def\<close>)
  assume e: "e \<in> {e. vp_offset p \<le> to_primitive e}"
  show "vec_into_mut e p = Inr (map_option (Pair (to_primitive e)) (vp_map p e))"
    using vec_into_mut_outcome [of p e] inv e by (simp add: vec_part_inv_def)
  obtain l r where lr: "vec_split_out e p = Inr (l, r)"
    using vec_split_out_returns [of p e] inv e by (fastforce simp: vec_part_inv_def)
  have "length (vp_data l) = length (vp_bits l) \<and> length (vp_data r) = length (vp_bits r)"
    using lr inv e by (auto simp: vec_split_out_def vec_part_inv_def split: if_splits)
  with vec_split_out_outcome [of p e l r] lr inv e
  show "\<exists>l r. vec_split_out e p = Inr (l, r) \<and> vec_part_inv TYPE('w) l \<and> vec_part_inv TYPE('w) r \<and>
      {e. vp_offset p \<le> to_primitive e} \<inter> {..< e} \<subseteq> {e. vp_offset l \<le> to_primitive e} \<and>
      {e. vp_offset p \<le> to_primitive e} \<inter> {e ..} \<subseteq> {e. vp_offset r \<le> to_primitive e} \<and>
      (vp_map l :: 'w raw \<rightharpoonup> 'v) = vp_map p |` {..< e} \<and> (vp_map r :: 'w raw \<rightharpoonup> 'v) = vp_map p |` {e ..}"
    by (auto simp: vec_part_inv_def to_primitive_def word_le_nat_alt)
qed

definition tree_part_mut :: "'w::len raw \<Rightarrow> ('w raw, 'v) tree_partition \<Rightarrow> (nat \<times> 'v) option res" where
  "tree_part_mut e p = try_into_mut e (TreePart p)"

interpretation tree_pt: partition "tree_part_mut :: 'w::len raw \<Rightarrow> _" tree_split_out tree_into_iter_mut
    tp_ok "\<lambda>p. {e. in_bounds p e}" tp_map
proof unfold_locales
  fix p :: "('w raw, 'v) tree_partition" and e :: "'w raw"
  assume inv: "tp_ok p"
  show "\<exists>xs. tree_into_iter_mut p = Inr xs \<and> entries_of (tp_map p) xs" by (rule tree_into_iter_mut_outcome [OF inv])
  assume e: "e \<in> {e. in_bounds p e}"
  then show "tree_part_mut e p = Inr (map_option (Pair (to_primitive e)) (tp_map p e))"
    by (simp add: tree_part_mut_def tree_into_mut_def assert_bounds_def assert_res_def tp_map_def option.map_comp comp_def)
  obtain l r where lr: "tree_split_out e p = Inr (l, r)"
    using e by (simp add: tree_split_out_def assert_bounds_def assert_res_def)
  then have "l = p\<lparr>tp_upper := Some e\<rparr>" "r = \<lparr>tp_data = tp_data p, tp_lower = Some e, tp_upper = tp_upper p\<rparr>"
    using e by (auto simp: tree_split_out_def assert_bounds_def assert_res_def)
  then have "{e. in_bounds p e} \<inter> {..< e} \<subseteq> {e. in_bounds l e}" "{e. in_bounds p e} \<inter> {e ..} \<subseteq> {e. in_bounds r e}"
    by (auto simp: in_bounds_def)
  with tree_split_out_outcome [OF inv lr] lr
  show "\<exists>l r. tree_split_out e p = Inr (l, r) \<and> tp_ok l \<and> tp_ok r \<and>
      {e. in_bounds p e} \<inter> {..< e} \<subseteq> {e. in_bounds l e} \<and> {e. in_bounds p e} \<inter> {e ..} \<subseteq> {e. in_bounds r e} \<and>
      tp_map l = tp_map p |` {..< e} \<and> tp_map r = tp_map p |` {e ..}" by blast
qed

text \<open>Accessors of partitions, whichever storage is behind them.\<close>

fun ref_inv :: "('w::len raw, 'v) partition_ref \<Rightarrow> bool" where
  "ref_inv (VecPart p) = vec_part_inv TYPE('w) p"
| "ref_inv (TreePart p) = tp_ok p"

fun ref_covers :: "('w::len raw, 'v) partition_ref \<Rightarrow> 'w raw set" where
  "ref_covers (VecPart p) = {e. vp_offset p \<le> to_primitive e}"
| "ref_covers (TreePart p) = {e. in_bounds p e}"

fun ref_map :: "('w::len raw, 'v) partition_ref \<Rightarrow> 'w raw \<rightharpoonup> 'v" where
  "ref_map (VecPart p) = vp_map p"
| "ref_map (TreePart p) = tp_map p"

interpretation single_pt: partition "try_into_mut :: 'w::len raw \<Rightarrow> ('w raw, 'v) partition_ref \<Rightarrow> _"
    single_split_out single_into_iter_mut ref_inv ref_covers ref_map
proof unfold_locales
  fix p :: "('w raw, 'v) partition_ref" and e :: "'w raw"
  assume inv: "ref_inv p"
  show "\<exists>xs. single_into_iter_mut p = Inr xs \<and> entries_of (ref_map p) xs"
    using inv vec_pt.iter_law tree_pt.iter_law by (cases p) auto
  assume e: "e \<in> ref_covers p"
  show "try_into_mut e p = Inr (map_option (Pair (to_primitive e)) (ref_map p e))"
    using inv e vec_pt.into_mut_law tree_pt.into_mut_law [unfolded tree_part_mut_def] by (cases p) auto
  show "\<exists>l r. single_split_out e p = Inr (l, r) \<and> ref_inv l \<and> ref_inv r \<and>
      ref_covers p \<inter> {..< e} \<subseteq> ref_covers l \<and> ref_covers p \<inter> {e ..} \<subseteq> ref_covers r \<and>
      ref_map l = ref_map p |` {..< e} \<and> ref_map r = ref_map p |` {e ..}"
  proof (cases p)
    case (VecPart q)
    with vec_pt.split_law [of q e] inv e obtain l r where "vec_split_out e q = Inr (l, r)"
      "ref_inv (VecPart l :: ('w raw, 'v) partition_ref)" "ref_inv (VecPart r :: ('w raw, 'v) partition_ref)"
      "ref_covers p \<inter> {..< e} \<subseteq> ref_covers (VecPart l)" "ref_covers p \<inter> {e ..} \<subseteq> ref_covers (VecPart r)"
      "ref_map (VecPart l) = ref_map p |` {..< e}" "ref_map (VecPart r) = ref_map p |` {e ..}" by auto
    then show ?thesis unfolding VecPart single_split_out.simps bind_res.simps by auto
  next
    case (TreePart q)
    with tree_pt.split_law [of q e] inv e obtain l r where "tree_split_out e q = Inr (l, r)"
      "ref_inv (TreePart l)" "ref_inv (TreePart r)"
      "ref_covers p \<inter> {..< e} \<subseteq> ref_covers (TreePart l)" "ref_covers p \<inter> {e ..} \<subseteq> ref_covers (TreePart r)"
      "ref_map (TreePart l) = ref_map p |` {..< e}" "ref_map (TreePart r) = ref_map p |` {e ..}" by auto
    then show ?thesis unfolding TreePart single_split_out.simps bind_res.simps by auto
  qed
qed

end
