(* ===== verification/Iter_Laws.thy ===== *)
theory Iter_Laws
  imports Entity_Iter Partition_Laws
begin

section \<open>What the iterators yield\<close>

text \<open>
  The item of an entity is fixed by the storages behind a zip; taking items from the front, by entity
  or by chunk, and splitting the work all yield these items. The induction is over the structure of
  the zip, and rests on the contract of partitions for its write accessors.
\<close>

subsection \<open>The items of a zip\<close>

fun store_inv :: "('w::len raw, 'v) storage_ref \<Rightarrow> bool" where
  "store_inv (VecRef s) = (vec_inv TYPE('w) s \<and> length (vs_data s) = length (vs_bits s))"
| "store_inv (TreeRef s) = True"

fun store_map :: "('w::len raw, 'v) storage_ref \<Rightarrow> 'w raw \<rightharpoonup> 'v" where
  "store_map (VecRef s) = vec_map s"
| "store_map (TreeRef s) = fmlookup s"

lemma try_get_ok: "store_inv s \<Longrightarrow> try_get e s = Inr (store_map s e)"
  using vec_get_outcome by (cases s) (auto simp: vec_inv_def tree_get_def)

lemma as_partition_ok:
  assumes "store_inv s"
  shows "ref_inv (as_partition s)" and "ref_map (as_partition s) = store_map s" and "ref_covers (as_partition s) = UNIV"
  using assms vec_as_partition_ok
  by (cases s; auto simp: vec_part_inv_def vec_as_partition_def tree_as_partition_def tp_ok_def in_bounds_def tp_map_def)+

fun resolved :: "resln \<Rightarrow> 'a option \<Rightarrow> 'a resolved" where
  "resolved MustMissingResln v = MustHave (the v)"
| "resolved TryMissingResln v = MayHave v"

lemma must_or_try_ok: "(m = MustMissingResln \<Longrightarrow> v \<noteq> None) \<Longrightarrow> must_or_try m v = Inr (resolved m v)"
  by (cases m; cases v) auto

fun zip_item :: "('w::len raw, 'v) zip \<Rightarrow> 'w raw \<Rightarrow> 'v item" where
  "zip_item (ReadZip m s) e = ReadItem (resolved m (store_map s e))"
| "zip_item (WriteZip m p) e = WriteItem (resolved m (map_option (Pair (to_primitive e)) (ref_map p e)))"
| "zip_item (TupleZip zs) e = TupleItem (map (\<lambda>z. zip_item z e) zs)"

text \<open>The zip is sound, and its \<open>Must\<close> accessors have a component for every entity of \<open>D\<close>.\<close>

fun zip_ok :: "'w::len raw set \<Rightarrow> ('w raw, 'v) zip \<Rightarrow> bool" where
  "zip_ok D (ReadZip m s) = (store_inv s \<and> (m = MustMissingResln \<longrightarrow> D \<subseteq> dom (store_map s)))"
| "zip_ok D (WriteZip m p) = (ref_inv p \<and> (m = MustMissingResln \<longrightarrow> D \<subseteq> dom (ref_map p)))"
| "zip_ok D (TupleZip zs) = list_all (zip_ok D) zs"

fun zip_covers :: "('w::len raw, 'v) zip \<Rightarrow> 'w raw set" where
  "zip_covers (ReadZip m s) = UNIV"
| "zip_covers (WriteZip m p) = ref_covers p"
| "zip_covers (TupleZip zs) = (\<Inter>z \<in> set zs. zip_covers z)"

text \<open>All write accessors are those of vector storages.\<close>

fun zip_vec :: "('e, 'v) zip \<Rightarrow> bool" where
  "zip_vec (WriteZip m (TreePart p)) = False"
| "zip_vec (TupleZip zs) = list_all zip_vec zs"
| "zip_vec _ = True"

definition zip_parts :: "'w::len raw set \<Rightarrow> 'w raw \<Rightarrow> ('w raw, 'v) zip \<Rightarrow> ('w raw, 'v) zip \<Rightarrow> ('w raw, 'v) zip \<Rightarrow> bool" where
  "zip_parts D b z l r \<longleftrightarrow>
     zip_ok (D \<inter> {..< b}) l \<and> zip_ok (D \<inter> {b ..}) r \<and>
     zip_covers z \<inter> {..< b} \<subseteq> zip_covers l \<and> zip_covers z \<inter> {b ..} \<subseteq> zip_covers r \<and>
     (\<forall>e < b. zip_item l e = zip_item z e) \<and> (\<forall>e \<ge> b. zip_item r e = zip_item z e) \<and>
     (zip_vec z \<longrightarrow> zip_vec l \<and> zip_vec r \<and> zip_covers z \<subseteq> zip_covers l) \<and>
     (zip_chunked z \<longrightarrow> zip_chunked l \<and> zip_chunked r)"

lemma write_split:
  assumes ok: "zip_ok D (WriteZip m p)" and b: "b \<in> zip_covers (WriteZip m p)"
  shows "\<exists>l r. zip_split b (WriteZip m p) = Inr (l, r) \<and> zip_parts D b (WriteZip m p) l r"
proof -
  from single_pt.split_law [of p b] assms obtain l r where lr: "single_split_out b p = Inr (l, r)" "ref_inv l" "ref_inv r"
    "ref_covers p \<inter> {..< b} \<subseteq> ref_covers l" "ref_covers p \<inter> {b ..} \<subseteq> ref_covers r"
    "ref_map l = ref_map p |` {..< b}" "ref_map r = ref_map p |` {b ..}" by auto
  have vec: "\<exists>q' r'. l = VecPart q' \<and> r = VecPart r' \<and> ref_covers p \<subseteq> ref_covers l" if pq: "p = VecPart q" for q
  proof -
    obtain l' r' where "vec_split_out b q = Inr (l', r')" "l = VecPart l'" "r = VecPart r'"
      using lr(1) pq by (cases "vec_split_out b q") auto
    with vec_split_out_outcome [of q b l' r'] assms pq show ?thesis by (auto simp: vec_part_inv_def)
  qed
  have dom: "D \<subseteq> dom (ref_map p) \<Longrightarrow> D \<inter> {..< b} \<subseteq> dom (ref_map l) \<and> D \<inter> {b ..} \<subseteq> dom (ref_map r)"
    by (auto simp: lr(6,7) dom_def restrict_map_def)
  have "zip_parts D b (WriteZip m p) (WriteZip m l) (WriteZip m r)"
    using ok lr vec dom by (cases p; cases m) (auto simp: zip_parts_def)
  with lr(1) show ?thesis by auto
qed

lemma zip_parts_tuple:
  assumes "list_all2 (\<lambda>z lr. zip_parts D b z (fst lr) (snd lr)) zs lrs"
  shows "zip_parts D b (TupleZip zs) (TupleZip (map fst lrs)) (TupleZip (map snd lrs))"
  unfolding zip_parts_def
proof (intro conjI impI allI)
  show "zip_ok (D \<inter> {..< b}) (TupleZip (map fst lrs))" "zip_ok (D \<inter> {b ..}) (TupleZip (map snd lrs))"
    using assms by (induction rule: list_all2_induct; simp add: zip_parts_def)+
  show "zip_covers (TupleZip zs) \<inter> {..< b} \<subseteq> zip_covers (TupleZip (map fst lrs))"
    "zip_covers (TupleZip zs) \<inter> {b ..} \<subseteq> zip_covers (TupleZip (map snd lrs))"
    using assms by (induction rule: list_all2_induct; simp add: zip_parts_def; blast)+
  show "zip_item (TupleZip (map fst lrs)) e = zip_item (TupleZip zs) e" if "e < b" for e
    using assms that by (induction rule: list_all2_induct) (simp_all add: zip_parts_def)
  show "zip_item (TupleZip (map snd lrs)) e = zip_item (TupleZip zs) e" if "b \<le> e" for e
    using assms that by (induction rule: list_all2_induct) (simp_all add: zip_parts_def)
  assume "zip_vec (TupleZip zs)"
  with assms show "zip_vec (TupleZip (map fst lrs))" "zip_vec (TupleZip (map snd lrs))"
    by (induction rule: list_all2_induct; simp add: zip_parts_def)+
  from assms \<open>zip_vec (TupleZip zs)\<close> show "zip_covers (TupleZip zs) \<subseteq> zip_covers (TupleZip (map fst lrs))"
    by (induction rule: list_all2_induct; simp add: zip_parts_def; blast)
next
  assume c: "zip_chunked (TupleZip zs)"
  from assms have "list_all zip_chunked zs \<Longrightarrow> list_all zip_chunked (map fst lrs)"
    "list_all zip_chunked zs \<Longrightarrow> list_all zip_chunked (map snd lrs)"
    by (induction rule: list_all2_induct; simp add: zip_parts_def)+
  with c assms show "zip_chunked (TupleZip (map fst lrs))" "zip_chunked (TupleZip (map snd lrs))" by auto
qed

lemma zip_split_ok:
  fixes z :: "('w::len raw, 'v) zip" and zs :: "('w raw, 'v) zip list"
  shows "zip_ok D z \<Longrightarrow> b \<in> zip_covers z \<Longrightarrow> \<exists>l r. zip_split b z = Inr (l, r) \<and> zip_parts D b z l r"
    and "list_all (zip_ok D) zs \<Longrightarrow> b \<in> (\<Inter>z \<in> set zs. zip_covers z) \<Longrightarrow>
      \<exists>lrs. zips_split b zs = Inr (map fst lrs, map snd lrs) \<and>
        list_all2 (\<lambda>z lr. zip_parts D b z (fst lr) (snd lr)) zs lrs"
proof (induction b z and b zs rule: zip_split_zips_split.induct)
  case (1 b m s)
  then show ?case by (cases m; cases s) (auto simp: zip_parts_def)
next
  case (2 b m p)
  then show ?case by (rule write_split)
next
  case (3 b zs)
  then obtain lrs where "zips_split b zs = Inr (map fst lrs, map snd lrs)"
    "list_all2 (\<lambda>z lr. zip_parts D b z (fst lr) (snd lr)) zs lrs" by auto
  with zip_parts_tuple [of D b zs lrs] show ?case by simp
next
  case (4 b)
  show ?case by (simp add: exI [of _ "[]"])
next
  case (5 b z zs)
  from 5 obtain l r where lr: "zip_split b z = Inr (l, r)" "zip_parts D b z l r" by auto
  from "5.IH"(2) [OF lr(1) refl] "5.prems" obtain lrs where "zips_split b zs = Inr (map fst lrs, map snd lrs)"
    "list_all2 (\<lambda>z lr. zip_parts D b z (fst lr) (snd lr)) zs lrs" by auto
  with lr show ?case by (auto intro!: exI [of _ "(l, r) # lrs"])
qed

lemma zip_get_ok:
  fixes z :: "('w::len raw, 'v) zip" and zs :: "('w raw, 'v) zip list"
  shows "zip_ok D z \<Longrightarrow> e \<in> D \<Longrightarrow> e \<in> zip_covers z \<Longrightarrow> zip_get e z = Inr (zip_item z e)"
    and "list_all (zip_ok D) zs \<Longrightarrow> e \<in> D \<Longrightarrow> e \<in> (\<Inter>z \<in> set zs. zip_covers z) \<Longrightarrow>
      zips_get e zs = Inr (map (\<lambda>z. zip_item z e) zs)"
proof (induction e z and e zs rule: zip_get_zips_get.induct)
  case (1 e m s)
  then have "must_or_try m (store_map s e) = Inr (resolved m (store_map s e))" by (intro must_or_try_ok) auto
  with 1 show ?case by (simp add: try_get_ok)
next
  case (2 e m p)
  then have "must_or_try m (map_option (Pair (to_primitive e)) (ref_map p e)) =
      Inr (resolved m (map_option (Pair (to_primitive e)) (ref_map p e)))" by (intro must_or_try_ok) auto
  with 2 show ?case by (simp add: single_pt.into_mut_law)
qed auto

subsection \<open>Taking entity by entity\<close>

lemma take_serial_ok:
  assumes ok: "zip_ok D z" and e: "e \<in> D" "e \<noteq> 0" "e < g" and cov: "e \<in> zip_covers z" "e + 1 \<in> zip_covers z"
  shows "\<exists>r. take_serial e z = Inr (zip_item z e, r) \<and> zip_ok (D \<inter> {e + 1 ..}) r \<and>
    zip_covers z \<inter> {e + 1 ..} \<subseteq> zip_covers r \<and> (\<forall>x \<ge> e + 1. zip_item r x = zip_item z x)"
proof -
  note s = raw_succ [OF e(2,3)]
  then have lt: "e < e + 1" by (simp add: word_less_nat_alt)
  from zip_split_ok(1) [OF ok cov(2)] obtain l r where lr: "zip_split (e + 1) z = Inr (l, r)" "zip_parts D (e + 1) z l r"
    by blast
  then have "zip_get e l = Inr (zip_item l e)"
    using zip_get_ok(1) [of "D \<inter> {..< e + 1}" l e] e cov(1) lt by (auto simp: zip_parts_def)
  with lr s lt show ?thesis by (auto simp: take_serial_def zip_parts_def simp del: One_nat_def)
qed

lemma take_entities_ok:
  assumes "sorted_wrt (<) es" and "\<forall>e \<in> set es. e \<noteq> 0 \<and> e < g" and "zip_ok D z" and "set es \<subseteq> D"
    and "\<forall>e \<in> set es. e \<in> zip_covers z \<and> e + 1 \<in> zip_covers z"
  shows "take_entities es z = Inr (map (\<lambda>e. (e, zip_item z e)) es)"
  using assms
proof (induction es arbitrary: D z)
  case (Cons e es)
  then obtain r where r: "take_serial e z = Inr (zip_item z e, r)" "zip_ok (D \<inter> {e + 1 ..}) r"
    "zip_covers z \<inter> {e + 1 ..} \<subseteq> zip_covers r" "\<forall>x \<ge> e + 1. zip_item r x = zip_item z x"
    using take_serial_ok [of D z e g] by auto
  have later: "e + 1 \<le> x \<and> e + 1 \<le> x + 1" if "x \<in> set es" for x
  proof -
    have "e < x" "x < g" using Cons.prems(1,2) that by auto
    then show ?thesis using unat_succ [of e x] unat_succ [of x g] by (simp add: word_le_nat_alt word_less_nat_alt)
  qed
  have "take_entities es r = Inr (map (\<lambda>x. (x, zip_item r x)) es)"
    using Cons.prems r later by (intro Cons.IH [of "D \<inter> {e + 1 ..}"]) auto
  with r later show ?case by auto
qed simp

subsection \<open>Taking chunk by chunk\<close>

lemma izip_map: "fs \<noteq> [] \<Longrightarrow> izip (map (\<lambda>f. map f xs) fs) = map (\<lambda>x. map (\<lambda>f. f x) fs) xs"
proof (induction fs rule: induct_list012)
  case (3 f f' fs)
  then show ?case by (simp add: zip_map_map zip_same_conv_map comp_def)
qed (simp_all add: comp_def)

lemma into_chunk_ok:
  fixes a b :: "'w::len raw"
  assumes inv: "vec_part_inv TYPE('w) p" and ab: "a < b" and a: "vp_offset p \<le> to_primitive a"
    and dom: "{a ..< b} \<subseteq> dom (vp_map p)"
  shows "single_into_chunk_mut (a, b) p = Inr (map (\<lambda>e. the (vp_map p e)) (raw_range a b))"
proof -
  let ?i = "to_primitive a - vp_offset p" and ?j = "to_primitive b - vp_offset p"
  have ij: "?i < ?j" "vp_offset p \<le> to_primitive b" using ab a by (auto simp: to_primitive_def word_less_nat_alt)
  have ok: "slots_ok (vp_bits p) (vp_data p)" using inv vp_slots by (auto simp: vec_part_inv_def)
  have at: "vp_map p (of_nat (vp_offset p + k) :: 'w raw) = slot_value (vp_bits p) (vp_data p) k \<and>
      (of_nat (vp_offset p + k) :: 'w raw) \<in> {a ..< b}" if k: "?i \<le> k" "k < ?j" for k
  proof -
    have "unat (of_nat (vp_offset p + k) :: 'w raw) = vp_offset p + k"
      using k ij by (intro unat_of_nat_below [of _ b]) (simp add: to_primitive_def)
    then show ?thesis using k a
      by (auto simp: vp_map_def part_map_def to_primitive_def word_le_nat_alt word_less_nat_alt simp del: of_nat_add)
  qed
  have "\<forall>k. ?i \<le> k \<and> k < ?j \<longrightarrow> bit_at (vp_bits p) k"
  proof (intro allI impI)
    fix k assume k: "?i \<le> k \<and> k < ?j"
    then have "vp_map p (of_nat (vp_offset p + k) :: 'w raw) \<noteq> None" using at [of k] dom by blast
    with at [of k] k slot_value_present [OF ok] show "bit_at (vp_bits p) k" by simp
  qed
  note full = chunk_in_full [OF ok ij(1) this]
  have "map (\<lambda>k. the (slot_value (vp_bits p) (vp_data p) k)) [?i ..< ?j] = map (\<lambda>e. the (vp_map p e)) (raw_range a b)"
  proof (rule nth_equalityI)
    show "length (map (\<lambda>k. the (slot_value (vp_bits p) (vp_data p) k)) [?i ..< ?j]) =
        length (map (\<lambda>e. the (vp_map p e)) (raw_range a b))" using a ij by (simp add: to_primitive_def)
    fix n assume "n < length (map (\<lambda>k. the (slot_value (vp_bits p) (vp_data p) k)) [?i ..< ?j])"
    then have n: "n < ?j - ?i" by simp
    have "raw_range a b ! n = of_nat (vp_offset p + (?i + n))"
      using n a ij by (simp add: raw_range_def to_primitive_def)
    with n at [of "?i + n"] a ij show "map (\<lambda>k. the (slot_value (vp_bits p) (vp_data p) k)) [?i ..< ?j] ! n =
        map (\<lambda>e. the (vp_map p e)) (raw_range a b) ! n" by (simp add: to_primitive_def del: of_nat_add)
  qed
  with full a ij show ?thesis by (simp add: single_into_chunk_mut_def vec_into_chunk_mut_def)
qed

lemma zip_get_chunk_ok:
  fixes z :: "('w::len raw, 'v) zip" and zs :: "('w raw, 'v) zip list"
  shows "zip_chunked z \<Longrightarrow> zip_ok D z \<Longrightarrow> fst c < snd c \<Longrightarrow> {fst c ..< snd c} \<subseteq> D \<Longrightarrow> fst c \<in> zip_covers z \<Longrightarrow>
      \<exists>x. zip_get_chunk c z = Inr x \<and> chunk_to_entities x = map (zip_item z) (raw_range (fst c) (snd c))"
    and "list_all zip_chunked zs \<Longrightarrow> list_all (zip_ok D) zs \<Longrightarrow> fst c < snd c \<Longrightarrow> {fst c ..< snd c} \<subseteq> D \<Longrightarrow>
      fst c \<in> (\<Inter>z \<in> set zs. zip_covers z) \<Longrightarrow>
      \<exists>xs. zips_get_chunk c zs = Inr xs \<and> map chunk_to_entities xs = map (\<lambda>z. map (zip_item z) (raw_range (fst c) (snd c))) zs"
proof (induction c z and c zs rule: zip_get_chunk_zips_get_chunk.induct)
  case (1 c m s)
  then have m: "m = MustMissingResln" by (cases m) auto
  with 1 have "\<forall>e \<in> {fst c ..< snd c}. vec_map s e \<noteq> None" by auto
  with 1 vec_get_chunk_outcome [of s "fst c" "snd c"] m show ?case by (simp add: single_get_chunk_def)
next
  case (2 c m p)
  then have m: "m = MustMissingResln" by (cases m) auto
  with 2 have dom: "{fst c ..< snd c} \<subseteq> dom (vp_map p)" by auto
  let ?es = "raw_range (fst c) (snd c)"
  have "single_into_chunk_mut c p = Inr (map (\<lambda>e. the (vp_map p e)) ?es)"
    using into_chunk_ok [of p "fst c" "snd c"] 2 dom by simp
  moreover have "chunk_to_entities (WriteChunk (to_primitive (fst c)) (map (\<lambda>e. the (vp_map p e)) ?es)) =
      map (zip_item (WriteZip m (VecPart p))) ?es"
  proof (rule nth_equalityI)
    fix n assume "n < length (chunk_to_entities (WriteChunk (to_primitive (fst c)) (map (\<lambda>e. the (vp_map p e)) ?es)))"
    then have n: "n < length ?es" by simp
    then have "?es ! n \<in> {fst c ..< snd c}" using nth_mem [OF n] set_raw_range by blast
    with dom have "vp_map p (?es ! n) \<noteq> None" by blast
    then show "chunk_to_entities (WriteChunk (to_primitive (fst c)) (map (\<lambda>e. the (vp_map p e)) ?es)) ! n =
        map (zip_item (WriteZip m (VecPart p))) ?es ! n"
      using n raw_range_nth [OF n] m by (auto simp: to_primitive_def)
  qed simp
  ultimately show ?case by simp
next
  case (3 c zs)
  then obtain xs where xs: "zips_get_chunk c zs = Inr xs"
    "map chunk_to_entities xs = map (\<lambda>z. map (zip_item z) (raw_range (fst c) (snd c))) zs" by auto
  have "izip (map chunk_to_entities xs) = map (\<lambda>e. map (\<lambda>z. zip_item z e) zs) (raw_range (fst c) (snd c))"
    using izip_map [of "map zip_item zs" "raw_range (fst c) (snd c)"] 3 by (simp add: xs(2) comp_def)
  with xs(1) show ?case by (simp add: comp_def)
next
  case (6 c z zs)
  then obtain x where "zip_get_chunk c z = Inr x" "chunk_to_entities x = map (zip_item z) (raw_range (fst c) (snd c))" by auto
  moreover from 6 this(1) obtain xs where "zips_get_chunk c zs = Inr xs"
    "map chunk_to_entities xs = map (\<lambda>z. map (zip_item z) (raw_range (fst c) (snd c))) zs" by auto
  ultimately show ?case by simp
qed auto

lemma take_serial_chunk_ok:
  assumes ch: "zip_chunked z" and ok: "zip_ok D z" and c: "a < b" "{a ..< b} \<subseteq> D" and cov: "a \<in> zip_covers z" "b \<in> zip_covers z"
  shows "\<exists>x r. take_serial_chunk (a, b) z = Inr (x, r) \<and> chunk_to_entities x = map (zip_item z) (raw_range a b) \<and>
    zip_chunked r \<and> zip_ok (D \<inter> {b ..}) r \<and> zip_covers z \<inter> {b ..} \<subseteq> zip_covers r \<and>
    (\<forall>e \<ge> b. zip_item r e = zip_item z e)"
proof -
  from zip_split_ok(1) [OF ok cov(2)] obtain l r where lr: "zip_split b z = Inr (l, r)" "zip_parts D b z l r" by blast
  have "\<exists>x. zip_get_chunk (a, b) l = Inr x \<and> chunk_to_entities x = map (zip_item l) (raw_range a b)"
  proof (rule zip_get_chunk_ok(1) [of l "D \<inter> {..< b}" "(a, b)", unfolded fst_conv snd_conv])
    show "zip_chunked l" "zip_ok (D \<inter> {..< b}) l" using lr(2) ch by (simp_all add: zip_parts_def)
    show "a < b" "{a ..< b} \<subseteq> D \<inter> {..< b}" using c by auto
    show "a \<in> zip_covers l" using lr(2) cov(1) c(1) by (auto simp: zip_parts_def)
  qed
  moreover have "map (zip_item l) (raw_range a b) = map (zip_item z) (raw_range a b)"
    using lr(2) by (auto simp: zip_parts_def set_raw_range)
  ultimately show ?thesis using lr ch by (auto simp: take_serial_chunk_def zip_parts_def)
qed

text \<open>Chunks in order: each ends before the next starts.\<close>

lemma take_chunks_ok:
  assumes "separated cs" and "zip_chunked z" and "zip_ok D z" and "set (chunk_ids cs) \<subseteq> D"
    and "\<forall>(a, b) \<in> set cs. a \<in> zip_covers z \<and> b \<in> zip_covers z"
  shows "\<exists>xs. take_chunks cs z = Inr xs \<and> concat (map chunk_items xs) = map (\<lambda>e. (e, zip_item z e)) (chunk_ids cs)"
  using assms
proof (induction cs arbitrary: D z)
  case (Cons c cs)
  obtain a b where c: "c = (a, b)" by (cases c)
  with Cons.prems have ab: "a < b" "{a ..< b} \<subseteq> D" "a \<in> zip_covers z" "b \<in> zip_covers z" "set (chunk_ids cs) \<subseteq> D"
    by (auto simp: separated_def set_raw_range)
  from take_serial_chunk_ok [OF Cons.prems(2,3) ab(1-4)] obtain x r where
    x: "take_serial_chunk (a, b) z = Inr (x, r)" "chunk_to_entities x = map (zip_item z) (raw_range a b)"
    "zip_chunked r" "zip_ok (D \<inter> {b ..}) r" "zip_covers z \<inter> {b ..} \<subseteq> zip_covers r" "\<forall>e \<ge> b. zip_item r e = zip_item z e"
    by blast
  have later: "b \<le> s \<and> b \<le> t" if "(s, t) \<in> set cs" for s t
    using Cons.prems(1) that unfolding separated_def c by fastforce
  then have ids: "\<forall>e \<in> set (chunk_ids cs). b \<le> e"
    by (fastforce simp: chunk_ids_def set_raw_range intro: order_trans)
  have "separated cs" using Cons.prems(1) by (simp add: separated_def)
  moreover have "\<forall>(s, t) \<in> set cs. s \<in> zip_covers r \<and> t \<in> zip_covers r" using Cons.prems(5) later x(5) by fastforce
  ultimately obtain xs where "take_chunks cs r = Inr xs" "concat (map chunk_items xs) = map (\<lambda>e. (e, zip_item r e)) (chunk_ids cs)"
    using Cons.IH [of r "D \<inter> {b ..}"] x(3,4) ab(5) ids by auto
  moreover have "map (\<lambda>e. (e, zip_item r e)) (chunk_ids cs) = map (\<lambda>e. (e, zip_item z e)) (chunk_ids cs)"
    using x(6) ids by simp
  moreover have "chunk_items ((a, b), x) = map (\<lambda>e. (e, zip_item z e)) (raw_range a b)"
    by (simp add: chunk_items_def x(2) zip_map2 zip_same_conv_map)
  ultimately show ?case using x(1) by (simp add: c)
qed simp

subsection \<open>Arguments of the iterators\<close>

text \<open>What an iterator owes for an entity: read from the storages, a reference to the entity's own cell.\<close>

fun zippable_item :: "('w::len raw, 'v) zippable \<Rightarrow> 'w raw \<Rightarrow> 'v item" where
  "zippable_item (Shared m s) e = ReadItem (resolved m (store_map s e))"
| "zippable_item (Exclusive m s) e = WriteItem (resolved m (map_option (Pair (to_primitive e)) (store_map s e)))"
| "zippable_item (Tuple zs) e = TupleItem (map (\<lambda>z. zippable_item z e) zs)"

fun zippable_ok :: "'w::len raw set \<Rightarrow> ('w raw, 'v) zippable \<Rightarrow> bool" where
  "zippable_ok D (Shared m s) = (store_inv s \<and> (m = MustMissingResln \<longrightarrow> D \<subseteq> dom (store_map s)))"
| "zippable_ok D (Exclusive m s) = (store_inv s \<and> (m = MustMissingResln \<longrightarrow> D \<subseteq> dom (store_map s)))"
| "zippable_ok D (Tuple zs) = list_all (zippable_ok D) zs"

fun zippable_vec :: "('e, 'v) zippable \<Rightarrow> bool" where
  "zippable_vec (Exclusive m (TreeRef s)) = False"
| "zippable_vec (Tuple zs) = list_all zippable_vec zs"
| "zippable_vec _ = True"

lemma into_zip_ok:
  assumes "zippable_ok D zs"
  shows "zip_ok D (into_zip zs) \<and> zip_covers (into_zip zs) = UNIV \<and> zip_item (into_zip zs) = zippable_item zs"
  using assms
proof (induction zs rule: into_zip.induct)
  case (3 zs)
  then have "\<forall>z \<in> set zs. zip_ok D (into_zip z) \<and> zip_covers (into_zip z) = UNIV \<and> zip_item (into_zip z) = zippable_item z"
    by (auto simp: list_all_iff)
  then show ?case by (auto simp: list_all_iff fun_eq_iff)
qed (auto simp: as_partition_ok fun_eq_iff)

lemma into_zip_vec: "zippable_vec zs \<Longrightarrow> zip_vec (into_zip zs)"
proof (induction zs rule: into_zip.induct)
  case (2 m s)
  then show ?case by (cases s) auto
qed (auto simp: list_all_iff)

definition live_entities :: "'w::len raw snapshot \<Rightarrow> 'w raw list" where
  "live_entities sn = filter (\<lambda>x. x \<notin> sn_recyclable sn) (raw_range 1 (gauge sn))"

lemma live_entities_bounds: "e \<in> set (live_entities sn) \<Longrightarrow> e \<noteq> 0 \<and> e < gauge sn"
  by (auto simp: live_entities_def set_raw_range word_le_nat_alt)

lemma sorted_live_entities: "sorted_wrt (<) (live_entities sn)"
  unfolding live_entities_def by (rule sorted_wrt_filter) (rule sorted_raw_range)

lemma entities_with_outcome:
  assumes "snapshot_wf sn" and "zippable_ok (set (live_entities sn)) zs"
  shows "entities_with sn zs = Inr (map (\<lambda>e. (e, zippable_item zs e)) (live_entities sn))"
proof -
  from iter_allocated_chunks_outcome [OF assms(1)] obtain cs where
    cs: "iter_allocated_chunks sn = Inr cs" "chunk_ids cs = live_entities sn" by (auto simp: live_entities_def)
  note z = into_zip_ok [OF assms(2)]
  have "take_entities (live_entities sn) (into_zip zs) =
      Inr (map (\<lambda>e. (e, zip_item (into_zip zs) e)) (live_entities sn))"
    using z live_entities_bounds by (intro take_entities_ok [of _ "gauge sn" "set (live_entities sn)"] sorted_live_entities) auto
  with cs z show ?thesis by (simp add: entities_with_def)
qed

lemma entities_with_chunked_outcome:
  assumes "snapshot_wf sn" and "zippable_ok (set (live_entities sn)) zs" and "zip_chunked (into_zip zs)"
  shows "entities_with_chunked sn zs = Inr (map (\<lambda>e. (e, zippable_item zs e)) (live_entities sn))"
proof -
  from iter_allocated_chunks_outcome [OF assms(1)] obtain cs where
    cs: "iter_allocated_chunks sn = Inr cs" "separated cs" "chunk_ids cs = live_entities sn" by (auto simp: live_entities_def)
  note z = into_zip_ok [OF assms(2)]
  from take_chunks_ok [OF cs(2) assms(3), of "set (live_entities sn)"] z cs(3) obtain xs where
    "take_chunks cs (into_zip zs) = Inr xs"
    "concat (map chunk_items xs) = map (\<lambda>e. (e, zip_item (into_zip zs) e)) (live_entities sn)" by auto
  with cs z show ?thesis by (simp add: entities_with_chunked_def chunks_with_def)
qed

subsection \<open>Parallel iteration\<close>

lemma take_entities_ids: "take_entities es z = Inr xs \<Longrightarrow> map fst xs = es"
proof (induction es arbitrary: z xs)
  case (Cons e es)
  then obtain i z' where s: "take_serial e z = Inr (i, z')" by (cases "take_serial e z") auto
  with Cons.prems obtain ys where "take_entities es z' = Inr ys" "xs = (e, i) # ys"
    by (cases "take_entities es z'") auto
  with Cons.IH show ?case by simp
qed simp

text \<open>A split of a piece of work: nothing, or two halves of the slice with the halves of the zip.\<close>

lemma split_raw_chunk_Inr:
  assumes "slice_wf sl" and "split_raw_chunk (sl, z) = Inr (q, q')"
  obtains "q = (sl, z)" "q' = None"
  | m l r where "q = (sl\<lparr>sl_end := m\<rparr>, l)" "q' = Some (sl\<lparr>sl_start := m\<rparr>, r)" "zip_split m z = Inr (l, r)"
      "sl_start sl < m" "m < sl_end sl" "slice_wf (sl\<lparr>sl_end := m\<rparr>)" "slice_wf (sl\<lparr>sl_start := m\<rparr>)"
proof -
  from assms(2) obtain o' where o': "midpoint_for_split sl = Inr o'"
    by (cases "midpoint_for_split sl") (auto simp: split_raw_chunk_def)
  show ?thesis
  proof (cases o')
    case None
    with o' assms(2) that(1) show ?thesis by (auto simp: split_raw_chunk_def)
  next
    case (Some m)
    with o' assms(2) obtain l r where lr: "zip_split m z = Inr (l, r)"
      by (cases "zip_split m z") (auto simp: split_raw_chunk_def split_at_def)
    have b: "sl_start sl < m" "m < sl_end sl" using midpoint_for_split_Some [OF assms(1)] o' Some by auto
    then have "slice_wf (sl\<lparr>sl_end := m\<rparr>)" "slice_wf (sl\<lparr>sl_start := m\<rparr>)"
      using assms(1) by (auto simp: slice_wf_def)
    with that(2) [of m l r] lr b o' Some assms(2) show ?thesis by (auto simp: split_raw_chunk_def split_at_def)
  qed
qed

definition piece_items :: "'w::len raw slice \<times> ('w raw, 'v) zip \<Rightarrow> ('w raw \<times> 'v item) list res" where
  "piece_items q = take_entities (raw_range (sl_start (fst q)) (sl_end (fst q))) (snd q)"

lemma par_entities_with_pieces:
  "par_entities_with plan sn zs =
     bind_res (par_raw_chunks plan sn zs) (\<lambda>qs. bind_res (map_res piece_items qs) (\<lambda>xss. Inr (concat xss)))"
  by (simp add: par_entities_with_def piece_items_def [abs_def] case_prod_unfold)

lemma par_pieces_ids:
  assumes "slice_wf sl" and "par_split plan split_raw_chunk (sl, z) = Inr qs" and "map_res piece_items qs = Inr xss"
  shows "map fst (concat xss) = raw_range (sl_start sl) (sl_end sl)"
  using assms
proof (induction plan arbitrary: sl z qs xss)
  case Whole
  then obtain xs where "piece_items (sl, z) = Inr xs" "xss = [xs]" by (cases "piece_items (sl, z)") auto
  then show ?case using take_entities_ids by (fastforce simp: piece_items_def)
next
  case (Halves pl pr)
  from Halves.prems(2) obtain q q' where s: "split_raw_chunk (sl, z) = Inr (q, q')"
    by (cases "split_raw_chunk (sl, z)") auto
  from Halves.prems(1) s show ?case
  proof (cases rule: split_raw_chunk_Inr)
    case 1
    with Halves.prems s obtain xs where "piece_items (sl, z) = Inr xs" "xss = [xs]"
      by (cases "piece_items (sl, z)") auto
    then show ?thesis using take_entities_ids by (fastforce simp: piece_items_def)
  next
    case (2 m l r)
    with Halves.prems(2) s obtain qs1 qs2 where qs: "par_split pl split_raw_chunk (sl\<lparr>sl_end := m\<rparr>, l) = Inr qs1"
      "par_split pr split_raw_chunk (sl\<lparr>sl_start := m\<rparr>, r) = Inr qs2" "qs = qs1 @ qs2"
      by (cases "par_split pl split_raw_chunk (sl\<lparr>sl_end := m\<rparr>, l)";
          cases "par_split pr split_raw_chunk (sl\<lparr>sl_start := m\<rparr>, r)") auto
    with Halves.prems(3) obtain xs1 xs2 where xs: "map_res piece_items qs1 = Inr xs1" "map_res piece_items qs2 = Inr xs2"
      "xss = xs1 @ xs2"
      by (cases "map_res piece_items qs1"; cases "map_res piece_items qs2") (auto simp: map_res_append)
    from Halves.IH(1) [OF 2(6) qs(1) xs(1)] Halves.IH(2) [OF 2(7) qs(2) xs(2)] xs(3) 2(4,5)
    show ?thesis by (simp add: raw_range_append)
  qed
qed

lemma midpoint_returns:
  fixes sl :: "'w::len raw slice"
  assumes "slice_wf sl" and "2 * unat (sl_end sl) < 2 ^ LENGTH('w)"
  shows "\<exists>m. midpoint_for_split sl = Inr m"
proof -
  have "unat (sl_start sl) + unat (sl_end sl) < 2 ^ LENGTH('w)"
    using assms by (simp add: slice_wf_def word_le_nat_alt)
  with split_slice_total [OF assms(1)] show ?thesis
    by (cases "midpoint_for_split sl") (auto simp: split_slice_def)
qed

lemma piece_items_ok:
  assumes "slice_wf sl" and "zip_ok {sl_start sl ..< sl_end sl} z" and "{sl_start sl .. sl_end sl} \<subseteq> zip_covers z"
  shows "piece_items (sl, z) = Inr (map (\<lambda>e. (e, zip_item z e)) (raw_range (sl_start sl) (sl_end sl)))"
proof -
  have "e \<noteq> 0 \<and> e < sl_end sl \<and> e \<in> zip_covers z \<and> e + 1 \<in> zip_covers z" if e: "e \<in> {sl_start sl ..< sl_end sl}" for e
  proof -
    have "unat (e + 1) = unat e + 1" using e by (intro unat_succ [of e "sl_end sl"]) simp
    then have "e + 1 \<in> {sl_start sl .. sl_end sl}" "e \<in> {sl_start sl .. sl_end sl}" "e \<noteq> 0"
      using e assms(1) by (auto simp: word_le_nat_alt word_less_nat_alt slice_wf_def unat_eq_0)
    with assms(3) e show ?thesis by auto
  qed
  then show ?thesis
    using assms(2) unfolding piece_items_def fst_conv snd_conv
    by (intro take_entities_ok [of _ "sl_end sl" "{sl_start sl ..< sl_end sl}"] sorted_raw_range) (auto simp: set_raw_range)
qed

lemma par_pieces_ok:
  fixes sl :: "'w::len raw slice"
  assumes "slice_wf sl" and "zip_ok {sl_start sl ..< sl_end sl} z" and "{sl_start sl .. sl_end sl} \<subseteq> zip_covers z"
    and "zip_vec z" and "2 * unat (sl_end sl) < 2 ^ LENGTH('w)"
  shows "\<exists>qs xss. par_split plan split_raw_chunk (sl, z) = Inr qs \<and> map_res piece_items qs = Inr xss \<and>
    concat xss = map (\<lambda>e. (e, zip_item z e)) (raw_range (sl_start sl) (sl_end sl))"
  using assms
proof (induction plan arbitrary: sl z)
  case Whole
  then show ?case by (simp add: piece_items_ok)
next
  case (Halves pl pr)
  obtain o' where o': "midpoint_for_split sl = Inr o'" using midpoint_returns [OF Halves.prems(1,5)] by blast
  show ?case
  proof (cases o')
    case None
    with o' Halves.prems show ?thesis by (simp add: piece_items_ok split_raw_chunk_def)
  next
    case (Some m)
    let ?L = "sl\<lparr>sl_end := m\<rparr>" and ?R = "sl\<lparr>sl_start := m\<rparr>"
    have b: "sl_start sl < m" "m < sl_end sl" using midpoint_for_split_Some [OF Halves.prems(1)] o' Some by auto
    then have wf: "slice_wf ?L" "slice_wf ?R" using Halves.prems(1) by (auto simp: slice_wf_def)
    have "m \<in> zip_covers z" using b by (intro subsetD [OF Halves.prems(3)]) (simp add: less_imp_le)
    from zip_split_ok(1) [OF Halves.prems(2) this] obtain l r where
      lr: "zip_split m z = Inr (l, r)" "zip_parts {sl_start sl ..< sl_end sl} m z l r" by blast
    have D: "{sl_start sl ..< sl_end sl} \<inter> {..< m} = {sl_start sl ..< m}" "{sl_start sl ..< sl_end sl} \<inter> {m ..} = {m ..< sl_end sl}"
      using b by auto
    have inside: "{sl_start sl .. m} \<subseteq> {sl_start sl .. sl_end sl}"
      "{m .. sl_end sl} \<subseteq> {sl_start sl .. sl_end sl} \<inter> {m ..}"
      using b by (auto intro: order_trans less_imp_le)
    have small: "2 * unat m < 2 ^ LENGTH('w)" using Halves.prems(5) b(2) by (simp add: word_less_nat_alt)
    have parts: "zip_ok {sl_start sl ..< m} l" "zip_vec l" "zip_covers z \<subseteq> zip_covers l"
      "zip_ok {m ..< sl_end sl} r" "zip_vec r" "zip_covers z \<inter> {m ..} \<subseteq> zip_covers r"
      using lr(2) Halves.prems(4) unfolding zip_parts_def D by blast+
    have left: "{sl_start sl .. m} \<subseteq> zip_covers l" using inside(1) Halves.prems(3) parts(3) by (meson order_trans)
    have right: "{m .. sl_end sl} \<subseteq> zip_covers r" using inside(2) Halves.prems(3) parts(6) by (meson Int_mono order_refl order_trans)
    from Halves.IH(1) [OF wf(1), of l] parts(1,2) left small obtain qs1 xs1 where
      1: "par_split pl split_raw_chunk (?L, l) = Inr qs1" "map_res piece_items qs1 = Inr xs1"
      "concat xs1 = map (\<lambda>e. (e, zip_item l e)) (raw_range (sl_start sl) m)" by auto
    from Halves.IH(2) [OF wf(2), of r] parts(4,5) right Halves.prems(5) obtain qs2 xs2 where
      2: "par_split pr split_raw_chunk (?R, r) = Inr qs2" "map_res piece_items qs2 = Inr xs2"
      "concat xs2 = map (\<lambda>e. (e, zip_item r e)) (raw_range m (sl_end sl))" by auto
    have "split_raw_chunk (sl, z) = Inr ((?L, l), Some (?R, r))"
      using o' Some lr(1) by (simp add: split_raw_chunk_def split_at_def)
    moreover have "map (\<lambda>e. (e, zip_item l e)) (raw_range (sl_start sl) m) = map (\<lambda>e. (e, zip_item z e)) (raw_range (sl_start sl) m)"
      "map (\<lambda>e. (e, zip_item r e)) (raw_range m (sl_end sl)) = map (\<lambda>e. (e, zip_item z e)) (raw_range m (sl_end sl))"
      using lr(2) by (auto simp: zip_parts_def set_raw_range)
    moreover have "raw_range (sl_start sl) (sl_end sl) = raw_range (sl_start sl) m @ raw_range m (sl_end sl)"
      using b by (simp add: raw_range_append)
    ultimately show ?thesis using 1 2 by (simp add: map_res_append)
  qed
qed

lemma as_slice_ok:
  assumes "snapshot_wf sn"
  shows "as_slice sn = Inr \<lparr>sl_start = 1, sl_end = gauge sn, sl_recyclable = sn_recyclable sn\<rparr>"
    and "slice_wf \<lparr>sl_start = 1, sl_end = gauge sn, sl_recyclable = sn_recyclable sn\<rparr>"
  using assms by (auto simp: as_slice_def slice_wf_def snapshot_wf_def word_le_nat_alt Suc_le_eq unat_gt_0)

lemma par_entities_with_outcome:
  fixes sn :: "'w::len raw snapshot"
  assumes sn: "snapshot_wf sn" "sn_recyclable sn = {}" and zs: "zippable_ok (set (live_entities sn)) zs" "zippable_vec zs"
    and small: "2 * unat (gauge sn) < 2 ^ LENGTH('w)"
  shows "par_entities_with plan sn zs = Inr (map (\<lambda>e. (e, zippable_item zs e)) (live_entities sn))"
proof -
  have live: "live_entities sn = raw_range 1 (gauge sn)" by (simp add: live_entities_def sn(2))
  then have ok: "zip_ok {1 ..< gauge sn} (into_zip zs)" and z: "zip_covers (into_zip zs) = UNIV" "zip_item (into_zip zs) = zippable_item zs"
    using into_zip_ok [OF zs(1)] by (simp_all add: set_raw_range)
  from par_pieces_ok [OF as_slice_ok(2) [OF sn(1)], of "into_zip zs" plan] ok z into_zip_vec [OF zs(2)] small
  show ?thesis by (auto simp: par_entities_with_pieces par_raw_chunks_def as_slice_ok(1) [OF sn(1)] live)
qed

text \<open>A tree partition cannot be split at its upper bound, but taking its last entity does just that.\<close>

lemma tree_piece_panics:
  assumes "tp_upper p = Some b" and "s < b" and "s \<noteq> 0" and "\<forall>l. tp_lower p = Some l \<longrightarrow> l \<le> s"
  shows "take_entities (raw_range s b) (WriteZip TryMissingResln (TreePart p)) = Inl OutsidePartition"
  using assms
proof (induction "unat b - unat s" arbitrary: s p)
  case 0
  then show ?case by (simp add: word_less_nat_alt)
next
  case (Suc n)
  let ?s = "s + 1"
  have s: "raw_add s 1 = Inr ?s" "unat ?s = unat s + 1" using raw_succ [OF Suc.prems(3,2)] .
  note range = raw_range_Cons [OF Suc.prems(2)]
  have lower: "in_bounds p s" using Suc.prems by (auto simp: in_bounds_def split: option.splits)
  have next_in: "in_bounds p ?s \<longleftrightarrow> ?s < b"
    using Suc.prems(1,4) s(2) by (auto simp: in_bounds_def word_le_nat_alt split: option.splits)
  show ?case
  proof (cases "?s < b")
    case False
    with next_in s(1) show ?thesis
      by (simp add: range take_serial_def tree_split_out_def assert_bounds_def assert_res_def del: One_nat_def)
  next
    case True
    let ?l = "p\<lparr>tp_upper := Some ?s\<rparr>" and ?r = "\<lparr>tp_data = tp_data p, tp_lower = Some ?s, tp_upper = tp_upper p\<rparr>"
    have split: "tree_split_out ?s p = Inr (?l, ?r)"
      using True next_in by (simp add: tree_split_out_def assert_bounds_def assert_res_def)
    have "in_bounds ?l s" using lower s(2) by (simp add: in_bounds_def word_less_nat_alt)
    then obtain x where "zip_get s (WriteZip TryMissingResln (TreePart ?l)) = Inr x"
      by (simp add: tree_into_mut_def assert_bounds_def assert_res_def)
    with split s(1) have "take_serial s (WriteZip TryMissingResln (TreePart p)) = Inr (x, WriteZip TryMissingResln (TreePart ?r))"
      by (simp add: take_serial_def del: One_nat_def)
    moreover have "take_entities (raw_range ?s b) (WriteZip TryMissingResln (TreePart ?r)) = Inl OutsidePartition"
      using Suc.hyps(2) Suc.prems(1) True s(2) by (intro Suc.hyps(1)) (auto simp: word_less_nat_alt unat_eq_0)
    ultimately show ?thesis by (simp add: range)
  qed
qed

lemma tree_par_panics:
  assumes sn: "snapshot_wf sn"
    and mid: "midpoint_for_split \<lparr>sl_start = 1, sl_end = gauge sn, sl_recyclable = sn_recyclable sn\<rparr> = Inr (Some m)"
  shows "par_entities_with (Halves Whole Whole) sn (Exclusive TryMissingResln (TreeRef t)) = Inl OutsidePartition"
proof -
  have m: "1 < m" "m < gauge sn" using midpoint_for_split_Some [OF as_slice_ok(2) [OF sn] mid] by auto
  let ?p = "tree_as_partition t"
  have "tree_split_out m ?p = Inr (?p\<lparr>tp_upper := Some m\<rparr>, \<lparr>tp_data = t, tp_lower = Some m, tp_upper = None\<rparr>)"
    by (simp add: tree_split_out_def assert_bounds_def assert_res_def in_bounds_def tree_as_partition_def)
  moreover have "take_entities (raw_range 1 m) (WriteZip TryMissingResln (TreePart (?p\<lparr>tp_upper := Some m\<rparr>))) = Inl OutsidePartition"
    using m by (intro tree_piece_panics) (auto simp: tree_as_partition_def)
  ultimately show ?thesis
    using mid by (simp add: par_entities_with_def par_raw_chunks_def as_slice_ok(1) [OF sn] split_raw_chunk_def split_at_def)
qed

subsection \<open>Properties\<close>

text \<open>
  C39. Serial iteration is exact, by entity and by chunk. For a snapshot whose recyclable identifiers
  are below its gauge, and any nesting of tuples of shared and exclusive accessors, of vector and tree
  storages, whose \<open>Must\<close> components every live entity has, \<open>entities_with\<close> does not panic and yields
  each live entity once, in increasing order, with what its storages hold for it; an exclusive
  accessor yields a reference to the cell of that very entity, so no two items alias. When all
  storages are chunked, \<open>entities_with_chunked\<close> yields the same. Vector storages must have as many
  slots as bits, which the removal of an absent component breaks.
\<close>

theorem serial_iteration_exact:
  assumes "snapshot_wf sn" and "zippable_ok (set (live_entities sn)) zs"
  shows "entities_with sn zs = Inr (map (\<lambda>e. (e, zippable_item zs e)) (live_entities sn)) \<and>
    distinct (live_entities sn) \<and>
    (zip_chunked (into_zip zs) \<longrightarrow> entities_with_chunked sn zs = entities_with sn zs)"
  using entities_with_outcome [OF assms] entities_with_chunked_outcome [OF assms]
    sorted_live_entities [of sn] by (auto simp: strict_sorted_iff)

text \<open>Two live entities and a hole; their components in a vector and in a tree.\<close>

definition iter_sn :: "8 raw snapshot" where
  "iter_sn = \<lparr>gauge = 4, sn_recyclable = {2}\<rparr>"

definition iter_vec :: "nat vec_storage" where
  "iter_vec = \<lparr>vs_cardinality = 2, vs_bits = [False, True, False, True], vs_data = [None, Some 10, None, Some 30]\<rparr>"

definition iter_zs :: "(8 raw, nat) zippable" where
  "iter_zs = Tuple [Exclusive MustMissingResln (VecRef iter_vec),
     Exclusive TryMissingResln (TreeRef (fmap_of_list [(3, 33)]))]"

lemma iter_live: "live_entities iter_sn = [1, 3]"
  by code_simp

theorem serial_iteration_exact_witness:
  "entities_with iter_sn iter_zs =
     Inr [(1, TupleItem [WriteItem (MustHave (1, 10)), WriteItem (MayHave None)]),
          (3, TupleItem [WriteItem (MustHave (3, 30)), WriteItem (MayHave (Some (3, 33)))])]"
proof -
  have "snapshot_wf iter_sn" by (auto simp: snapshot_wf_def iter_sn_def)
  moreover have "vec_inv TYPE(8) iter_vec" by code_simp
  then have "zippable_ok (set (live_entities iter_sn)) iter_zs"
    by (simp add: iter_live iter_zs_def) (simp add: iter_vec_def vec_map_def slot_value_def bit_at_def list_get_def to_primitive_def domIff)
  ultimately have "entities_with iter_sn iter_zs = Inr (map (\<lambda>e. (e, zippable_item iter_zs e)) [1, 3])"
    using serial_iteration_exact [of iter_sn iter_zs] by (simp add: iter_live)
  moreover have "map (\<lambda>e. (e, zippable_item iter_zs e)) [1, 3] =
      [(1, TupleItem [WriteItem (MustHave (1, 10)), WriteItem (MayHave None)]),
       (3, TupleItem [WriteItem (MustHave (3, 30)), WriteItem (MayHave (Some (3, 33)))])]" by code_simp
  ultimately show ?thesis by simp
qed

text \<open>
  C40. Parallel iteration over a snapshot agrees with serial iteration when the snapshot has no holes:
  however the work is divided, \<open>par_entities_with\<close> over vector storages yields what \<open>entities_with\<close>
  yields, if twice the gauge fits the width of the identifiers. In general it walks whole slices: if
  it returns, it has visited every identifier below the gauge, those of deleted entities included.
\<close>

theorem parallel_iteration_agrees:
  fixes sn :: "'w::len raw snapshot"
  assumes "snapshot_wf sn"
  shows "(sn_recyclable sn = {} \<and> zippable_ok (set (live_entities sn)) zs \<and> zippable_vec zs \<and>
      2 * unat (gauge sn) < 2 ^ LENGTH('w) \<longrightarrow> par_entities_with plan sn zs = entities_with sn zs) \<and>
    (par_entities_with plan sn zs = Inr xs \<longrightarrow> map fst xs = raw_range 1 (gauge sn))"
proof (intro conjI impI)
  assume "sn_recyclable sn = {} \<and> zippable_ok (set (live_entities sn)) zs \<and> zippable_vec zs \<and>
    2 * unat (gauge sn) < 2 ^ LENGTH('w)"
  then show "par_entities_with plan sn zs = entities_with sn zs"
    using par_entities_with_outcome [OF assms, of zs plan] entities_with_outcome [OF assms, of zs] by simp
next
  assume xs: "par_entities_with plan sn zs = Inr xs"
  then obtain qs where qs: "par_raw_chunks plan sn zs = Inr qs"
    by (cases "par_raw_chunks plan sn zs") (auto simp: par_entities_with_pieces)
  with xs obtain xss where xss: "map_res piece_items qs = Inr xss" "xs = concat xss"
    by (cases "map_res piece_items qs") (auto simp: par_entities_with_pieces)
  from par_pieces_ids [OF as_slice_ok(2) [OF assms] _ xss(1)] qs
  show "map fst xs = raw_range 1 (gauge sn)"
    by (simp add: par_raw_chunks_def as_slice_ok(1) [OF assms] xss(2))
qed

theorem parallel_iteration_agrees_witness:
  "\<exists>xs. par_entities_with (Halves Whole Whole) iter_sn (Shared TryMissingResln (VecRef iter_vec)) = Inr xs \<and>
     2 \<in> fst ` set xs \<and> 2 \<in> sn_recyclable iter_sn"
proof -
  have sn: "snapshot_wf iter_sn" by (auto simp: snapshot_wf_def iter_sn_def)
  have "\<not> isl (par_entities_with (Halves Whole Whole) iter_sn (Shared TryMissingResln (VecRef iter_vec)))" by code_simp
  then obtain xs where xs: "par_entities_with (Halves Whole Whole) iter_sn (Shared TryMissingResln (VecRef iter_vec)) = Inr xs"
    by (cases "par_entities_with (Halves Whole Whole) iter_sn (Shared TryMissingResln (VecRef iter_vec))") simp_all
  with parallel_iteration_agrees [OF sn, of "Shared TryMissingResln (VecRef iter_vec)" "Halves Whole Whole" xs]
  have "map fst xs = raw_range 1 4" by (simp add: iter_sn_def)
  moreover have "(2 :: 8 raw) \<in> set (raw_range 1 4)" by code_simp
  ultimately have "2 \<in> fst ` set xs" by (metis list.set_map)
  with xs show ?thesis by (simp add: iter_sn_def)
qed

end
