(* ===== verification/Isotope_Access.thy ===== *)
theory Isotope_Access
  imports Access_Laws Discrim
begin

section \<open>Accessors of isotopes\<close>

text \<open>
  \<open>src/system/access/isotope.rs\<close> and the storage maps of \<open>src/world/rw/isotope\<close> behind it. An accessor
  for all discriminants is keyed by the discriminant and adds what it does not know yet; one for some
  discriminants is keyed by the position in their list. The storages themselves are those of the
  store; what an accessor holds are guards.
\<close>

datatype iso_kind = FullIso | PartialIso "nat list"

record 't iso_access =
  ia_arch :: 't
  ia_comp :: 't
  ia_mutable :: bool
  ia_kind :: iso_kind
  ia_held :: "'t guard list"

subsection \<open>Storage maps\<close>

text \<open>\<open>StorageMap::get_storage\<close> and \<open>get_storage_mut\<close>: the discriminant whose storage is returned.\<close>

definition iso_get_storage :: "'l rw_ops \<Rightarrow> ('t, 'v) init_strategy \<Rightarrow> 'w::len raw chunk list res \<Rightarrow> nat \<Rightarrow> 't iso_access
    \<Rightarrow> ('t, 'v, 'l) store \<Rightarrow> (nat \<times> 't iso_access \<times> ('t, 'v, 'l) store) res" where
  "iso_get_storage ops strategy entities key ia st =
     (case ia_kind ia of
        PartialIso ds \<Rightarrow> bind_res (partial_get_storage ds key) (\<lambda>d. Inr (d, ia, st))
      | FullIso \<Rightarrow>
          bind_res (full_get_storage ops strategy entities (ia_mutable ia) (ia_arch ia) (ia_comp ia) key (ia_held ia) st)
            (\<lambda>(gs, st'). Inr (key, ia\<lparr>ia_held := ia_held ia @ gs\<rparr>, st')))"

fun iso_get_each :: "'l rw_ops \<Rightarrow> ('t, 'v) init_strategy \<Rightarrow> 'w::len raw chunk list res \<Rightarrow> nat list \<Rightarrow> 't iso_access
    \<Rightarrow> ('t, 'v, 'l) store \<Rightarrow> (nat list \<times> 't iso_access \<times> ('t, 'v, 'l) store) res" where
  "iso_get_each ops strategy entities [] ia st = Inr ([], ia, st)"
| "iso_get_each ops strategy entities (key # keys) ia st =
     bind_res (iso_get_storage ops strategy entities key ia st) (\<lambda>(d, ia1, st1).
     bind_res (iso_get_each ops strategy entities keys ia1 st1) (\<lambda>(ds, ia2, st2). Inr (d # ds, ia2, st2)))"

text \<open>
  \<open>get_storage_many\<close> and \<open>get_storage_mut_many\<close>: an accessor for all discriminants first adds those
  it does not know; then the references are taken one by one, and equal keys are refused.
\<close>

definition iso_get_storage_many :: "'l rw_ops \<Rightarrow> ('t, 'v) init_strategy \<Rightarrow> 'w::len raw chunk list res \<Rightarrow> nat list \<Rightarrow> 't iso_access
    \<Rightarrow> ('t, 'v, 'l) store \<Rightarrow> (nat list \<times> 't iso_access \<times> ('t, 'v, 'l) store) res" where
  "iso_get_storage_many ops strategy entities keys ia st =
     (case ia_kind ia of
        PartialIso ds \<Rightarrow>
          bind_res (mapped_get_mut_array_by keys (set_map (\<lambda>d. d) ds)) (\<lambda>slots. Inr (map ((!) ds) slots, ia, st))
      | FullIso \<Rightarrow>
          bind_res (iso_get_each ops strategy entities keys ia st) (\<lambda>(ds, ia', st').
          bind_res (split_mut_array (\<lambda>k. Inr (Some k)) ds (\<lambda>_ d. Inr d) (\<lambda>_. MissingKey)) (\<lambda>ds'.
          Inr (ds', ia', st'))))"

text \<open>\<open>iter_keys\<close>: the key and the discriminant of each storage.\<close>

fun guard_discrim :: "'t \<Rightarrow> 't \<Rightarrow> 't guard \<Rightarrow> nat option" where
  "guard_discrim a c (ReadGuard (IsotopeLock b e d)) = (if a = b \<and> c = e then Some d else None)"
| "guard_discrim a c (WriteGuard (IsotopeLock b e d)) = (if a = b \<and> c = e then Some d else None)"
| "guard_discrim a c _ = None"

definition iso_iter_keys :: "'t iso_access \<Rightarrow> (nat \<times> nat) list" where
  "iso_iter_keys ia =
     (case ia_kind ia of
        PartialIso ds \<Rightarrow> map (\<lambda>(key, d, _). (key, d)) (mapped_iter (set_map (\<lambda>d. d) ds))
      | FullIso \<Rightarrow> map (\<lambda>d. (d, d)) (List.map_filter (guard_discrim (ia_arch ia) (ia_comp ia)) (ia_held ia)))"

text \<open>The storage behind a reference; a discriminant that is locked has one.\<close>

definition iso_storage :: "'t iso_access \<Rightarrow> nat \<Rightarrow> ('t, 'v, 'l) store \<Rightarrow> (nat, 'v) fmap res" where
  "iso_storage ia d st = bind_res (storage_map (ia_arch ia) (ia_comp ia) st) (\<lambda>m. expect Unreachable (map_of m d))"

subsection \<open>\<open>AccessIsotope\<close>\<close>

definition iso_try_get :: "'l rw_ops \<Rightarrow> ('t, 'v) init_strategy \<Rightarrow> 'w::len raw chunk list res \<Rightarrow> nat \<Rightarrow> nat \<Rightarrow> 't iso_access
    \<Rightarrow> ('t, 'v, 'l) store \<Rightarrow> ('v option \<times> 't iso_access \<times> ('t, 'v, 'l) store) res" where
  "iso_try_get ops strategy entities e key ia st =
     bind_res (iso_get_storage ops strategy entities key ia st) (\<lambda>(d, ia', st').
     bind_res (iso_storage ia' d st') (\<lambda>storage. Inr (fmlookup storage e, ia', st')))"

definition iso_get :: "'l rw_ops \<Rightarrow> ('t, 'v) init_strategy \<Rightarrow> 'w::len raw chunk list res \<Rightarrow> nat \<Rightarrow> nat \<Rightarrow> 't iso_access
    \<Rightarrow> ('t, 'v, 'l) store \<Rightarrow> ('v \<times> 't iso_access \<times> ('t, 'v, 'l) store) res" where
  "iso_get ops strategy entities e key ia st =
     bind_res (iso_try_get ops strategy entities e key ia st) (\<lambda>(v, ia', st').
     bind_res (expect MissingComponent v) (\<lambda>v. Inr (v, ia', st')))"

definition known_discrims :: "'t iso_access \<Rightarrow> nat list" where
  "known_discrims ia = map snd (iso_iter_keys ia)"

definition iso_get_all :: "nat \<Rightarrow> 't iso_access \<Rightarrow> ('t, 'v, 'l) store \<Rightarrow> (nat \<times> 'v) list res" where
  "iso_get_all e ia st =
     bind_res (map_res (\<lambda>(key, d). bind_res (iso_storage ia d st) (\<lambda>storage. Inr (d, fmlookup storage e))) (iso_iter_keys ia))
       (\<lambda>xs. Inr (List.map_filter (\<lambda>(d, v). map_option (Pair d) v) xs))"

definition iso_iter :: "'l rw_ops \<Rightarrow> ('t, 'v) init_strategy \<Rightarrow> 'w::len raw chunk list res \<Rightarrow> nat \<Rightarrow> 't iso_access
    \<Rightarrow> ('t, 'v, 'l) store \<Rightarrow> ((nat \<times> 'v) list \<times> 't iso_access \<times> ('t, 'v, 'l) store) res" where
  "iso_iter ops strategy entities key ia st =
     bind_res (iso_get_storage ops strategy entities key ia st) (\<lambda>(d, ia', st').
     bind_res (iso_storage ia' d st') (\<lambda>storage.
     Inr (map (\<lambda>e. (e, the (fmlookup storage e))) (sorted_list_of_fset (fmdom storage)), ia', st')))"

text \<open>\<open>split\<close> and \<open>split_mut\<close>: one accessor for each key.\<close>

definition iso_split :: "'l rw_ops \<Rightarrow> ('t, 'v) init_strategy \<Rightarrow> 'w::len raw chunk list res \<Rightarrow> nat list \<Rightarrow> 't iso_access
    \<Rightarrow> ('t, 'v, 'l) store \<Rightarrow> (nat list \<times> 't iso_access \<times> ('t, 'v, 'l) store) res" where
  "iso_split ops strategy entities keys ia st = iso_get_storage_many ops strategy entities keys ia st"

text \<open>Partial accessors without a mutable receiver.\<close>

definition iso_try_get_ref :: "nat list \<Rightarrow> nat \<Rightarrow> nat \<Rightarrow> 't iso_access \<Rightarrow> ('t, 'v, 'l) store \<Rightarrow> 'v option res" where
  "iso_try_get_ref ds e key ia st =
     bind_res (partial_get_storage ds key) (\<lambda>d.
     bind_res (iso_storage ia d st) (\<lambda>storage. Inr (fmlookup storage e)))"

definition iso_get_ref :: "nat list \<Rightarrow> nat \<Rightarrow> nat \<Rightarrow> 't iso_access \<Rightarrow> ('t, 'v, 'l) store \<Rightarrow> 'v res" where
  "iso_get_ref ds e key ia st = bind_res (iso_try_get_ref ds e key ia st) (expect MissingComponent)"

text \<open>Writing; a reference is the discriminant and the entity of its cell.\<close>

definition iso_try_get_mut :: "'l rw_ops \<Rightarrow> ('t, 'v) init_strategy \<Rightarrow> 'w::len raw chunk list res \<Rightarrow> nat \<Rightarrow> nat \<Rightarrow> 't iso_access
    \<Rightarrow> ('t, 'v, 'l) store \<Rightarrow> ((nat \<times> nat) option \<times> 't iso_access \<times> ('t, 'v, 'l) store) res" where
  "iso_try_get_mut ops strategy entities e key ia st =
     bind_res (iso_get_storage ops strategy entities key ia st) (\<lambda>(d, ia', st').
     bind_res (iso_storage ia' d st') (\<lambda>storage. Inr (map_option (\<lambda>_. (d, e)) (fmlookup storage e), ia', st')))"

definition iso_get_mut :: "'l rw_ops \<Rightarrow> ('t, 'v) init_strategy \<Rightarrow> 'w::len raw chunk list res \<Rightarrow> nat \<Rightarrow> nat \<Rightarrow> 't iso_access
    \<Rightarrow> ('t, 'v, 'l) store \<Rightarrow> ((nat \<times> nat) \<times> 't iso_access \<times> ('t, 'v, 'l) store) res" where
  "iso_get_mut ops strategy entities e key ia st =
     bind_res (iso_try_get_mut ops strategy entities e key ia st) (\<lambda>(v, ia', st').
     bind_res (expect MissingComponent v) (\<lambda>v. Inr (v, ia', st')))"

definition iso_set :: "'l rw_ops \<Rightarrow> ('t, 'v) init_strategy \<Rightarrow> 'w::len raw chunk list res \<Rightarrow> nat \<Rightarrow> nat \<Rightarrow> 'v option \<Rightarrow> 't iso_access
    \<Rightarrow> ('t, 'v, 'l) store \<Rightarrow> ('v option \<times> 't iso_access \<times> ('t, 'v, 'l) store) res" where
  "iso_set ops strategy entities e key value ia st =
     bind_res (iso_get_storage ops strategy entities key ia st) (\<lambda>(d, ia', st').
     bind_res (storage_map (ia_arch ia') (ia_comp ia') st') (\<lambda>m.
     bind_res (iso_storage ia' d st') (\<lambda>storage.
     let storage' = (case value of Some v \<Rightarrow> fmupd e v storage | None \<Rightarrow> fmdrop e storage) in
     Inr (fmlookup storage e, ia',
          put_map (ia_arch ia') (ia_comp ia') (map (\<lambda>(d', s). (d', if d' = d then storage' else s)) m) st'))))"

subsection \<open>What is set is found\<close>

lemma storage_map_put:
  assumes "storage_map a c st = Inr m0"
  shows "storage_map a c (put_map a c m st) = Inr m"
proof -
  have upd: "map_of (map (\<lambda>(k, x). (k, if k = j then f x else x)) xs) j = map_option f (map_of xs j)" for j f and xs :: "('k \<times> 'x) list"
    by (induction xs) auto
  from assms obtain ty where "map_of (st_comps st) a = Some ty" "map_of (ty_isotope ty) c = Some m0"
    by (cases "map_of (st_comps st) a"; cases "map_of (ty_isotope (the (map_of (st_comps st) a))) c")
      (auto simp: storage_map_def find_archetype_def)
  then show ?thesis
    using upd [of a "\<lambda>ty. ty\<lparr>ty_isotope := map (\<lambda>(d, m0). (d, if d = c then m else m0)) (ty_isotope ty)\<rparr>" "st_comps st"]
      upd [of c "\<lambda>_. m" "ty_isotope ty"]
    by (simp add: storage_map_def find_archetype_def put_map_def)
qed

lemma full_get_storage_held:
  assumes "full_get_storage ops strategy entities mutable a c d held st = Inr (gs, st')"
  shows "full_get_storage ops strategy entities mutable a c d (held @ gs) st2 = Inr ([], st2)"
proof -
  have own: "own_storage ops mutable a c d st = Inr (gs, st') \<Longrightarrow>
      gs = [if mutable then WriteGuard (IsotopeLock a c d) else ReadGuard (IsotopeLock a c d)]" for st
    by (auto simp: own_storage_def lock_read_def lock_write_def split: if_splits)
  show ?thesis using assms own
    by (fastforce simp: full_get_storage_def create_and_own_def map_lock_def assert_res_def split: if_splits)
qed

lemma iso_set_then_get:
  assumes "iso_set ops strategy entities e key value ia st = Inr (old, ia', st')"
  shows "iso_try_get ops strategy entities e key ia' st' = Inr (value, ia', st')"
proof -
  from assms obtain d st1 where g: "iso_get_storage ops strategy entities key ia st = Inr (d, ia', st1)"
    by (auto simp: iso_set_def Let_def split: prod.splits)
  from assms g obtain m storage where m: "storage_map (ia_arch ia') (ia_comp ia') st1 = Inr m"
    and s: "map_of m d = Some storage"
    and st': "st' = put_map (ia_arch ia') (ia_comp ia') (map (\<lambda>(d', s). (d', if d' = d
        then (case value of Some v \<Rightarrow> fmupd e v storage | None \<Rightarrow> fmdrop e storage) else s)) m) st1"
    by (auto simp: iso_set_def iso_storage_def Let_def split: prod.splits)
  have again: "iso_get_storage ops strategy entities key ia' st' = Inr (d, ia', st')"
  proof (cases "ia_kind ia")
    case (PartialIso ds)
    with g show ?thesis by (auto simp: iso_get_storage_def)
  next
    case FullIso
    with g obtain gs where "full_get_storage ops strategy entities (ia_mutable ia) (ia_arch ia) (ia_comp ia) key (ia_held ia) st = Inr (gs, st1)"
      and ia': "ia' = ia\<lparr>ia_held := ia_held ia @ gs\<rparr>" "d = key" by (auto simp: iso_get_storage_def)
    from full_get_storage_held [OF this(1)] FullIso ia' show ?thesis by (simp add: iso_get_storage_def)
  qed
  have "map_of (map (\<lambda>(d', s). (d', if d' = d then storage' else s)) m) d = Some storage'" for storage'
    using s by (induction m) (auto split: if_splits)
  with storage_map_put [OF m] again show ?thesis
    by (auto simp: iso_try_get_def iso_storage_def st' split: option.splits)
qed

text \<open>Equal keys are refused, also for reading.\<close>

lemma iso_many_duplicate:
  "ia_kind ia = PartialIso ds \<Longrightarrow> k < length ds \<Longrightarrow>
   iso_get_storage_many ops strategy entities [k, k] ia st = Inl DuplicateKey"
  by (simp add: iso_get_storage_many_def mapped_get_mut_array_by_def split_mut_array_def mapped_get_mut_by_def
      set_map_def list_get_def assert_res_def)

end
