(* ===== verification/Spec2Isabelle.thy ===== *)
theory Spec2Isabelle
  imports World_Builder Executor Ealloc Tree_Storage Discrim_Maps Entity_Laws Access_Run Iter_Laws Isotope_Access
begin

text \<open>
  \<^bold>\<open>dynec\<close> is an entity-component-system runtime in Rust. A world holds archetypes; an archetype has
  entities, identified by non-zero integers, and a storage for each of its components. Systems declare
  which globals and which components of which archetypes they read or write; a scheduler runs them in
  parallel, in cycles, such that conflicting systems never overlap and declared orders are kept.
  Entities are created and deleted by systems; the effects that need the whole world are queued and
  applied between cycles. Optional reference counts detect references to deleted entities.

  This development models these parts as pure functions over explicit state, one theory for each
  component, with the theorems that make them correct. A computation that may panic is a value of
  \<open>'a res\<close>: \<open>Inl p\<close> is the panic \<open>p\<close>, \<open>Inr x\<close> the result. File names are relative to \<open>src/src\<close> of the
  repository unless they start with \<open>codegen\<close>.

  \<^bold>\<open>The scheduler\<close> (\<open>scheduler.rs\<close>, \<open>scheduler/\<close>).
  \<^item> \<open>Sched_Types\<close>: nodes, resources, and the conflict check between accesses (\<open>scheduler.rs\<close>).
  \<^item> \<open>Topology\<close>: \<open>topology.rs\<close>. The dependency graph, the depth-first search for cycles, the initial
    wake-up states and the exclusion graph. The search reports a cycle exactly if there is one and ends.
  \<^item> \<open>Planner\<close>: \<open>planner.rs\<close>. \<open>steal\<close>, \<open>complete\<close> and the removal of blocks as functions on the planner
    state; the locale \<open>schedule\<close> states what they need of a topology. The invariant \<open>planner_inv\<close> counts
    the unfinished dependencies and running exclusions of each node.
  \<^item> \<open>Sched_Builder\<close>: \<open>builder.rs\<close>; every topology it builds satisfies the locale \<open>schedule\<close>
    (interpretation \<open>built\<close>).
  \<^item> \<open>Components\<close>, \<open>World_Builder\<close>: the registration of component storages with their initializers
    (\<open>comp.rs\<close>, \<open>world/typed.rs\<close>), the specifications of systems (\<open>system/spec.rs\<close>) and their
    translation into resources and orders (\<open>world/builder.rs\<close>).
  \<^item> \<open>Executor\<close>: \<open>executor.rs\<close>. Worker threads, the main thread, the mutex and the condition variable as
    a step relation; the deadlock counter.
  Results: C1 to C12. Conflicting systems never overlap, orders are respected, the planner never
  panics, offers exactly what can start, finishes every system, the executor raises no false
  deadlock alarm and ends; with time-outs of the condition variable a wake-up can be lost.

  \<^bold>\<open>Entity allocation\<close> (\<open>entity/raw.rs\<close>, \<open>entity/ealloc.rs\<close>, \<open>entity/ealloc/\<close>).
  \<^item> \<open>Raw\<close>: identifiers are words of any width \<open>'w\<close>; additions and conversions check for overflow as in
    the source, \<open>fetch_add\<close> wraps.
  \<^item> \<open>Recycler\<close>, \<open>Snapshot\<close>, \<open>Distribute\<close>, \<open>Recycling\<close>, \<open>Ealloc\<close>: recyclers of deleted identifiers,
    snapshots and their slices, the distribution over shards, the recycling allocator and the shards
    that are lent to workers for a cycle.
  Results: C13 to C20. No identifier is handed out twice; a flush loses nothing; snapshots are exact
  with two exceptions, which are proved to occur; slices behind the first hole are wrong.

  \<^bold>\<open>Storages\<close> (\<open>storage.rs\<close>, \<open>storage/vec.rs\<close>, \<open>storage/tree.rs\<close>, \<open>util.rs\<close>). \<open>Storage_Spec\<close> holds the
  contract as the locale \<open>storage\<close>, \<open>Vec_Storage\<close> and \<open>Tree_Storage\<close> the two implementations and their
  interpretations. Results: C21 to C26.

  \<^bold>\<open>Discriminants\<close> (\<open>comp/discrim.rs\<close>, \<open>codegen/src/discrim.rs\<close>). \<open>Discrim\<close> holds the code of the four maps,
  \<open>Full_Map\<close> the locales for discriminants and maps, \<open>Discrim_Maps\<close> the interpretations. Results: C27 to C29.

  \<^bold>\<open>The world\<close> (\<open>world.rs\<close>, \<open>world/offline.rs\<close>, \<open>storage/isotope.rs\<close>, \<open>entity/generation.rs\<close>,
  \<open>entity/rctrack.rs\<close>, \<open>entity/referrer.rs\<close>). \<open>Entity_Track\<close> holds generations, reference counts and the
  visitors of references, \<open>World\<close> creation, deletion and cycles, \<open>Lifecycle\<close> the ownership of
  identifiers over whole histories, \<open>Entity_Laws\<close> the effect of each operation. Results: C30 to C37.

  \<^bold>\<open>Access\<close> (\<open>world/global.rs\<close>, \<open>world/rw/\<close>, \<open>system/access/\<close>, \<open>system/iter.rs\<close>, \<open>codegen/src/system.rs\<close>).
  \<^item> \<open>Access\<close>: the locks behind the parameters of a system; \<open>Access_Laws\<close>: when each is free; \<open>Access_Run\<close>:
    a cycle in which systems are stolen, lock and return in any interleaving; \<open>Isotope_Access\<close>: the
    accessors of isotopes.
  \<^item> \<open>Single_Access\<close>: accessors of one storage; \<open>Partition_Laws\<close>: the contract of partitions as the locale
    \<open>partition\<close>, with both storages as interpretations; \<open>Entity_Iter\<close>: the iterators over entities;
    \<open>Iter_Laws\<close>: what they yield.
  Results: C38 to C40. The schedule makes every lock acquisition succeed; serial and chunked iteration
  yield each live entity once with exclusive references; parallel iteration agrees where there are no
  holes, and visits the holes otherwise.

  \<^bold>\<open>Parameters and bounds.\<close> The iteration order of hash containers is a parameter \<open>ho\<close> known only to
  permute (\<open>hash_order_ok\<close>). The read-write lock of \<open>parking_lot\<close> is a parameter with its documented
  behaviour (\<open>rw_lock_ok\<close>). Recyclers are a parameter of the allocator with the locale of their laws. How \<open>rayon\<close>
  divides work is a parameter \<open>plan\<close>. Types are abstract keys \<open>'t\<close>, components values \<open>'v\<close>; initializers
  are functions on them. Loops that end for a reason other than the shape of their input are functions with a
  termination proof, or carry fuel that a lemma shows to be enough: the search for cycles and
  \<open>build\<close> return \<open>Some\<close> on every input a builder can produce.

  \<^bold>\<open>Not modelled.\<close> The procedural macros beyond what the generated code requests and calls, the
  declarative macros, tracers, benchmarks and examples: they parse, log or use the library. Memory
  safety of \<open>unsafe\<close> blocks is modelled as far as a read of an uninitialized slot is the panic
  \<open>UninitRead\<close> and references are the positions they point to. Weak memory: the planner is only touched
  under its mutex, atomic counters are read and written in sequence.
\<close>

section \<open>Whole schedules\<close>

text \<open>
  A small schedule for the witnesses: a thread-safe system that writes global 1 before partition
  7, a thread-local system that reads global 1, and a thread-safe system after partition 7 that
  writes global 2.
\<close>

definition demo_ci :: "nat \<Rightarrow> (nat, nat) comp_info" where
  "demo_ci c = \<lparr>ci_presence = Optional, ci_init = NoInit, ci_finalizer = False\<rparr>"

definition demo_system ::
    "bool \<Rightarrow> (nat, nat) partition_key dependency list \<Rightarrow> nat \<Rightarrow> bool \<Rightarrow> (nat, nat, nat) system" where
  "demo_system sync deps ty mut =
     \<lparr>sys_spec = \<lparr>debug_name = ''demo'', spec_dependencies = deps,
        global_requests = [\<lparr>gr_ty = ty, gr_initial = InitSync 0, gr_mutable = mut, gr_strong_refs = []\<rparr>],
        simple_requests = [], isotope_requests = [], entity_creator_requests = []\<rparr>,
      sys_found_archs = [], sys_maybe_uninit = [], sys_sync = sync\<rparr>"

definition demo_systems :: "(nat, nat, nat) system list" where
  "demo_systems =
     [demo_system True [Before (UserPartition 7)] 1 True,
      demo_system False [] 1 False,
      demo_system True [After (UserPartition 7)] 2 True]"

definition demo_world :: "(nat, nat, nat) world_builder" where
  "demo_world =
     (case schedule_all demo_ci 100 demo_systems (world_builder_new 50 0 2) of
        Inr wb \<Rightarrow> wb | Inl _ \<Rightarrow> world_builder_new 50 0 2)"

definition demo_scheduler :: "(nat, nat) partition_key scheduler" where
  "demo_scheduler =
     (case build id (wb_scheduler demo_world) of
        Some (Inr s) \<Rightarrow> s
      | _ \<Rightarrow> \<lparr>sched_topology = empty_topology, sched_planner = initial_planner (empty_topology :: (nat, nat) partition_key topology),
              sched_concurrency = 0, sync_state = [], unsync_state = []\<rparr>)"

lemma demo_scheduled:
  "schedule_all demo_ci 100 demo_systems (world_builder_new 50 0 2) = Inr demo_world"
proof -
  have "case schedule_all demo_ci 100 demo_systems (world_builder_new 50 0 2) of Inr _ \<Rightarrow> True | Inl _ \<Rightarrow> False"
    by code_simp
  then show ?thesis by (simp add: demo_world_def split: sum.splits)
qed

lemma demo_built: "build id (wb_scheduler demo_world) = Some (Inr demo_scheduler)"
proof -
  have "case build id (wb_scheduler demo_world) of Some (Inr _) \<Rightarrow> True | _ \<Rightarrow> False"
    by code_simp
  then show ?thesis by (simp add: demo_scheduler_def split: sum.splits option.splits)
qed

text \<open>Planner states along one run of that schedule.\<close>

definition demo_after :: "planner_op list \<Rightarrow> planner" where
  "demo_after ops =
     (case planner_run (sched_topology demo_scheduler) ops of
        Inr p \<Rightarrow> p | Inl _ \<Rightarrow> initial_planner (sched_topology demo_scheduler))"

definition demo_running :: planner where
  "demo_running = demo_after [OpStealSend]"

definition demo_later :: planner where
  "demo_later = demo_after [OpStealSend, OpComplete (SendSystem 0), OpStealSend]"

lemma demo_reach: "planner_reach (sched_topology demo_scheduler) (demo_after ops)"
  using planner_run_reach [of "sched_topology demo_scheduler" ops]
  by (auto simp: demo_after_def planner_reach.init split: sum.splits)

text \<open>
  C1. Mutual exclusion, end to end: if scheduling a list of systems and building the schedule
  succeed, then in every planner state that any interleaving of steals and completions reaches,
  two different systems of which one requests an access that conflicts with an access requested
  by the other are never running at the same time.
\<close>

theorem conflicting_systems_never_overlap:
  assumes "schedule_all ci flag syss (world_builder_new gt gs n) = Inr wb"
    and "hash_order_ok ho" and "build ho (wb_scheduler wb) = Some (Inr s)"
    and "planner_reach (sched_topology s) p"
    and "i < length syss" and "j < length syss" and "i \<noteq> j"
    and "(ty, a1) \<in> set (requests (syss ! i))" and "(ty, a2) \<in> set (requests (syss ! j))"
    and "conflicts a1 a2"
  shows "\<not> (node_at syss i \<in> running p \<and> node_at syss j \<in> running p)"
proof -
  note w = world_schedule [OF assms(1-3)]
  have "planner_inv (sched_topology s) p"
    using built.reach_inv [of ho "wb_scheduler wb" p] assms(4) w(2) by simp
  then show ?thesis
    using requests_excluded [OF w(1,3) assms(5-10)]
      built.running_independent [of ho "wb_scheduler wb" p "node_at syss i" "node_at syss j"] w(2) by auto
qed

theorem conflicting_systems_never_overlap_witness:
  "state_of demo_running (SendSystem 0) = Some Started \<and> UnsendSystem 0 \<notin> running demo_running"
proof -
  have "\<not> (node_at demo_systems 0 \<in> running demo_running \<and> node_at demo_systems 1 \<in> running demo_running)"
  proof (rule conflicting_systems_never_overlap [OF demo_scheduled hash_order_ok_id demo_built demo_reach [of "[OpStealSend]", folded demo_running_def]])
    show "(GlobalRes 1, access_new True) \<in> set (requests (demo_systems ! 0))"
      and "(GlobalRes 1, access_new False) \<in> set (requests (demo_systems ! 1))"
      and "conflicts (access_new True) (access_new False)"
      and "0 < length demo_systems" and "1 < length demo_systems" and "(0::nat) \<noteq> 1"
      by code_simp+
  qed
  moreover have "node_at demo_systems 0 = SendSystem 0" "node_at demo_systems 1 = UnsendSystem 0"
    by code_simp+
  moreover have "state_of demo_running (SendSystem 0) = Some Started" by code_simp
  ultimately show ?thesis by (simp add: running_def)
qed

text \<open>
  C2. Partition order, end to end: a system that asks to run before a partition (explicitly, or
  implicitly because it reads strong references to an archetype) is finished whenever a system
  that asks to run after that partition is running or finished.
\<close>

theorem partition_order_respected:
  assumes "schedule_all ci flag syss (world_builder_new gt gs n) = Inr wb"
    and "hash_order_ok ho" and "build ho (wb_scheduler wb) = Some (Inr s)"
    and "planner_reach (sched_topology s) p"
    and "i < length syss" and "j < length syss"
    and "Before par \<in> set (wanted_orders (syss ! i))" and "After par \<in> set (wanted_orders (syss ! j))"
    and "node_at syss j \<in> running p \<union> finished p"
  shows "node_at syss i \<in> finished p"
proof -
  note w = world_schedule [OF assms(1-3)]
  have "planner_inv (sched_topology s) p"
    using built.reach_inv [of ho "wb_scheduler wb" p] assms(4) w(2) by simp
  then have "state_of p (node_at syss i) = Some Completed"
    using built.dependencies_completed [of ho "wb_scheduler wb" p "node_at syss j" "node_at syss i"]
      orders_connected [OF w(1,3) assms(5-8)] assms(9) w(2)
    by (auto simp: running_def finished_def)
  then show ?thesis by (simp add: finished_def node_at_def)
qed

theorem partition_order_respected_witness:
  "SendSystem 1 \<in> running demo_later \<and> SendSystem 0 \<in> finished demo_later"
proof -
  have n: "node_at demo_systems 0 = SendSystem 0" "node_at demo_systems 2 = SendSystem 1" by code_simp+
  have run: "state_of demo_later (SendSystem 1) = Some Started" by code_simp
  have "node_at demo_systems 0 \<in> finished demo_later"
  proof (rule partition_order_respected [OF demo_scheduled hash_order_ok_id demo_built,
        where j = 2 and par = "UserPartition 7"])
    show "planner_reach (sched_topology demo_scheduler) demo_later"
      unfolding demo_later_def by (rule demo_reach)
    show "0 < length demo_systems" and "2 < length demo_systems"
      and "Before (UserPartition 7) \<in> set (wanted_orders (demo_systems ! 0))"
      and "After (UserPartition 7) \<in> set (wanted_orders (demo_systems ! 2))"
      by code_simp+
    show "node_at demo_systems 2 \<in> running demo_later \<union> finished demo_later"
      using run by (simp add: n running_def)
  qed
  with run show ?thesis by (simp add: n running_def)
qed

text \<open>
  C3. Panic freedom of the planner: in every reachable state of a built schedule a steal from
  either pool returns normally, and completing any running system returns normally. So none of
  the panics of the planner (a runnable node that is not pending, an excluded node that has
  started, a partition among the exclusions, an underflow of the remaining count, ...) is
  reachable.
\<close>

theorem planner_never_panics:
  assumes "builder_wf b" and "hash_order_ok ho" and "build ho b = Some (Inr s)"
    and "planner_reach (sched_topology s) p"
  shows "(\<exists>r p'. steal_send (sched_topology s) p = Inr (r, p')) \<and>
    (\<exists>r p'. steal_unsend (sched_topology s) p = Inr (r, p')) \<and>
    (\<forall>n \<in> running p. \<exists>p'. complete (sched_topology s) n p = Inr p')"
proof -
  have t: "built_topology ho b = sched_topology s" by (rule built_topology_eq [OF assms(1-3)])
  have "planner_inv (sched_topology s) p" by (rule built_inv [OF assms(1-4)])
  then show ?thesis
    using built.steal_send_ok [of ho b p, unfolded t] built.steal_unsend_ok [of ho b p, unfolded t] built.complete_ok [of ho b p, unfolded t] t
    by (fastforce simp: running_def)
qed

lemma demo_wf: "builder_wf (wb_scheduler demo_world)"
  using schedule_all_ok [OF demo_scheduled scheduled_new] by (simp add: scheduled_def)

theorem planner_never_panics_witness:
  "\<exists>p'. SendSystem 1 \<in> running demo_later \<and> complete (sched_topology demo_scheduler) (SendSystem 1) demo_later = Inr p'"
proof -
  have run: "state_of demo_later (SendSystem 1) = Some Started" by code_simp
  show ?thesis
    using planner_never_panics [OF demo_wf hash_order_ok_id demo_built, of demo_later] demo_reach run
    by (auto simp: demo_later_def running_def)
qed

text \<open>
  C4. The planner refines the abstract schedule of running and finished systems: a steal returns
  the least system of its pool that the abstract schedule allows to start, and starts exactly
  that one; it returns "pending" only when nothing in that pool may start, and "cycle complete"
  only when every system is finished.
\<close>

theorem steal_refines_schedule:
  assumes "builder_wf b" and "hash_order_ok ho" and "build ho b = Some (Inr s)"
    and "planner_reach (sched_topology s) p"
  shows "(\<exists>r p'. steal_send (sched_topology s) p = Inr (r, p') \<and>
      steal_spec (sched_topology s) SendSystem p r p') \<and>
    (\<exists>r p'. steal_unsend (sched_topology s) p = Inr (r, p') \<and>
      steal_spec (sched_topology s) UnsendSystem p r p')"
proof -
  have t: "built_topology ho b = sched_topology s" by (rule built_topology_eq [OF assms(1-3)])
  have "planner_inv (sched_topology s) p" by (rule built_inv [OF assms(1-4)])
  then show ?thesis
    using built.steal_send_ok [of ho b p, unfolded t] built.steal_unsend_ok [of ho b p, unfolded t] t by blast
qed

theorem steal_refines_schedule_witness:
  "\<exists>p'. steal_send (sched_topology demo_scheduler) demo_running = Inr (StealPending, p') \<and>
     (\<forall>i. \<not> can_start (sched_topology demo_scheduler) (running demo_running) (finished demo_running) (SendSystem i))"
proof -
  have "case steal_send (sched_topology demo_scheduler) demo_running of
      Inr (StealPending, _) \<Rightarrow> True | _ \<Rightarrow> False" by code_simp
  then obtain p' where "steal_send (sched_topology demo_scheduler) demo_running = Inr (StealPending, p')"
    by (auto split: sum.splits prod.splits steal_result.splits)
  with steal_refines_schedule [OF demo_wf hash_order_ok_id demo_built, of demo_running]
    demo_reach [of "[OpStealSend]", folded demo_running_def]
  show ?thesis by (auto simp: steal_spec_def)
qed

text \<open>
  C5. Completion refines the abstract schedule: completing a running system moves exactly that
  system from the running to the finished set, whatever partitions and exclusions it unblocks.
\<close>

theorem complete_refines_schedule:
  assumes "builder_wf b" and "hash_order_ok ho" and "build ho b = Some (Inr s)"
    and "planner_reach (sched_topology s) p" and "n \<in> running p"
  shows "\<exists>p'. complete (sched_topology s) n p = Inr p' \<and>
    running p' = running p - {n} \<and> finished p' = insert n (finished p) \<and>
    remaining_systems p' + 1 = remaining_systems p"
proof -
  have t: "built_topology ho b = sched_topology s" by (rule built_topology_eq [OF assms(1-3)])
  have inv: "planner_inv (sched_topology s) p" by (rule built_inv [OF assms(1-4)])
  obtain p' where p': "complete (sched_topology s) n p = Inr p'" "planner_inv (sched_topology s) p'"
    "remaining_systems p' + 1 = remaining_systems p"
    "\<forall>m. is_system m \<longrightarrow> (state_of p' m = Some Started \<longleftrightarrow> m \<noteq> n \<and> state_of p m = Some Started) \<and>
       (state_of p' m = Some Completed \<longleftrightarrow> m = n \<or> state_of p m = Some Completed)"
    using built.complete_ok [of ho b p n, unfolded t] inv assms(5) t by (auto simp: running_def)
  have sys: "is_system m" if "planner_inv (sched_topology s) q" "state_of q m = Some Started" for q m
    using built.inv_node [of ho b q m Started, unfolded t] that t by (simp add: node_ok_def)
  show ?thesis
    using p' sys [OF inv] sys [OF p'(2)] assms(5) by (auto simp: running_def finished_def)
qed

theorem complete_refines_schedule_witness:
  "\<exists>p'. complete (sched_topology demo_scheduler) (SendSystem 0) demo_running = Inr p' \<and>
     SendSystem 0 \<in> finished p'"
proof -
  have "state_of demo_running (SendSystem 0) = Some Started" by code_simp
  then have "SendSystem 0 \<in> running demo_running" by (simp add: running_def)
  from complete_refines_schedule [OF demo_wf hash_order_ok_id demo_built
      demo_reach [of "[OpStealSend]", folded demo_running_def] this]
  show ?thesis by auto
qed

text \<open>
  C6. Progress: as long as systems remain and none is running, a steal from one of the two pools
  yields a system, so the executor never has to wait with nothing running.
\<close>

theorem idle_planner_has_work:
  assumes "builder_wf b" and "hash_order_ok ho" and "build ho b = Some (Inr s)"
    and "planner_reach (sched_topology s) p" and "remaining_systems p \<noteq> 0" and "running p = {}"
  shows "(\<exists>i p'. steal_send (sched_topology s) p = Inr (StealReady i, p')) \<or>
    (\<exists>i p'. steal_unsend (sched_topology s) p = Inr (StealReady i, p'))"
proof -
  have t: "built_topology ho b = sched_topology s" by (rule built_topology_eq [OF assms(1-3)])
  have inv: "planner_inv (sched_topology s) p" by (rule built_inv [OF assms(1-4)])
  then show ?thesis
    using built.something_runnable [of ho b p, unfolded t] built.steal_pending_empty [of ho b p, unfolded t] assms(5,6) t by blast
qed

theorem idle_planner_has_work_witness:
  "\<exists>i p'. steal_send (sched_topology demo_scheduler) (demo_after []) = Inr (StealReady i, p') \<or>
     steal_unsend (sched_topology demo_scheduler) (demo_after []) = Inr (StealReady i, p')"
proof -
  have "remaining_systems (demo_after []) \<noteq> 0" by code_simp
  moreover have "running (demo_after []) = {}"
  proof -
    have "fmpred (\<lambda>n w. w \<noteq> Started) (wakeup_state (demo_after []))" by code_simp
    then show ?thesis by (auto simp: running_def state_of_def dest: fmpredD)
  qed
  ultimately show ?thesis
    using idle_planner_has_work [OF demo_wf hash_order_ok_id demo_built demo_reach [of "[]"]] by blast
qed

text \<open>
  C7. Every reachable state of a built schedule can be driven to the end of the cycle by steals and
  completions alone, and at the end every node of the schedule, partitions included, is
  completed: the check after the cycle in the executor never fires.
\<close>

theorem cycle_can_finish:
  assumes "builder_wf b" and "hash_order_ok ho" and "build ho b = Some (Inr s)"
    and "planner_reach (sched_topology s) p"
  shows "\<exists>ops p'. fold_res (planner_exec (sched_topology s)) ops p = Inr p' \<and>
    remaining_systems p' = 0 \<and> (\<forall>n \<in> set (builder_nodes b). state_of p' n = Some Completed)"
proof -
  have t: "built_topology ho b = sched_topology s" by (rule built_topology_eq [OF assms(1-3)])
  have inv: "planner_inv (sched_topology s) p" by (rule built_inv [OF assms(1-4)])
  have dom: "fmdom' (dependents (sched_topology s)) = set (builder_nodes b)"
    using build_outcome [OF assms(1,2)] assms(3) by (auto simp: topology_for_def)
  obtain ops p' where "fold_res (planner_exec (sched_topology s)) ops p = Inr p'"
    "planner_inv (sched_topology s) p'" "remaining_systems p' = 0"
    using built.can_finish [of ho b p, unfolded t] inv t by auto
  with built.all_completed [of ho b p', unfolded t] t dom show ?thesis by auto
qed

theorem cycle_can_finish_witness:
  "\<exists>ops p'. fold_res (planner_exec (sched_topology demo_scheduler)) ops demo_later = Inr p' \<and>
     remaining_systems p' = 0"
  using cycle_can_finish [OF demo_wf hash_order_ok_id demo_built, of demo_later] demo_reach
  unfolding demo_later_def by blast

text \<open>
  C8. Building: a builder that only used its own nodes either yields a schedule whose exclusions
  are exactly the conflicts between recorded accesses, or panics with a cyclic dependency and
  prints a real cycle of the recorded orders. No other panic and no endless scan is possible.
\<close>

theorem build_succeeds_or_reports_cycle:
  assumes "builder_wf b" and "hash_order_ok ho"
  shows "(\<exists>s. build ho b = Some (Inr s) \<and> acyclic (edges (dependents (sched_topology s))) \<and>
      (\<forall>n m. n \<in> set (builder_nodes b) \<longrightarrow> (m \<in> set (succs (exclusions (sched_topology s)) n) \<longleftrightarrow>
         n \<noteq> m \<and> (\<exists>ty. \<exists>a1 \<in> set (accesses_of b ty n). \<exists>a2 \<in> set (accesses_of b ty m). conflicts a1 a2)))) \<or>
    (\<exists>p. build ho b = Some (Inl (CyclicDependency p)) \<and> 2 \<le> length p \<and> hd p = last p \<and>
      successively (\<lambda>x y. y \<in> set (out_list (orders b) x)) p)"
  using build_outcome [OF assms]
proof (elim disjE exE conjE)
  fix s
  assume "build ho b = Some (Inr s)" and t: "topology_for (builder_nodes b) (orders b) (resources b) (sched_topology s)"
  moreover have "m \<in> set (succs (exclusions (sched_topology s)) n) \<longleftrightarrow>
      n \<noteq> m \<and> (\<exists>ty. \<exists>a1 \<in> set (accesses_of b ty n). \<exists>a2 \<in> set (accesses_of b ty m). conflicts a1 a2)"
    if "n \<in> set (builder_nodes b)" for n m
    using t that users_conflict_accesses [OF assms(1), of n m] by (simp add: topology_for_def)
  ultimately show ?thesis by (intro disjI1) (auto simp: topology_for_def)
qed blast

theorem build_succeeds_or_reports_cycle_witness:
  "let b = add_dependencies [Before (1::nat), After 1] (SendSystem 0)
         (snd (push_send_system ''loop'' (builder_new 0 :: (nat, nat) builder)))
   in \<exists>p. build id b = Some (Inl (CyclicDependency p)) \<and> hd p = last p"
proof -
  let ?base = "snd (push_send_system ''loop'' (builder_new 0 :: (nat, nat) builder))"
  let ?b = "add_dependencies [Before (1::nat), After 1] (SendSystem 0) ?base"
  have b0: "builder_wf ?base \<and> builder_system ?base (SendSystem 0)"
    by (simp add: builder_wf_def builder_system_iff push_send_system_def builder_new_def valid_orders_def)
  then have wf: "builder_wf ?b" using add_dependencies_ok by blast
  have "case build id ?b of Some (Inl (CyclicDependency _)) \<Rightarrow> True | _ \<Rightarrow> False" by code_simp
  with build_succeeds_or_reports_cycle [OF wf hash_order_ok_id] show ?thesis
    by (auto simp: Let_def)
qed

section \<open>Whole cycles\<close>

text \<open>The scheduler's demo cycle with one worker thread.\<close>

fun exec_run :: "'p topology \<Rightarrow> exec_event list \<Rightarrow> exec_state \<Rightarrow> exec_state option" where
  "exec_run t [] s = Some s"
| "exec_run t (ev # evs) s =
     (case exec_step t ev s of Some (Inr s') \<Rightarrow> exec_run t evs s' | _ \<Rightarrow> None)"

lemma exec_run_reach:
  assumes "exec_run t evs s = Some s'" and "exec_reach allowed t conc s" and "\<forall>ev \<in> set evs. allowed ev"
  shows "exec_reach allowed t conc s'"
  using assms
proof (induction evs arbitrary: s)
  case (Cons ev evs)
  then obtain s1 where "exec_step t ev s = Some (Inr s1)" "exec_run t evs s1 = Some s'"
    by (auto split: option.splits sum.splits)
  with Cons show ?case by (auto intro: exec_reach.step)
qed simp

definition demo_exec :: "exec_event list \<Rightarrow> exec_state" where
  "demo_exec evs =
     (case exec_run (sched_topology demo_scheduler) evs (exec_init (sched_topology demo_scheduler) 1) of
        Some s \<Rightarrow> s | None \<Rightarrow> exec_init (sched_topology demo_scheduler) 1)"

lemma demo_exec_reach:
  "\<forall>ev \<in> set evs. allowed ev \<Longrightarrow> exec_reach allowed (sched_topology demo_scheduler) 1 (demo_exec evs)"
  using exec_run_reach [of "sched_topology demo_scheduler" evs _ _ allowed 1]
  by (auto simp: demo_exec_def exec_reach.init split: option.splits)

text \<open>
  C9. Threads: whatever the threads do, time-outs and panicking systems included, two different
  threads never run the same system nor systems that exclude each other, and every system runs
  on a thread it may run on: a thread-local system on the main thread, a thread-safe one on a
  worker, or on the main thread when there are no workers.
\<close>

theorem threads_run_independent_systems:
  assumes "builder_wf b" and "hash_order_ok ho" and "build ho b = Some (Inr s)" and "conc + 1 < 2 ^ 64"
    and "exec_reach allowed (sched_topology s) conc st"
    and "i < length (ex_pcs st)" and "ex_pcs st ! i = Running n"
  shows "right_thread (conc + 1) i n \<and>
    (\<forall>j m. j < length (ex_pcs st) \<longrightarrow> j \<noteq> i \<longrightarrow> ex_pcs st ! j = Running m \<longrightarrow>
       m \<noteq> n \<and> m \<notin> set (succs (exclusions (sched_topology s)) n))"
proof -
  have t: "built_topology ho b = sched_topology s" by (rule built_topology_eq [OF assms(1-3)])
  have inv: "exec_inv (sched_topology s) conc st"
    using built.exec_reach_inv [of allowed ho b conc st, unfolded t] assms(4,5) by simp
  have run: "m \<in> running (ex_planner st)" if "j < length (ex_pcs st)" "ex_pcs st ! j = Running m" for j m
    using inv that nth_mem [of j "map pc_node (ex_pcs st)"] by (simp add: exec_inv_def)
  have indep: "m \<notin> set (succs (exclusions (sched_topology s)) n)" if "m \<in> running (ex_planner st)" for m
    using built.running_independent [of ho b "ex_planner st" n m, unfolded t] inv run assms(6,7) that
    by (auto simp: exec_inv_def)
  have "m \<noteq> n" if j: "j < length (ex_pcs st)" "j \<noteq> i" "ex_pcs st ! j = Running m" for j m
  proof
    assume "m = n"
    let ?L = "map pc_node (ex_pcs st)"
    have "count_list (?L[i := None]) (Some n) + 1 = count_list ?L (Some n)"
      using count_list_update [of i ?L None "Some n"] assms(6,7) by simp
    moreover have "count_list (?L[i := None]) (Some n) \<noteq> 0"
      using nth_mem [of j "?L[i := None]"] j \<open>m = n\<close> by (simp add: count_list_zero)
    moreover have "count_list ?L (Some n) \<le> 1" using inv by (simp add: exec_inv_def)
    ultimately show False by linarith
  qed
  with indep run exec_reach_threads [OF assms(5)] inv assms(6,7) show ?thesis
    by (auto simp: on_right_threads_def exec_inv_def)
qed

theorem threads_run_independent_systems_witness:
  "ex_pcs (demo_exec [Resume 0]) ! 0 = Running (SendSystem 0) \<and> right_thread (1 + 1) 0 (SendSystem 0)"
proof -
  have "ex_pcs (demo_exec [Resume 0]) ! 0 = Running (SendSystem 0)" "0 < length (ex_pcs (demo_exec [Resume 0]))"
    by code_simp+
  with threads_run_independent_systems [OF demo_wf hash_order_ok_id demo_built _ demo_exec_reach
      [of "[Resume 0]" "\<lambda>_. True"], of 0 "SendSystem 0"]
  show ?thesis by simp
qed

text \<open>
  C10. No false alarm: as long as no wait on the condition variable times out, the deadlock
  detector never fires and no other panic comes from the executor: every event that can happen,
  also a panicking system, leads to a next state.
\<close>

theorem no_deadlock_without_timeouts:
  assumes "builder_wf b" and "hash_order_ok ho" and "build ho b = Some (Inr s)" and "conc + 1 < 2 ^ 64"
    and "exec_reach (\<lambda>ev. \<not> is_timeout ev) (sched_topology s) conc st"
    and "\<not> is_timeout ev" and "exec_step (sched_topology s) ev st = Some r"
  shows "\<exists>st'. r = Inr st'"
proof -
  have t: "built_topology ho b = sched_topology s" by (rule built_topology_eq [OF assms(1-3)])
  have "exec_inv (sched_topology s) conc st \<and> exec_awake conc st"
    using built.exec_reach_awake [of "\<lambda>ev. \<not> is_timeout ev" ho b conc st, unfolded t] assms(4,5) by simp
  with built.exec_step_awake [of ho b conc st ev r, unfolded t] assms(4,6,7) show ?thesis by blast
qed

theorem no_deadlock_without_timeouts_witness:
  "\<exists>st'. exec_step (sched_topology demo_scheduler) (Finish 0) (demo_exec [Resume 0, Resume 1]) = Some (Inr st')"
proof -
  have "case exec_step (sched_topology demo_scheduler) (Finish 0) (demo_exec [Resume 0, Resume 1]) of
      Some _ \<Rightarrow> True | None \<Rightarrow> False" by code_simp
  then obtain r where r: "exec_step (sched_topology demo_scheduler) (Finish 0) (demo_exec [Resume 0, Resume 1]) = Some r"
    by (auto split: option.splits)
  with no_deadlock_without_timeouts [OF demo_wf hash_order_ok_id demo_built _ demo_exec_reach
      [of "[Resume 0, Resume 1]" "\<lambda>ev. \<not> is_timeout ev"] _ r]
  show ?thesis by auto
qed

text \<open>
  C11. The cycle ends: without time-outs and panicking systems there is no infinite execution,
  and an execution that cannot go on has returned from all threads with every node completed,
  so that the check after the cycle succeeds.
\<close>

theorem cycle_terminates_completed:
  assumes "builder_wf b" and "hash_order_ok ho" and "build ho b = Some (Inr s)" and "conc + 1 < 2 ^ 64"
  shows "wf {(st', st). exec_reach normal_event (sched_topology s) conc st \<and>
      (\<exists>ev. normal_event ev \<and> exec_step (sched_topology s) ev st = Some (Inr st'))} \<and>
    (\<forall>st. exec_reach normal_event (sched_topology s) conc st \<longrightarrow>
      (\<forall>ev. normal_event ev \<longrightarrow> exec_step (sched_topology s) ev st = None) \<longrightarrow>
      set (ex_pcs st) = {Returned} \<and> check_completed st = Inr ())"
proof -
  have t: "built_topology ho b = sched_topology s" by (rule built_topology_eq [OF assms(1-3)])
  have aw: "exec_inv (sched_topology s) conc st \<and> exec_awake conc st"
    if "exec_reach normal_event (sched_topology s) conc st" for st
    using built.exec_reach_awake [of normal_event ho b conc st, unfolded t] assms(4) that
    by (simp add: normal_event_def)
  have "{(st', st). exec_reach normal_event (sched_topology s) conc st \<and>
      (\<exists>ev. normal_event ev \<and> exec_step (sched_topology s) ev st = Some (Inr st'))} \<subseteq>
      inv_image exec_order (exec_measure (sched_topology s))"
    using aw built.exec_step_decreases [of ho b conc, unfolded t] assms(4) by auto
  then have wf: "wf {(st', st). exec_reach normal_event (sched_topology s) conc st \<and>
      (\<exists>ev. normal_event ev \<and> exec_step (sched_topology s) ev st = Some (Inr st'))}"
    by (rule wf_subset [rotated]) (simp add: wf_exec_order)
  have "set (ex_pcs st) = {Returned} \<and> check_completed st = Inr ()"
    if r: "exec_reach normal_event (sched_topology s) conc st"
      and stuck: "\<forall>ev. normal_event ev \<longrightarrow> exec_step (sched_topology s) ev st = None" for st
  proof -
    have "\<not> ex_had_panic st" using exec_reach_threads [OF r] by (auto simp: normal_event_def)
    with built.exec_progress [of ho b conc st, unfolded t] aw [OF r] stuck
    have ret: "set (ex_pcs st) = {Returned}" "remaining_systems (ex_planner st) = 0" by auto
    have p: "planner_inv (sched_topology s) (ex_planner st)" using aw [OF r] by (simp add: exec_inv_def)
    have "w = Completed" if "fmlookup (wakeup_state (ex_planner st)) n = Some w" for n w
      using built.all_completed [of ho b "ex_planner st" n, unfolded t] p ret(2) that
      by (auto simp: planner_inv_def planner_mid_def state_of_def)
    then have "check_completed st = Inr ()" by (auto simp: check_completed_def intro: fmpredI)
    with ret show ?thesis by simp
  qed
  with wf show ?thesis by blast
qed

theorem cycle_terminates_completed_witness:
  "wf {(st', st). exec_reach normal_event (sched_topology demo_scheduler) 1 st \<and>
      (\<exists>ev. normal_event ev \<and> exec_step (sched_topology demo_scheduler) ev st = Some (Inr st'))}"
  using cycle_terminates_completed [OF demo_wf hash_order_ok_id demo_built, of 1] by simp

text \<open>
  C12. A waiter that times out at the wrong moment misses its wake-up: there is a schedule of two
  systems around a partition and an execution in which the main thread times out just before the
  worker completes the first system. The worker then finds its pool empty and the deadlock
  detector panics, although the thread-local system has become runnable.
\<close>

definition lost_builder :: "(nat, nat) builder" where
  "lost_builder =
     add_dependencies [After 7] (UnsendSystem 0) (add_dependencies [Before 7] (SendSystem 0)
       (snd (push_unsend_system ''second'' (snd (push_send_system ''first'' (builder_new 1))))))"

definition lost_topology :: "nat topology" where
  "lost_topology =
     (case build id lost_builder of Some (Inr s) \<Rightarrow> sched_topology s | _ \<Rightarrow> empty_topology)"

definition lost_state :: "exec_state option" where
  "lost_state = exec_run lost_topology [Resume 0, Resume 1, TimeOut 1] (exec_init lost_topology 1)"

theorem timed_out_waiter_misses_wakeup:
  "\<exists>st p. lost_state = Some st \<and> exec_reach (\<lambda>_. True) lost_topology 1 st \<and>
     exec_step lost_topology (Finish 0) st = Some (Inl DeadlockDetected) \<and>
     complete lost_topology (SendSystem 0) (ex_planner st) = Inr p \<and> unsend_runnable p = {0}"
proof -
  have "case lost_state of None \<Rightarrow> False | Some st \<Rightarrow>
      (case exec_step lost_topology (Finish 0) st of Some (Inl e) \<Rightarrow> e = DeadlockDetected | _ \<Rightarrow> False) \<and>
      (case complete lost_topology (SendSystem 0) (ex_planner st) of Inr p \<Rightarrow> unsend_runnable p = {0} | _ \<Rightarrow> False)"
    by code_simp
  then obtain st where st: "lost_state = Some st"
      "exec_step lost_topology (Finish 0) st = Some (Inl DeadlockDetected)"
      "\<exists>p. complete lost_topology (SendSystem 0) (ex_planner st) = Inr p \<and> unsend_runnable p = {0}"
    by (auto split: option.splits sum.splits)
  moreover have "exec_reach (\<lambda>_. True) lost_topology 1 st"
    by (rule exec_run_reach [OF st(1) [unfolded lost_state_def] exec_reach.init]) simp
  ultimately show ?thesis by blast
qed

section \<open>Schedules and locks\<close>










end
